(* ===== verification/Prelude.thy ===== *)
theory Prelude
  imports Main "HOL-Library.Multiset" "HOL-Library.Word"
begin

text \<open>
  Shared vocabulary of the development: C integer widths, the pieces of the C++ standard
  library several components use (\<^verbatim>\<open>std::map\<close> as a key-sorted association list), the
  counting and list lemmas their proofs share, and the collections of simplification rules
  the component theories add to.
\<close>

section \<open>Collections and types\<close>

named_theorems model_defs \<open>definitions of the operations of a component\<close>
named_theorems inv_defs \<open>definitions of the invariants of a component\<close>

type_synonym u32 = "32 word"
type_synonym u64 = "64 word"

text \<open>\<^verbatim>\<open>LLONG_MAX\<close>, the largest value of the C type \<^verbatim>\<open>long long\<close>.\<close>

definition LLONG_MAX :: int where
  "LLONG_MAX = 2 ^ 63 - 1"

text \<open>The size of the message header of \<^verbatim>\<open>include/converse.h\<close>.\<close>

definition CmiMsgHeaderSizeBytes :: int where
  "CmiMsgHeaderSizeBytes = 24"

section \<open>Ordered maps\<close>

text \<open>
  \<^verbatim>\<open>std::map<K, V>\<close> is an association list kept in strictly increasing key order:
  \<^verbatim>\<open>find\<close> is \<open>map_of\<close>, \<^verbatim>\<open>emplace\<close> inserts unless the key is present, an assignment
  through an iterator is \<open>omap_set\<close>, \<^verbatim>\<open>erase\<close> is \<open>omap_erase\<close>.
\<close>

type_synonym ('k, 'v) omap = "('k \<times> 'v) list"

fun omap_emplace :: "'k::linorder \<Rightarrow> 'v \<Rightarrow> ('k, 'v) omap \<Rightarrow> ('k, 'v) omap" where
  "omap_emplace k v [] = [(k, v)]"
| "omap_emplace k v ((k', v') # r) =
     (if k < k' then (k, v) # (k', v') # r
      else if k = k' then (k', v') # r
      else (k', v') # omap_emplace k v r)"

fun omap_set :: "'k \<Rightarrow> 'v \<Rightarrow> ('k, 'v) omap \<Rightarrow> ('k, 'v) omap" where
  "omap_set k v [] = []"
| "omap_set k v ((k', v') # r) = (if k = k' then (k', v) # r else (k', v') # omap_set k v r)"

fun omap_erase :: "'k \<Rightarrow> ('k, 'v) omap \<Rightarrow> ('k, 'v) omap" where
  "omap_erase k [] = []"
| "omap_erase k ((k', v') # r) = (if k = k' then r else (k', v') # omap_erase k r)"

definition omap_ok :: "('k::linorder, 'v) omap \<Rightarrow> bool" where
  "omap_ok m \<longleftrightarrow> sorted_wrt (<) (map fst m)"

lemma omap_ok_Nil [simp]: "omap_ok []"
  by (simp add: omap_ok_def)

lemma omap_ok_Cons [simp]:
  "omap_ok ((k, v) # r) \<longleftrightarrow> (\<forall>x \<in> fst ` set r. k < x) \<and> omap_ok r"
  by (auto simp: omap_ok_def)

lemma map_of_Some_key: "map_of m k = Some v \<Longrightarrow> k \<in> fst ` set m"
  by (force dest: map_of_SomeD)

lemma omap_ok_tail_gt: "omap_ok ((k, v) # r) \<Longrightarrow> map_of r p = Some w \<Longrightarrow> k < p"
  by (auto dest!: map_of_SomeD)

lemma keys_omap_set [simp]: "map fst (omap_set k v m) = map fst m"
  by (induction k v m rule: omap_set.induct) auto

lemma fst_set_omap_set [simp]: "fst ` set (omap_set k v m) = fst ` set m"
  using keys_omap_set [of k v m] by (metis list.set_map)

lemma omap_ok_set [simp]: "omap_ok (omap_set k v m) \<longleftrightarrow> omap_ok m"
  by (simp add: omap_ok_def)

lemma fst_set_omap_emplace [simp]: "fst ` set (omap_emplace k v m) = insert k (fst ` set m)"
  by (induction k v m rule: omap_emplace.induct) auto

lemma omap_ok_emplace [simp]: "omap_ok m \<Longrightarrow> omap_ok (omap_emplace k v m)"
  by (induction k v m rule: omap_emplace.induct) force+

lemma set_omap_erase_subset: "set (omap_erase k m) \<subseteq> set m"
  by (induction k m rule: omap_erase.induct) auto

lemma omap_ok_erase [simp]: "omap_ok m \<Longrightarrow> omap_ok (omap_erase k m)"
proof (induction k m rule: omap_erase.induct)
  case (2 k k' v' r)
  then show ?case using set_omap_erase_subset [of k r] by auto
qed simp

lemma map_of_omap_set:
  "map_of (omap_set k v m) x = (if x = k \<and> k \<in> fst ` set m then Some v else map_of m x)"
proof (induction k v m rule: omap_set.induct)
  case (2 k v k' v' r)
  then show ?case by (cases "k = k'"; cases "x = k") simp_all
qed simp

lemma map_of_omap_emplace:
  "omap_ok m \<Longrightarrow> map_of (omap_emplace k v m) x
     = (if x = k \<and> k \<notin> fst ` set m then Some v else map_of m x)"
proof (induction k v m rule: omap_emplace.induct)
  case (2 k v k' v' r)
  then show ?case
    by (cases "x = k"; cases "k < k'"; cases "k = k'"; cases "x = k'")
      (auto simp: map_of_eq_None_iff)
qed simp

lemma map_of_omap_ok_in_set: "omap_ok m \<Longrightarrow> (k, v) \<in> set m \<Longrightarrow> map_of m k = Some v"
  by (induction m) (auto simp: image_iff split: if_splits, fastforce+)

lemma omap_emplace_set_commute:
  "k \<noteq> p \<Longrightarrow> omap_emplace k v (omap_set p w m) = omap_set p w (omap_emplace k v m)"
  by (induction k v m rule: omap_emplace.induct) auto

lemma omap_emplace_erase_commute:
  "k \<noteq> p \<Longrightarrow> omap_ok m \<Longrightarrow>
   omap_emplace k v (omap_erase p m) = omap_erase p (omap_emplace k v m)"
proof (induction k v m rule: omap_emplace.induct)
  case (2 k v k' v' r)
  then show ?case
    by (cases r) auto
qed simp

lemma omap_emplace_commute:
  "k \<noteq> p \<Longrightarrow> k \<notin> fst ` set m \<Longrightarrow> p \<notin> fst ` set m \<Longrightarrow>
   omap_emplace k v (omap_emplace p w m) = omap_emplace p w (omap_emplace k v m)"
  by (induction k v m rule: omap_emplace.induct) auto

section \<open>Totals over a finite index type\<close>

definition total :: "('b \<Rightarrow> int) \<Rightarrow> ('a::finite \<Rightarrow> 'b) \<Rightarrow> int" where
  "total f g = (\<Sum>x\<in>UNIV. f (g x))"

lemma total_upd [simp]: "total f (g(a := v)) = total f g - f (g a) + f v"
  unfolding total_def by (subst (1 2) sum.remove [of UNIV a]) (auto intro!: sum.cong)

lemma total_nonneg: "(\<And>b. 0 \<le> f b) \<Longrightarrow> 0 \<le> total f g"
  by (simp add: total_def sum_nonneg)

lemma total_zero_iff: "(\<And>b. 0 \<le> f b) \<Longrightarrow> total f g = 0 \<longleftrightarrow> (\<forall>x. f (g x) = 0)"
  unfolding total_def by (subst sum_nonneg_eq_0_iff) auto

section \<open>Lists\<close>

lemma filter_all_id: "(\<And>x. x \<in> set xs \<Longrightarrow> P x) \<Longrightarrow> filter P xs = xs"
  by (induction xs) auto

lemma filter_none_Nil: "(\<And>x. x \<in> set xs \<Longrightarrow> \<not> P x) \<Longrightarrow> filter P xs = []"
  by (induction xs) auto

section \<open>Results that may be errors\<close>

definition bindE :: "'e + 'a \<Rightarrow> ('a \<Rightarrow> 'e + 'b) \<Rightarrow> 'e + 'b" where
  "bindE r f = (case r of Inl e \<Rightarrow> Inl e | Inr x \<Rightarrow> f x)"

lemma bindE_simps [simp]: "bindE (Inl e) f = Inl e" "bindE (Inr x) f = f x"
  by (simp_all add: bindE_def)

lemma bindE_Inr: "bindE r f = Inr y \<longleftrightarrow> (\<exists>x. r = Inr x \<and> f x = Inr y)"
  by (cases r) simp_all

lemma bindE_pairE:
  assumes "bindE r (\<lambda>(x, y). f x y) = Inr z"
  obtains x y where "r = Inr (x, y)" "f x y = Inr z"
  using assms by (cases r) auto

end
