(* ===== verification/Prio_Queue.thy ===== *)
theory Prio_Queue
  imports Prelude
begin

text \<open>
  The scheduler queue of \<^verbatim>\<open>src/src/queueing.cpp\<close>: one double-ended queue per live priority
  level, the levels of nonzero priority in a \<^verbatim>\<open>std::map\<close>, priority zero in a deque of its
  own, drained levels kept for reuse up to \<open>kKeptEmptyLevels\<close>; and the strategy switch
  \<open>CqsEnqueueGeneral\<close> of \<^verbatim>\<open>src/src/scheduler.cpp\<close>.

  The operations on the structure are the lower-case definitions; the definitions with the
  names of the C functions add the null test on the handle. \<open>entries\<close> abstracts a queue to the
  list of its (priority, message) pairs in the order they come out; every operation is shown to
  implement a list operation on it, and the interface locale \<open>prio_queue\<close> states the contract
  the scheduler relies on. \<^verbatim>\<open>int\<close> fields are integers: they stay below \<open>2 ^ 31\<close> as long as the
  number of queued messages does.
\<close>

section \<open>State and operations\<close>

record 'm pqueue =
  levels :: "(int, 'm list) omap"
  zero :: "'m list"
  emptyLevels :: int
  qsize :: int

definition kKeptEmptyLevels :: int where
  "kKeptEmptyLevels = 4"

text \<open>A \<^verbatim>\<open>Level *\<close>: the zero deque, or the deque stored in the map under a key.\<close>

datatype level_ref = Zero_level | Map_level int

definition get_level :: "'m pqueue \<Rightarrow> level_ref \<Rightarrow> 'm list" where
  "get_level q r = (case r of Zero_level \<Rightarrow> zero q
                    | Map_level k \<Rightarrow> (case map_of (levels q) k of Some l \<Rightarrow> l | None \<Rightarrow> []))"

definition set_level :: "'m pqueue \<Rightarrow> level_ref \<Rightarrow> 'm list \<Rightarrow> 'm pqueue" where
  "set_level q r l = (case r of Zero_level \<Rightarrow> q\<lparr>zero := l\<rparr>
                      | Map_level k \<Rightarrow> q\<lparr>levels := omap_set k l (levels q)\<rparr>)"

text \<open>
  The first loop of \<open>front_level\<close>: the key of the first nonempty level of negative priority
  together with the position of the iterator when the loop ends.
\<close>

fun scan_neg :: "(int, 'm list) omap \<Rightarrow> int option \<times> (int, 'm list) omap" where
  "scan_neg [] = (None, [])"
| "scan_neg ((k, l) # it) =
     (if k < 0 then (if l \<noteq> [] then (Some k, (k, l) # it) else scan_neg it)
      else (None, (k, l) # it))"

text \<open>The second loop: the key of the first nonempty level from the iterator on.\<close>

fun scan_rest :: "(int, 'm list) omap \<Rightarrow> int option" where
  "scan_rest [] = None"
| "scan_rest ((k, l) # it) = (if l \<noteq> [] then Some k else scan_rest it)"

definition front_level :: "'m pqueue \<Rightarrow> level_ref option" where
  "front_level q =
     (case scan_neg (levels q) of
        (Some k, _) \<Rightarrow> Some (Map_level k)
      | (None, it) \<Rightarrow>
          if zero q \<noteq> [] then Some Zero_level
          else (case scan_rest it of Some k \<Rightarrow> Some (Map_level k) | None \<Rightarrow> None))"

definition level_for :: "'m pqueue \<Rightarrow> int \<Rightarrow> 'm pqueue \<times> level_ref" where
  "level_for q priority =
     (if priority = 0 then (q, Zero_level)
      else (case map_of (levels q) priority of
              None \<Rightarrow> (q\<lparr>levels := omap_emplace priority [] (levels q)\<rparr>, Map_level priority)
            | Some l \<Rightarrow>
                (if l = [] then q\<lparr>emptyLevels := emptyLevels q - 1\<rparr> else q, Map_level priority)))"

definition level_drained :: "'m pqueue \<Rightarrow> level_ref \<Rightarrow> 'm pqueue" where
  "level_drained q r =
     (case r of Zero_level \<Rightarrow> q
      | Map_level k \<Rightarrow>
          if emptyLevels q < kKeptEmptyLevels then q\<lparr>emptyLevels := emptyLevels q + 1\<rparr>
          else q\<lparr>levels := omap_erase k (levels q)\<rparr>)"

definition queue_init :: "'m pqueue" where
  "queue_init = \<lparr>levels = [], zero = [], emptyLevels = 0, qsize = 0\<rparr>"

definition queue_push :: "'m pqueue \<Rightarrow> 'm \<Rightarrow> int \<Rightarrow> 'm pqueue" where
  "queue_push q message priority =
     (let (q1, r) = level_for q priority;
          q2 = set_level q1 r (get_level q1 r @ [message])
      in q2\<lparr>qsize := qsize q2 + 1\<rparr>)"

definition queue_push_front :: "'m pqueue \<Rightarrow> 'm \<Rightarrow> int \<Rightarrow> 'm pqueue" where
  "queue_push_front q message priority =
     (let (q1, r) = level_for q priority;
          q2 = set_level q1 r (message # get_level q1 r)
      in q2\<lparr>qsize := qsize q2 + 1\<rparr>)"

definition queue_top :: "'m pqueue \<Rightarrow> 'm option" where
  "queue_top q =
     (if qsize q = 0 then None
      else (case front_level q of
              None \<Rightarrow> None
            | Some r \<Rightarrow> (case get_level q r of [] \<Rightarrow> None | m # _ \<Rightarrow> Some m)))"

definition queue_top_priority :: "'m pqueue \<Rightarrow> int" where
  "queue_top_priority q =
     (if qsize q = 0 then LLONG_MAX
      else (case scan_neg (levels q) of
              (Some k, _) \<Rightarrow> k
            | (None, it) \<Rightarrow>
                if zero q \<noteq> [] then 0
                else (case scan_rest it of Some k \<Rightarrow> k | None \<Rightarrow> LLONG_MAX)))"

definition queue_pop :: "'m pqueue \<Rightarrow> 'm pqueue" where
  "queue_pop q =
     (if qsize q = 0 then q
      else (case front_level q of
              None \<Rightarrow> q
            | Some r \<Rightarrow>
                (let q1 = set_level q r (tl (get_level q r));
                     q2 = q1\<lparr>qsize := qsize q1 - 1\<rparr>
                 in if get_level q2 r = [] then level_drained q2 r else q2)))"

text \<open>The C entry points: \<open>None\<close> is the null handle.\<close>

type_synonym 'm queue_handle = "'m pqueue option"

definition QueueInit :: "'m queue_handle \<Rightarrow> 'm queue_handle" where
  "QueueInit q = (case q of None \<Rightarrow> None | Some _ \<Rightarrow> Some queue_init)"

definition QueueEmpty :: "'m queue_handle \<Rightarrow> bool" where
  "QueueEmpty q = (case q of None \<Rightarrow> True | Some qi \<Rightarrow> qsize qi = 0)"

definition QueueSize :: "'m queue_handle \<Rightarrow> int" where
  "QueueSize q = (case q of None \<Rightarrow> 0 | Some qi \<Rightarrow> qsize qi)"

definition QueuePush :: "'m queue_handle \<Rightarrow> 'm \<Rightarrow> int \<Rightarrow> 'm queue_handle" where
  "QueuePush q message priority =
     (case q of None \<Rightarrow> None | Some qi \<Rightarrow> Some (queue_push qi message priority))"

definition QueuePushFront :: "'m queue_handle \<Rightarrow> 'm \<Rightarrow> int \<Rightarrow> 'm queue_handle" where
  "QueuePushFront q message priority =
     (case q of None \<Rightarrow> None | Some qi \<Rightarrow> Some (queue_push_front qi message priority))"

definition QueueTop :: "'m queue_handle \<Rightarrow> 'm option" where
  "QueueTop q = (case q of None \<Rightarrow> None | Some qi \<Rightarrow> queue_top qi)"

definition QueueTopPriority :: "'m queue_handle \<Rightarrow> int" where
  "QueueTopPriority q = (case q of None \<Rightarrow> LLONG_MAX | Some qi \<Rightarrow> queue_top_priority qi)"

definition QueuePop :: "'m queue_handle \<Rightarrow> 'm queue_handle" where
  "QueuePop q = (case q of None \<Rightarrow> None | Some qi \<Rightarrow> Some (queue_pop qi))"

text \<open>
  Queueing strategies. \<^verbatim>\<open>prioptr\<close> points to 32-bit words; the integer strategies read the first
  word as \<^verbatim>\<open>int\<close>, the long strategies the first two as one little-endian \<^verbatim>\<open>long long\<close>.
  \<open>None\<close> is a read past the words the pointer owns.
\<close>

definition CQS_QUEUEING_FIFO :: int where "CQS_QUEUEING_FIFO = 2"
definition CQS_QUEUEING_LIFO :: int where "CQS_QUEUEING_LIFO = 3"
definition CQS_QUEUEING_IFIFO :: int where "CQS_QUEUEING_IFIFO = 4"
definition CQS_QUEUEING_ILIFO :: int where "CQS_QUEUEING_ILIFO = 5"
definition CQS_QUEUEING_BFIFO :: int where "CQS_QUEUEING_BFIFO = 6"
definition CQS_QUEUEING_BLIFO :: int where "CQS_QUEUEING_BLIFO = 7"
definition CQS_QUEUEING_LFIFO :: int where "CQS_QUEUEING_LFIFO = 8"
definition CQS_QUEUEING_LLIFO :: int where "CQS_QUEUEING_LLIFO = 9"

fun prio_int :: "u32 list \<Rightarrow> int option" where
  "prio_int (w # _) = Some (sint w)"
| "prio_int [] = None"

fun prio_long :: "u32 list \<Rightarrow> int option" where
  "prio_long (lo # hi # _) = Some (sint hi * 2 ^ 32 + uint lo)"
| "prio_long _ = None"

definition CqsEnqueueGeneral ::
  "'m queue_handle \<Rightarrow> 'm \<Rightarrow> int \<Rightarrow> int \<Rightarrow> u32 list \<Rightarrow> 'm queue_handle option" where
  "CqsEnqueueGeneral q Message strategy priobits prioptr =
     (if strategy = CQS_QUEUEING_FIFO then Some (QueuePush q Message 0)
      else if strategy = CQS_QUEUEING_LIFO then Some (QueuePushFront q Message 0)
      else if strategy = CQS_QUEUEING_IFIFO then map_option (QueuePush q Message) (prio_int prioptr)
      else if strategy = CQS_QUEUEING_ILIFO
        then map_option (QueuePushFront q Message) (prio_int prioptr)
      else if strategy = CQS_QUEUEING_LFIFO then map_option (QueuePush q Message) (prio_long prioptr)
      else if strategy = CQS_QUEUEING_LLIFO
        then map_option (QueuePushFront q Message) (prio_long prioptr)
      else Some (QueuePush q Message 0))"

section \<open>Abstraction and invariant\<close>

definition flat :: "('k, 'm list) omap \<Rightarrow> ('k \<times> 'm) list" where
  "flat m = concat (map (\<lambda>(k, l). map (Pair k) l) m)"

definition empties :: "('k, 'm list) omap \<Rightarrow> nat" where
  "empties m = length (filter (\<lambda>(k, l). l = []) m)"

definition all_levels :: "'m pqueue \<Rightarrow> (int, 'm list) omap" where
  "all_levels q = omap_emplace 0 (zero q) (levels q)"

definition entries :: "'m pqueue \<Rightarrow> (int \<times> 'm) list" where
  "entries q = flat (all_levels q)"

definition pq_inv :: "'m pqueue \<Rightarrow> bool" where
  "pq_inv q \<longleftrightarrow> omap_ok (levels q) \<and> 0 \<notin> fst ` set (levels q)
     \<and> emptyLevels q = int (empties (levels q)) \<and> emptyLevels q \<le> kKeptEmptyLevels
     \<and> qsize q = int (length (entries q))"

text \<open>The specification: a list of (priority, message) pairs.\<close>

definition spec_push :: "(int \<times> 'm) list \<Rightarrow> 'm \<Rightarrow> int \<Rightarrow> (int \<times> 'm) list" where
  "spec_push es m p = filter (\<lambda>e. fst e \<le> p) es @ (p, m) # filter (\<lambda>e. p < fst e) es"

definition spec_push_front :: "(int \<times> 'm) list \<Rightarrow> 'm \<Rightarrow> int \<Rightarrow> (int \<times> 'm) list" where
  "spec_push_front es m p = filter (\<lambda>e. fst e < p) es @ (p, m) # filter (\<lambda>e. p \<le> fst e) es"

section \<open>Level lists\<close>

lemma flat_simps [simp]: "flat [] = []" "flat ((k, l) # m) = map (Pair k) l @ flat m"
  by (simp_all add: flat_def)

lemma empties_simps [simp]:
  "empties [] = 0" "empties ((k, l) # m) = (if l = [] then 1 else 0) + empties m"
  by (simp_all add: empties_def)

lemma fst_flatD: "e \<in> set (flat m) \<Longrightarrow> fst e \<in> fst ` set m"
  by (induction m) (auto simp: image_iff)

lemma flat_above: "\<forall>x \<in> fst ` set m. (p :: 'k::linorder) < x \<Longrightarrow> e \<in> set (flat m) \<Longrightarrow> p < fst e"
  by (drule fst_flatD) auto

lemma flat_sorted: "omap_ok m \<Longrightarrow> sorted (map fst (flat m))"
proof (induction m)
  case (Cons a m)
  obtain k l where a: "a = (k, l)" by force
  have "sorted (map (fst \<circ> Pair k) l)" by (simp add: o_def sorted_map)
  moreover have "\<forall>e \<in> set (flat m). k \<le> fst e"
    using Cons.prems flat_above [of m k] a by (simp add: less_imp_le)
  ultimately show ?case using Cons a by (simp add: sorted_append)
qed simp

lemma flat_emplace_Nil [simp]: "flat (omap_emplace p [] m) = flat m"
  by (induction p "[] :: 'b list" m rule: omap_emplace.induct) auto

lemma flat_erase_Nil: "map_of m p = Some [] \<Longrightarrow> flat (omap_erase p m) = flat m"
  by (induction p m rule: omap_erase.induct) (auto split: if_splits)

lemma empties_emplace_Nil:
  "p \<notin> fst ` set m \<Longrightarrow> empties (omap_emplace p [] m) = Suc (empties m)"
  by (induction p "[] :: 'b list" m rule: omap_emplace.induct) auto

lemma empties_erase_Nil: "map_of m p = Some [] \<Longrightarrow> Suc (empties (omap_erase p m)) = empties m"
  by (induction p m rule: omap_erase.induct) (auto split: if_splits)

lemma empties_set:
  "map_of m p = Some l \<Longrightarrow>
   empties (omap_set p l' m) + (if l = [] then 1 else 0) = empties m + (if l' = [] then 1 else 0)"
  by (induction p l' m rule: omap_set.induct) (auto split: if_splits)

lemma flat_above_filters:
  assumes "\<forall>x \<in> fst ` set m. (p :: 'k::linorder) < x"
  shows "filter (\<lambda>e. fst e \<le> p) (flat m) = []" "filter (\<lambda>e. p < fst e) (flat m) = flat m"
    "filter (\<lambda>e. fst e < p) (flat m) = []" "filter (\<lambda>e. p \<le> fst e) (flat m) = flat m"
  using flat_above [OF assms]
  by (auto intro!: filter_all_id filter_none_Nil simp: not_le intro: less_imp_le dest: less_asym)

lemma flat_set_back:
  "omap_ok m \<Longrightarrow> map_of m p = Some l \<Longrightarrow> flat (omap_set p (l @ [x]) m) = spec_push (flat m) x p"
proof (induction m)
  case (Cons a m)
  obtain k l' where a: "a = (k, l')" by force
  show ?case
  proof (cases "k = p")
    case True
    then show ?thesis using a Cons.prems
      by (simp add: flat_above_filters spec_push_def filter_map o_def)
  next
    case False
    then have "k < p" using Cons.prems a omap_ok_tail_gt [of k l' m p l] by simp
    then show ?thesis using False a Cons by (simp add: spec_push_def filter_map o_def)
  qed
qed simp

lemma flat_set_front:
  "omap_ok m \<Longrightarrow> map_of m p = Some l \<Longrightarrow>
   flat (omap_set p (x # l) m) = spec_push_front (flat m) x p"
proof (induction m)
  case (Cons a m)
  obtain k l' where a: "a = (k, l')" by force
  show ?case
  proof (cases "k = p")
    case True
    then show ?thesis using a Cons.prems
      by (simp add: flat_above_filters spec_push_front_def filter_map o_def)
  next
    case False
    then have "k < p" using Cons.prems a omap_ok_tail_gt [of k l' m p l] by simp
    then show ?thesis using False a Cons by (simp add: spec_push_front_def filter_map o_def)
  qed
qed simp

lemma scan_rest_None: "scan_rest m = None \<longleftrightarrow> flat m = []"
  by (induction m rule: scan_rest.induct) auto

lemma scan_rest_Some:
  "omap_ok m \<Longrightarrow> scan_rest m = Some k \<Longrightarrow>
   \<exists>x xs. map_of m k = Some (x # xs) \<and> flat m = (k, x) # flat (omap_set k xs m)"
proof (induction m rule: scan_rest.induct)
  case (2 k' l it)
  show ?case
  proof (cases l)
    case Nil
    then obtain x xs where x: "map_of it k = Some (x # xs)" "flat it = (k, x) # flat (omap_set k xs it)"
      using 2 by auto
    then have "k' < k" using "2.prems"(1) by (auto intro: omap_ok_tail_gt)
    with x Nil show ?thesis by simp
  qed (use 2 in auto)
qed simp

section \<open>The operations implement the list operations\<close>

lemmas pq_op_defs = queue_push_def queue_push_front_def queue_pop_def level_for_def
  level_drained_def get_level_def set_level_def Let_def

definition level_key :: "level_ref \<Rightarrow> int" where
  "level_key r = (case r of Zero_level \<Rightarrow> 0 | Map_level k \<Rightarrow> k)"

definition level_live :: "'m pqueue \<Rightarrow> level_ref \<Rightarrow> bool" where
  "level_live q r \<longleftrightarrow> (case r of Zero_level \<Rightarrow> True | Map_level k \<Rightarrow> k \<noteq> 0 \<and> k \<in> fst ` set (levels q))"

lemma all_levels_ok [simp]: "omap_ok (levels q) \<Longrightarrow> omap_ok (all_levels q)"
  by (simp add: all_levels_def)

lemma map_of_all_levels:
  "omap_ok (levels q) \<Longrightarrow> 0 \<notin> fst ` set (levels q) \<Longrightarrow>
   map_of (all_levels q) k = (if k = 0 then Some (zero q) else map_of (levels q) k)"
  by (simp add: all_levels_def map_of_omap_emplace map_of_eq_None_iff)

lemma get_level_all:
  "omap_ok (levels q) \<Longrightarrow> 0 \<notin> fst ` set (levels q) \<Longrightarrow> level_live q r \<Longrightarrow>
   map_of (all_levels q) (level_key r) = Some (get_level q r)"
  by (cases r)
    (auto simp: map_of_all_levels level_live_def level_key_def get_level_def map_of_omap_ok_in_set)

lemma omap_emplace_zero_set:
  "k \<notin> fst ` set m \<Longrightarrow> omap_emplace k l m = omap_set k l (omap_emplace k l' m)"
  by (induction k l m rule: omap_emplace.induct) auto

lemma all_levels_set_level:
  "0 \<notin> fst ` set (levels q) \<Longrightarrow> level_live q r \<Longrightarrow>
   all_levels (set_level q r l) = omap_set (level_key r) l (all_levels q)"
  by (cases r) (auto simp: all_levels_def set_level_def level_key_def level_live_def
      omap_emplace_set_commute omap_emplace_zero_set [of 0 "levels q" l "zero q"])

lemma qsize_update_all [simp]:
  "all_levels (q\<lparr>qsize := n\<rparr>) = all_levels q" "all_levels (q\<lparr>emptyLevels := n\<rparr>) = all_levels q"
  by (simp_all add: all_levels_def)

text \<open>What \<open>level_for\<close> returns: a live level; the entries unchanged.\<close>

lemma level_for_spec:
  assumes "pq_inv q" "level_for q p = (q1, r)"
  shows "level_key r = p" "level_live q1 r" "omap_ok (levels q1)" "0 \<notin> fst ` set (levels q1)"
    "entries q1 = entries q" "qsize q1 = qsize q"
proof -
  have i: "omap_ok (levels q)" "0 \<notin> fst ` set (levels q)"
    using assms(1) by (simp_all add: pq_inv_def)
  have "level_key r = p \<and> level_live q1 r \<and> omap_ok (levels q1) \<and> 0 \<notin> fst ` set (levels q1)
    \<and> entries q1 = entries q \<and> qsize q1 = qsize q"
  proof (cases "p = 0 \<or> map_of (levels q) p \<noteq> None")
    case True
    then show ?thesis using assms(2) i
      by (auto simp: level_for_def level_key_def level_live_def entries_def map_of_Some_key
          split: if_splits del: imageE)
  next
    case False
    then have "p \<notin> fst ` set (levels q)" by (simp add: map_of_eq_None_iff)
    then show ?thesis using False assms(2) i
      by (auto simp: level_for_def level_key_def level_live_def entries_def all_levels_def
          omap_emplace_commute [of 0 p] del: imageE)
  qed
  then show "level_key r = p" "level_live q1 r" "omap_ok (levels q1)"
    "0 \<notin> fst ` set (levels q1)" "entries q1 = entries q" "qsize q1 = qsize q" by simp_all
qed

lemma level_for_empties:
  assumes "pq_inv q" "level_for q p = (q1, r)" "l \<noteq> []"
  shows "emptyLevels (set_level q1 r l) = int (empties (levels (set_level q1 r l)))"
    "emptyLevels (set_level q1 r l) \<le> kKeptEmptyLevels"
proof -
  have e: "emptyLevels q = int (empties (levels q))" "emptyLevels q \<le> kKeptEmptyLevels"
    "omap_ok (levels q)"
    using assms(1) by (simp_all add: pq_inv_def)
  have new: "empties (omap_set p l (omap_emplace p [] (levels q))) = empties (levels q)"
    if "map_of (levels q) p = None"
    using empties_set [of "omap_emplace p [] (levels q)" p "[]" l] empties_emplace_Nil [of p "levels q"]
      map_of_omap_emplace [OF e(3), of p "[]" p] that assms(3) by (simp add: map_of_eq_None_iff)
  have old: "empties (omap_set p l (levels q)) + (if l0 = [] then 1 else 0) = empties (levels q)"
    if "map_of (levels q) p = Some l0" for l0
    using empties_set [OF that, of l] assms(3) by simp
  have "emptyLevels (set_level q1 r l) = int (empties (levels (set_level q1 r l)))
    \<and> emptyLevels (set_level q1 r l) \<le> kKeptEmptyLevels"
  proof (cases "p = 0")
    case True
    then show ?thesis using assms(2) e by (auto simp: level_for_def set_level_def)
  next
    case False
    show ?thesis
    proof (cases "map_of (levels q) p")
      case None
      then show ?thesis using False assms(2) e new by (auto simp: level_for_def set_level_def)
    next
      case (Some l0)
      then show ?thesis using False assms(2) e old [OF Some]
        by (auto simp: level_for_def set_level_def split: if_splits)
    qed
  qed
  then show "emptyLevels (set_level q1 r l) = int (empties (levels (set_level q1 r l)))"
    "emptyLevels (set_level q1 r l) \<le> kKeptEmptyLevels" by simp_all
qed

lemma pq_invI:
  assumes "omap_ok (levels q)" "0 \<notin> fst ` set (levels q)"
    "emptyLevels q = int (empties (levels q))" "emptyLevels q \<le> kKeptEmptyLevels"
    "qsize q = int (length (entries q))"
  shows "pq_inv q"
  using assms by (simp add: pq_inv_def)

lemma set_level_simps [simp]:
  "qsize (set_level q r l) = qsize q"
  "fst ` set (levels (set_level q r l)) = fst ` set (levels q)"
  "omap_ok (levels (set_level q r l)) = omap_ok (levels q)"
  by (simp_all add: set_level_def split: level_ref.split)

lemma entries_qsize [simp]: "entries (q\<lparr>qsize := n\<rparr>) = entries q"
  by (simp add: entries_def)

text \<open>Both pushes store a nonempty list at the level \<open>level_for\<close> returns.\<close>

lemma push_via_level:
  assumes inv: "pq_inv q" and lf: "level_for q p = (q1, r)" and "l \<noteq> []"
    and flat: "flat (omap_set p l (all_levels q1)) = es"
    and len: "length es = Suc (length (entries q))"
  defines "q2 \<equiv> set_level q1 r l"
  shows "pq_inv (q2\<lparr>qsize := qsize q2 + 1\<rparr>) \<and> entries (q2\<lparr>qsize := qsize q2 + 1\<rparr>) = es"
proof -
  note s = level_for_spec [OF inv lf]
  have e: "entries q2 = es"
    unfolding entries_def q2_def all_levels_set_level [OF s(4) s(2)] s(1) by (rule flat)
  have "qsize q = int (length (entries q))" using inv by (simp add: pq_inv_def)
  then have "pq_inv (q2\<lparr>qsize := qsize q2 + 1\<rparr>)"
    using level_for_empties [OF inv lf \<open>l \<noteq> []\<close>] s e len
    by (intro pq_invI) (simp_all add: q2_def)
  with e show ?thesis by simp
qed

lemma length_spec_push [simp]:
  "length (spec_push es m p) = Suc (length es)" "length (spec_push_front es m p) = Suc (length es)"
  using sum_length_filter_compl [of "\<lambda>e. fst e \<le> p" es] sum_length_filter_compl [of "\<lambda>e. fst e < p" es]
  by (simp_all add: spec_push_def spec_push_front_def not_le not_less)

lemma queue_push_impl:
  assumes "pq_inv q"
  shows "pq_inv (queue_push q m p) \<and> entries (queue_push q m p) = spec_push (entries q) m p"
proof -
  obtain q1 r where lf: "level_for q p = (q1, r)" by force
  note s = level_for_spec [OF assms lf]
  have "flat (omap_set p (get_level q1 r @ [m]) (all_levels q1)) = spec_push (entries q) m p"
    using flat_set_back [OF all_levels_ok [OF s(3)] get_level_all [OF s(3,4,2)]] s(1,5)
    by (simp add: entries_def)
  from push_via_level [OF assms lf _ this] show ?thesis
    by (simp add: queue_push_def lf)
qed

lemma queue_push_front_impl:
  assumes "pq_inv q"
  shows "pq_inv (queue_push_front q m p)
    \<and> entries (queue_push_front q m p) = spec_push_front (entries q) m p"
proof -
  obtain q1 r where lf: "level_for q p = (q1, r)" by force
  note s = level_for_spec [OF assms lf]
  have "flat (omap_set p (m # get_level q1 r) (all_levels q1)) = spec_push_front (entries q) m p"
    using flat_set_front [OF all_levels_ok [OF s(3)] get_level_all [OF s(3,4,2)]] s(1,5)
    by (simp add: entries_def)
  from push_via_level [OF assms lf _ this] show ?thesis
    by (simp add: queue_push_front_def lf)
qed

text \<open>The two-loop walk finds the first nonempty level of the merged level list.\<close>

lemma front_walk:
  "omap_ok m \<Longrightarrow> 0 \<notin> fst ` set m \<Longrightarrow>
   scan_rest (omap_emplace 0 z m) =
     (case scan_neg m of (Some k, _) \<Rightarrow> Some k
      | (None, it) \<Rightarrow> if z \<noteq> [] then Some 0 else scan_rest it)"
  by (induction m rule: scan_neg.induct) auto

lemma scan_neg_key: "scan_neg m = (Some k, it) \<Longrightarrow> k < 0"
  by (induction m rule: scan_neg.induct) (auto split: if_splits)

lemma scan_rest_key: "scan_rest m = Some k \<Longrightarrow> k \<in> fst ` set m"
  by (induction m rule: scan_rest.induct) (auto split: if_splits)

lemma scan_neg_it: "scan_neg m = (None, it) \<Longrightarrow> set it \<subseteq> set m"
  by (induction m rule: scan_neg.induct) (auto split: if_splits)

definition ref_of :: "int \<Rightarrow> level_ref" where
  "ref_of k = (if k = 0 then Zero_level else Map_level k)"

lemma front_level_eq:
  assumes "omap_ok (levels q)" "0 \<notin> fst ` set (levels q)"
  shows "front_level q = map_option ref_of (scan_rest (all_levels q))"
proof -
  obtain ko it where sn: "scan_neg (levels q) = (ko, it)" by force
  have "k \<noteq> 0" if "ko = None" "scan_rest it = Some k" for k
    using scan_rest_key [OF that(2)] scan_neg_it [of "levels q" it] sn that(1) assms(2) by blast
  moreover have "k \<noteq> 0" if "ko = Some k" for k using scan_neg_key sn that by fastforce
  ultimately show ?thesis using sn
    by (auto simp: all_levels_def front_walk [OF assms] front_level_def ref_of_def
        split: option.splits)
qed

lemma front_level_None: "pq_inv q \<Longrightarrow> front_level q = None \<longleftrightarrow> entries q = []"
  by (simp add: pq_inv_def front_level_eq scan_rest_None entries_def)

lemma level_key_ref_of [simp]: "level_key (ref_of k) = k"
  by (simp add: level_key_def ref_of_def)

lemma front_level_Some:
  assumes "pq_inv q" "front_level q = Some r"
  obtains x xs where "level_live q r" "get_level q r = x # xs"
    "entries q = (level_key r, x) # flat (omap_set (level_key r) xs (all_levels q))"
proof -
  have i: "omap_ok (levels q)" "0 \<notin> fst ` set (levels q)" using assms(1) by (simp_all add: pq_inv_def)
  obtain k where k: "scan_rest (all_levels q) = Some k" "r = ref_of k"
    using assms(2) by (auto simp: front_level_eq [OF i])
  have "k \<in> fst ` set (all_levels q)" using scan_rest_key [OF k(1)] .
  then have live: "level_live q r"
    by (auto simp: k(2) ref_of_def level_live_def all_levels_def del: imageE)
  obtain x xs where "map_of (all_levels q) k = Some (x # xs)"
    and f: "flat (all_levels q) = (k, x) # flat (omap_set k xs (all_levels q))"
    using scan_rest_Some [OF all_levels_ok [OF i(1)] k(1)] by blast
  then have "get_level q r = x # xs" using get_level_all [OF i live] by (simp add: k(2))
  with live f show thesis using that [of x xs] by (simp add: k(2) entries_def)
qed

lemma get_set_level [simp]: "level_live q r \<Longrightarrow> get_level (set_level q r l) r = l"
  by (cases r) (auto simp: get_level_def set_level_def level_live_def map_of_omap_set)

lemma get_level_qsize [simp]: "get_level (q\<lparr>qsize := n\<rparr>) r = get_level q r"
  by (simp add: get_level_def split: level_ref.split)

lemma level_drained_impl:
  assumes "omap_ok (levels q)" "0 \<notin> fst ` set (levels q)" "level_live q r" "get_level q r = []"
    and "emptyLevels q \<le> kKeptEmptyLevels" "qsize q = int (length (entries q))"
    and "emptyLevels q + (if r = Zero_level then 0 else 1) = int (empties (levels q))"
  shows "pq_inv (level_drained q r) \<and> entries (level_drained q r) = entries q"
proof (cases r)
  case (Map_level k)
  have k: "map_of (levels q) k = Some []" "k \<noteq> 0"
    using assms(3,4) Map_level map_of_eq_None_iff [of "levels q" k]
    by (simp_all add: get_level_def level_live_def split: option.splits)
  have e: "entries (q\<lparr>levels := omap_erase k (levels q)\<rparr>) = entries q"
    using k assms(1) flat_erase_Nil [of "all_levels q" k]
      omap_emplace_erase_commute [of 0 k "levels q" "zero q"] map_of_all_levels [OF assms(1,2), of k]
    by (simp add: entries_def all_levels_def)
  have z: "0 \<notin> fst ` set (omap_erase k (levels q))"
    using assms(2) image_mono [OF set_omap_erase_subset, of fst k "levels q"] by blast
  show ?thesis
  proof (cases "emptyLevels q < kKeptEmptyLevels")
    case True
    then show ?thesis using Map_level assms(1,2,6,7)
      by (simp add: level_drained_def pq_inv_def entries_def)
  next
    case False
    then show ?thesis using Map_level assms(1,5,6,7) e z empties_erase_Nil [OF k(1)]
      by (simp add: level_drained_def pq_inv_def)
  qed
qed (use assms in \<open>simp add: level_drained_def pq_inv_def\<close>)

lemma queue_pop_impl:
  assumes inv: "pq_inv q"
  shows "pq_inv (queue_pop q) \<and> entries (queue_pop q) = tl (entries q)"
proof (cases "front_level q")
  case None
  then show ?thesis using inv front_level_None [OF inv] by (simp add: queue_pop_def)
next
  case (Some r)
  obtain x xs where r: "level_live q r" "get_level q r = x # xs"
    "entries q = (level_key r, x) # flat (omap_set (level_key r) xs (all_levels q))"
    using front_level_Some [OF inv Some] .
  have i: "omap_ok (levels q)" "0 \<notin> fst ` set (levels q)" "qsize q = int (length (entries q))"
    "emptyLevels q = int (empties (levels q))" "emptyLevels q \<le> kKeptEmptyLevels"
    using inv by (simp_all add: pq_inv_def)
  define q1 where "q1 = set_level q r xs"
  have e1: "entries q1 = tl (entries q)"
    by (simp add: q1_def entries_def all_levels_set_level [OF i(2) r(1)] r(3) [unfolded entries_def])
  have em: "emptyLevels q1 + (if r = Zero_level \<or> xs \<noteq> [] then 0 else 1) = int (empties (levels q1))
      \<and> emptyLevels q1 = emptyLevels q"
    using r(1,2) i(4) empties_set [of "levels q" _ "x # xs" xs]
    by (cases r) (auto simp: q1_def set_level_def get_level_def level_live_def split: option.splits)
  have q1: "omap_ok (levels q1)" "0 \<notin> fst ` set (levels q1)" "level_live q1 r" "get_level q1 r = xs"
    "qsize q1 = int (length (entries q1)) + 1"
    using i(1,2,3) r e1 by (simp_all add: q1_def level_live_def split: level_ref.splits)
  define q2 where "q2 = q1\<lparr>qsize := qsize q1 - 1\<rparr>"
  have pop: "queue_pop q = (if xs = [] then level_drained q2 r else q2)"
    using Some i(3) r(2,3) q1(4) by (simp add: queue_pop_def q1_def q2_def Let_def)
  have "pq_inv (level_drained q2 r) \<and> entries (level_drained q2 r) = entries q2" if "xs = []"
    using that q1 em i(5) by (intro level_drained_impl) (auto simp: q2_def level_live_def split: level_ref.splits del: imageE)
  moreover have "pq_inv q2" if "xs \<noteq> []"
    using that q1 em i(5) by (intro pq_invI) (auto simp: q2_def del: imageE)
  ultimately show ?thesis using e1 by (auto simp: pop q2_def)
qed

lemma queue_top_impl:
  "pq_inv q \<Longrightarrow> queue_top q = (case entries q of [] \<Rightarrow> None | e # _ \<Rightarrow> Some (snd e))"
proof (cases "front_level q")
  case None
  assume "pq_inv q"
  then show ?thesis using None front_level_None [of q] by (simp add: queue_top_def)
next
  case (Some r)
  assume inv: "pq_inv q"
  obtain x xs where "get_level q r = x # xs"
    "entries q = (level_key r, x) # flat (omap_set (level_key r) xs (all_levels q))"
    using front_level_Some [OF inv Some] .
  moreover have "qsize q = int (length (entries q))" using inv by (simp add: pq_inv_def)
  ultimately show ?thesis using Some by (simp add: queue_top_def)
qed

lemma queue_top_priority_impl:
  assumes "pq_inv q"
  shows "queue_top_priority q = (case entries q of [] \<Rightarrow> LLONG_MAX | e # _ \<Rightarrow> fst e)"
proof -
  have i: "omap_ok (levels q)" "0 \<notin> fst ` set (levels q)" "qsize q = int (length (entries q))"
    using assms by (simp_all add: pq_inv_def)
  obtain ko it where sn: "scan_neg (levels q) = (ko, it)" by force
  have sr: "scan_rest (all_levels q) =
      (case ko of Some k \<Rightarrow> Some k | None \<Rightarrow> if zero q \<noteq> [] then Some 0 else scan_rest it)"
    using front_walk [OF i(1,2), of "zero q"] sn by (simp add: all_levels_def)
  show ?thesis
  proof (cases "scan_rest (all_levels q)")
    case None
    then show ?thesis using i(3) scan_rest_None [of "all_levels q"]
      by (simp add: queue_top_priority_def entries_def)
  next
    case (Some k)
    obtain x es where "entries q = (k, x) # es"
      using scan_rest_Some [OF all_levels_ok [OF i(1)] Some] by (auto simp: entries_def)
    then show ?thesis using i(3) sr Some sn
      by (auto simp: queue_top_priority_def split: option.splits if_splits)
  qed
qed

lemma entries_sorted: "pq_inv q \<Longrightarrow> sorted (map fst (entries q))"
  by (simp add: pq_inv_def entries_def flat_sorted)

lemma queue_init_inv: "pq_inv queue_init \<and> entries queue_init = []"
  by (simp add: pq_inv_def queue_init_def entries_def all_levels_def kKeptEmptyLevels_def)

lemma qsize_zero_iff: "pq_inv q \<Longrightarrow> qsize q = 0 \<longleftrightarrow> entries q = []"
  by (simp add: pq_inv_def)

section \<open>The contract of a priority queue\<close>

text \<open>Remove up to \<open>n\<close> messages, each by a read of the top followed by a pop.\<close>

fun drain :: "('q \<Rightarrow> 'm option) \<Rightarrow> ('q \<Rightarrow> 'q) \<Rightarrow> nat \<Rightarrow> 'q \<Rightarrow> 'm list" where
  "drain rd rm 0 q = []"
| "drain rd rm (Suc n) q = (case rd q of None \<Rightarrow> [] | Some m \<Rightarrow> m # drain rd rm n (rm q))"

text \<open>A push: at the front of its level or at its back.\<close>

datatype 'm push = Push_back int 'm | Push_front int 'm

fun apply_push :: "('q \<Rightarrow> 'm \<Rightarrow> int \<Rightarrow> 'q) \<Rightarrow> ('q \<Rightarrow> 'm \<Rightarrow> int \<Rightarrow> 'q) \<Rightarrow> 'm push \<Rightarrow> 'q \<Rightarrow> 'q" where
  "apply_push back front (Push_back p m) q = back q m p"
| "apply_push back front (Push_front p m) q = front q m p"

text \<open>
  The pushes in the order of the deques: the front pushes, last one first, then the back pushes.
\<close>

fun deque_order :: "'m push list \<Rightarrow> (int \<times> 'm) list \<Rightarrow> (int \<times> 'm) list" where
  "deque_order [] acc = acc"
| "deque_order (Push_back p m # ops) acc = deque_order ops (acc @ [(p, m)])"
| "deque_order (Push_front p m # ops) acc = deque_order ops ((p, m) # acc)"

lemma filter_level:
  "filter (\<lambda>e. k = fst e) (filter (\<lambda>e. P (fst e)) es) = (if P k then filter (\<lambda>e. k = fst e) es else [])"
  by (auto simp: filter_empty_conv intro!: filter_cong)

lemma filter_spec_push:
  "filter (\<lambda>e. k = fst e) (spec_push es m p)
     = filter (\<lambda>e. k = fst e) es @ (if k = p then [(p, m)] else [])"
  "filter (\<lambda>e. k = fst e) (spec_push_front es m p)
     = (if k = p then [(p, m)] else []) @ filter (\<lambda>e. k = fst e) es"
  using filter_level [of k "\<lambda>x. x \<le> p" es] filter_level [of k "\<lambda>x. p < x" es]
    filter_level [of k "\<lambda>x. x < p" es] filter_level [of k "\<lambda>x. p \<le> x" es]
  by (cases k p rule: linorder_cases; simp add: spec_push_def spec_push_front_def del: filter_filter)+

lemma sorted_split_insert:
  fixes p :: int
  assumes "sorted (map fst es)"
  shows "sorted (map fst (spec_push es m p))" "sorted (map fst (spec_push_front es m p))"
  using sorted_filter [OF assms]
  by (auto simp: spec_push_def spec_push_front_def sorted_append)

lemma mset_spec_push:
  "mset (spec_push es m p) = add_mset (p, m) (mset es)"
  "mset (spec_push_front es m p) = add_mset (p, m) (mset es)"
  by (induction es) (auto simp: spec_push_def spec_push_front_def)

lemma filter_sort_key: "filter (\<lambda>e. k = f e) (sort_key f xs) = filter (\<lambda>e. k = f e) xs"
  using sort_key_stable [of f k xs] by (simp add: eq_commute [of k])

lemma spec_push_sort_key:
  "spec_push (sort_key fst xs) m p = sort_key fst (xs @ [(p, m)])"
  by (rule properties_for_sort_key [symmetric])
    (simp_all add: mset_spec_push sorted_split_insert filter_spec_push filter_sort_key)

lemma spec_push_front_sort_key:
  "spec_push_front (sort_key fst xs) m p = sort_key fst ((p, m) # xs)"
  by (rule properties_for_sort_key [symmetric])
    (simp_all add: mset_spec_push sorted_split_insert filter_spec_push filter_sort_key del: sort_key_simps)

locale prio_queue =
  fixes start :: 'q
    and push push_front :: "'q \<Rightarrow> 'm \<Rightarrow> int \<Rightarrow> 'q"
    and pop :: "'q \<Rightarrow> 'q"
    and head :: "'q \<Rightarrow> 'm option"
    and head_priority :: "'q \<Rightarrow> int"
    and is_empty :: "'q \<Rightarrow> bool"
    and invar :: "'q \<Rightarrow> bool"
    and view :: "'q \<Rightarrow> (int \<times> 'm) list"
  assumes start: "invar start" "view start = []"
    and push: "invar q \<Longrightarrow> invar (push q m p)" "invar q \<Longrightarrow> view (push q m p) = spec_push (view q) m p"
    and push_front: "invar q \<Longrightarrow> invar (push_front q m p)"
      "invar q \<Longrightarrow> view (push_front q m p) = spec_push_front (view q) m p"
    and pop: "invar q \<Longrightarrow> invar (pop q)" "invar q \<Longrightarrow> view (pop q) = tl (view q)"
    and head: "invar q \<Longrightarrow> head q = (case view q of [] \<Rightarrow> None | e # _ \<Rightarrow> Some (snd e))"
    and head_priority:
      "invar q \<Longrightarrow> head_priority q = (case view q of [] \<Rightarrow> LLONG_MAX | e # _ \<Rightarrow> fst e)"
    and is_empty: "invar q \<Longrightarrow> is_empty q \<longleftrightarrow> view q = []"
    and sorted: "invar q \<Longrightarrow> sorted (map fst (view q))"
begin

lemma drain_view: "invar q \<Longrightarrow> drain head pop n q = take n (map snd (view q))"
proof (induction n arbitrary: q)
  case (Suc n)
  then show ?case using pop [of q] head [of q] by (cases "view q") simp_all
qed simp

lemma apply_pushes:
  "invar q \<Longrightarrow> view q = sort_key fst acc \<Longrightarrow>
   invar (fold (apply_push push push_front) ops q)
   \<and> view (fold (apply_push push push_front) ops q) = sort_key fst (deque_order ops acc)"
proof (induction ops acc arbitrary: q rule: deque_order.induct)
  case (2 p m ops acc)
  then show ?case using push [of q m p] by (simp add: spec_push_sort_key)
next
  case (3 p m ops acc)
  then show ?case using push_front [of q m p] spec_push_front_sort_key [of acc m p] by simp
qed simp

lemma drain_pushes:
  "drain head pop n (fold (apply_push push push_front) ops start)
     = take n (map snd (sort_key fst (deque_order ops [])))"
  using apply_pushes [of start "[]" ops] start by (simp add: drain_view)

lemma head_least:
  assumes "invar q" "view q = e # es"
  shows "head_priority q = fst e" "\<forall>e' \<in> set (view q). head_priority q \<le> fst e'"
  using sorted [OF assms(1)] assms by (auto simp: head_priority)

end

interpretation pq: prio_queue queue_init queue_push queue_push_front queue_pop queue_top
  queue_top_priority "\<lambda>q. qsize q = 0" pq_inv entries
  by unfold_locales
    (simp_all add: queue_init_inv queue_push_impl queue_push_front_impl queue_pop_impl
      queue_top_impl queue_top_priority_impl entries_sorted qsize_zero_iff)

section \<open>Properties\<close>

text \<open>
  C1. The contract in the file comment of \<^verbatim>\<open>queueing.cpp\<close>: whatever pushes are made on a fresh
  queue, at the front or at the back of any priority levels and in any order, reading and popping
  it gives the messages in increasing priority value, and within one value the front pushes from
  the last to the first followed by the back pushes from the first to the last. The order is the
  stable sort by priority of the pushes in deque order; \<open>n\<close> bounds how many messages are taken.
\<close>

theorem queue_drains_in_contract_order:
  "drain queue_top queue_pop n (fold (apply_push queue_push queue_push_front) ops queue_init)
     = take n (map snd (sort_key fst (deque_order ops [])))"
  by (rule pq.drain_pushes)

text \<open>
  C2. Every operation of the queue implements the corresponding operation on the list of
  (priority, message) pairs and keeps the representation invariant: sorted level map without a
  zero key, \<open>emptyLevels\<close> the number of drained levels in the map and at most
  \<open>kKeptEmptyLevels\<close>, \<open>qsize\<close> the number of queued messages.
\<close>

theorem queue_operations_refine:
  assumes "pq_inv q"
  shows "pq_inv (queue_push q m p) \<and> entries (queue_push q m p) = spec_push (entries q) m p
    \<and> pq_inv (queue_push_front q m p)
    \<and> entries (queue_push_front q m p) = spec_push_front (entries q) m p
    \<and> pq_inv (queue_pop q) \<and> entries (queue_pop q) = tl (entries q)
    \<and> QueueTop (Some q) = (case entries q of [] \<Rightarrow> None | e # _ \<Rightarrow> Some (snd e))
    \<and> QueueSize (Some q) = int (length (entries q))
    \<and> (QueueEmpty (Some q) \<longleftrightarrow> entries q = [])"
  using assms queue_push_impl [OF assms] queue_push_front_impl [OF assms] queue_pop_impl [OF assms]
  by (simp add: queue_top_impl QueueTop_def QueueSize_def QueueEmpty_def qsize_zero_iff)
    (simp add: pq_inv_def)

definition sample_queue :: "int pqueue" where
  "sample_queue = \<lparr>levels = [(-3, [7]), (2, []), (5, [8, 9])], zero = [1], emptyLevels = 1, qsize = 4\<rparr>"

lemma sample_queue_inv: "pq_inv sample_queue"
  by (simp add: sample_queue_def pq_inv_def kKeptEmptyLevels_def entries_def all_levels_def)

theorem queue_operations_refine_witness:
  "entries (queue_push sample_queue 4 0) = [(-3, 7), (0, 1), (0, 4), (5, 8), (5, 9)]
   \<and> entries (queue_pop sample_queue) = [(0, 1), (5, 8), (5, 9)]"
  using queue_operations_refine [OF sample_queue_inv, of 4 0]
  by (simp add: sample_queue_def entries_def all_levels_def spec_push_def)

text \<open>
  \<open>QueueTopPriority\<close> returns the least priority queued, which is the priority of the message
  \<open>QueueTop\<close> returns; on an empty queue it returns \<open>LLONG_MAX\<close>.
\<close>

theorem queue_top_priority_least:
  assumes "pq_inv q"
  shows "if entries q = [] then QueueTopPriority (Some q) = LLONG_MAX
    else QueueTopPriority (Some q) = Min (fst ` set (entries q))
      \<and> (\<exists>m. QueueTop (Some q) = Some m \<and> (QueueTopPriority (Some q), m) \<in> set (entries q))"
proof (cases "entries q")
  case Nil
  then show ?thesis using assms by (simp add: QueueTopPriority_def queue_top_priority_impl)
next
  case (Cons e es)
  then have "Min (fst ` set (entries q)) = fst e"
    using pq.head_least [OF assms Cons] by (intro Min_eqI) auto
  then show ?thesis using Cons assms
    by (auto simp: QueueTop_def QueueTopPriority_def queue_top_impl queue_top_priority_impl)
qed

theorem queue_top_priority_least_witness:
  "QueueTopPriority (Some sample_queue) = -3"
  using queue_top_priority_least [OF sample_queue_inv]
  by (simp add: sample_queue_def entries_def all_levels_def)

lemma prio_int_encode: "- (2 ^ 31) \<le> p \<Longrightarrow> p < 2 ^ 31 \<Longrightarrow> prio_int [word_of_int p] = Some p"
  by (simp add: sint_sbintrunc' signed_take_bit_int_eq_self)

lemma prio_long_encode:
  assumes "- (2 ^ 63) \<le> p" "p < 2 ^ 63"
  shows "prio_long [word_of_int p, word_of_int (p div 2 ^ 32)] = Some p"
proof -
  have "- (2 ^ 31) \<le> p div 2 ^ 32" "p div 2 ^ 32 < 2 ^ 31" using assms by simp_all
  then have "sint (word_of_int (p div 2 ^ 32) :: u32) = p div 2 ^ 32"
    by (simp add: sint_sbintrunc' signed_take_bit_int_eq_self)
  moreover have "uint (word_of_int p :: u32) = p mod 2 ^ 32"
    by (simp add: uint_word_of_int)
  ultimately show ?thesis by simp
qed

text \<open>
  C3. \<open>CqsEnqueueGeneral\<close> queues a message at the priority its words encode: a signed 32-bit word
  for the integer strategies, two words for the long strategies, at the back of the level for the
  FIFO forms and at the front for the LIFO forms; a bit-vector or unknown strategy queues the
  message at the back of priority zero.
\<close>

theorem cqs_enqueue_places_message:
  assumes "pq_inv q" "- (2 ^ 31) \<le> i" "i < 2 ^ 31" "- (2 ^ 63) \<le> l" "l < 2 ^ 63"
    and "strategy \<notin> {CQS_QUEUEING_FIFO, CQS_QUEUEING_LIFO, CQS_QUEUEING_IFIFO, CQS_QUEUEING_ILIFO,
      CQS_QUEUEING_LFIFO, CQS_QUEUEING_LLIFO}"
  shows "map_option (map_option entries)
           (CqsEnqueueGeneral (Some q) m CQS_QUEUEING_IFIFO bits [word_of_int i])
         = Some (Some (spec_push (entries q) m i))
    \<and> map_option (map_option entries)
           (CqsEnqueueGeneral (Some q) m CQS_QUEUEING_ILIFO bits [word_of_int i])
         = Some (Some (spec_push_front (entries q) m i))
    \<and> map_option (map_option entries)
           (CqsEnqueueGeneral (Some q) m CQS_QUEUEING_LFIFO bits [word_of_int l, word_of_int (l div 2 ^ 32)])
         = Some (Some (spec_push (entries q) m l))
    \<and> map_option (map_option entries)
           (CqsEnqueueGeneral (Some q) m CQS_QUEUEING_LLIFO bits [word_of_int l, word_of_int (l div 2 ^ 32)])
         = Some (Some (spec_push_front (entries q) m l))
    \<and> map_option (map_option entries) (CqsEnqueueGeneral (Some q) m strategy bits ws)
         = Some (Some (spec_push (entries q) m 0))"
proof -
  note strategies = CQS_QUEUEING_FIFO_def CQS_QUEUEING_LIFO_def CQS_QUEUEING_IFIFO_def
    CQS_QUEUEING_ILIFO_def CQS_QUEUEING_LFIFO_def CQS_QUEUEING_LLIFO_def
  show ?thesis
    unfolding CqsEnqueueGeneral_def
      prio_int_encode [OF assms(2,3)] prio_long_encode [OF assms(4,5)]
    using assms(1,6)
    by (simp add: strategies QueuePush_def QueuePushFront_def queue_push_impl queue_push_front_impl)
qed

theorem cqs_enqueue_places_message_witness:
  "map_option (map_option entries)
     (CqsEnqueueGeneral (Some sample_queue) 6 CQS_QUEUEING_LFIFO 64
        [word_of_int (-5), word_of_int ((-5) div 2 ^ 32)])
   = Some (Some [(-5, 6), (-3, 7), (0, 1), (5, 8), (5, 9)])"
  using cqs_enqueue_places_message [OF sample_queue_inv, of 1 "-5" CQS_QUEUEING_BFIFO 6 64]
  by (simp add: CQS_QUEUEING_FIFO_def CQS_QUEUEING_LIFO_def CQS_QUEUEING_IFIFO_def
      CQS_QUEUEING_ILIFO_def CQS_QUEUEING_LFIFO_def CQS_QUEUEING_LLIFO_def CQS_QUEUEING_BFIFO_def)
    (simp add: sample_queue_def entries_def all_levels_def spec_push_def)

end
