(* ===== verification/Conv_Queues.thy ===== *)
theory Conv_Queues
  imports Prelude
begin

text \<open>
  The inter-thread message queues of \<^verbatim>\<open>src/src/queue.h\<close>.

  \<open>MutexAccessControl\<close> is a \<^verbatim>\<open>std::queue\<close> under a lock; each call is one atomic operation on a
  list. \<open>AtomicAccessControl\<close> puts counters in front of a concurrent queue: producers count in
  \<open>pushed\<close> after the enqueue, consumers count in \<open>taken\<close>, and a single consumer keeps a private
  \<open>credit\<close>. Its operations take the concurrent queue's \<open>enqueue\<close> and \<open>try_dequeue\<close> as
  arguments; the locale \<open>concurrent_queue\<close> states what they rely on.

  The second half interleaves producers and consumers at the granularity of the accesses to
  shared memory. Of the concurrent queue it uses only that a dequeue takes one of the messages in
  it and fails only when there is none. \<open>aq_step\<close> is the step relation; the invariant \<open>aq_inv\<close> ties the
  counters to the messages in the queue. Memory is sequentially consistent: the code orders the
  enqueue before the increment by a release and the load before the dequeue by an acquire.
\<close>

section \<open>The lock-based policy\<close>

definition mutex_push :: "'m \<Rightarrow> 'm list \<Rightarrow> 'm list" where
  "mutex_push message q = q @ [message]"

definition mutex_pop_result :: "'m list \<Rightarrow> ('m \<times> 'm list) option" where
  "mutex_pop_result q = (case q of [] \<Rightarrow> None | val # rest \<Rightarrow> Some (val, rest))"

definition mutex_size :: "'m list \<Rightarrow> nat" where
  "mutex_size q = length q"

definition mutex_empty :: "'m list \<Rightarrow> bool" where
  "mutex_empty q \<longleftrightarrow> q = []"

section \<open>The counting policy\<close>

record 'q atomic_ac =
  cq :: 'q
  pushed :: int
  taken :: int
  credit :: int

definition atomic_ac_init :: "'q \<Rightarrow> 'q atomic_ac" where
  "atomic_ac_init q = \<lparr>cq = q, pushed = 0, taken = 0, credit = 0\<rparr>"

text \<open>\<open>k\<close> is the template argument \<^verbatim>\<open>kSingleConsumer\<close>.\<close>

definition available :: "bool \<Rightarrow> 'q atomic_ac \<Rightarrow> int \<times> 'q atomic_ac" where
  "available k a =
     (if k \<and> credit a > 0 then (credit a, a)
      else (let n = pushed a - taken a
            in (n, if k then a\<lparr>credit := (if n > 0 then n else 0)\<rparr> else a)))"

text \<open>\<open>push\<close>: the enqueue, then the increment other threads may see later.\<close>

definition ac_enqueue :: "('m \<Rightarrow> 'q \<Rightarrow> 'q) \<Rightarrow> 'm \<Rightarrow> 'q atomic_ac \<Rightarrow> 'q atomic_ac" where
  "ac_enqueue enqueue message a = a\<lparr>cq := enqueue message (cq a)\<rparr>"

definition ac_publish :: "'q atomic_ac \<Rightarrow> 'q atomic_ac" where
  "ac_publish a = a\<lparr>pushed := pushed a + 1\<rparr>"

definition ac_push :: "('m \<Rightarrow> 'q \<Rightarrow> 'q) \<Rightarrow> 'm \<Rightarrow> 'q atomic_ac \<Rightarrow> 'q atomic_ac" where
  "ac_push enqueue message a = ac_publish (ac_enqueue enqueue message a)"

text \<open>\<open>pop_result\<close>: the branch taken when the dequeue fails, and the one when it succeeds.\<close>

definition ac_failed :: "bool \<Rightarrow> 'q atomic_ac \<Rightarrow> 'q atomic_ac" where
  "ac_failed k a = (if k then a\<lparr>credit := 0\<rparr> else a)"

definition ac_taken :: "bool \<Rightarrow> 'q atomic_ac \<Rightarrow> 'q atomic_ac" where
  "ac_taken k a = (if k then a\<lparr>credit := credit a - 1, taken := taken a + 1\<rparr>
                   else a\<lparr>taken := taken a + 1\<rparr>)"

definition ac_pop_result ::
  "('q \<Rightarrow> ('m \<times> 'q) option) \<Rightarrow> bool \<Rightarrow> 'q atomic_ac \<Rightarrow> 'm option \<times> 'q atomic_ac" where
  "ac_pop_result try_dequeue k a =
     (let (n, a1) = available k a
      in if n \<le> 0 then (None, a1)
         else (case try_dequeue (cq a1) of
                 None \<Rightarrow> (None, ac_failed k a1)
               | Some (message, q') \<Rightarrow> (Some message, ac_taken k (a1\<lparr>cq := q'\<rparr>))))"

definition ac_size :: "bool \<Rightarrow> 'q atomic_ac \<Rightarrow> nat \<times> 'q atomic_ac" where
  "ac_size k a = (let (n, a1) = available k a in (if n > 0 then nat n else 0, a1))"

definition ac_empty :: "bool \<Rightarrow> 'q atomic_ac \<Rightarrow> bool \<times> 'q atomic_ac" where
  "ac_empty k a = (let (n, a1) = available k a in (n \<le> 0, a1))"

text \<open>
  The queue classes the runtime uses: \<open>MPSCQueue\<close> with the single-consumer policy for a PE's
  queue, \<open>MPMCQueue\<close> with the shared one for the node queue.
\<close>

definition MPSCQueue_pop :: "('q \<Rightarrow> ('m \<times> 'q) option) \<Rightarrow> 'q atomic_ac \<Rightarrow> 'm option \<times> 'q atomic_ac" where
  "MPSCQueue_pop try_dequeue policy = ac_pop_result try_dequeue True policy"

definition MPSCQueue_push :: "('m \<Rightarrow> 'q \<Rightarrow> 'q) \<Rightarrow> 'm \<Rightarrow> 'q atomic_ac \<Rightarrow> 'q atomic_ac" where
  "MPSCQueue_push enqueue message policy = ac_push enqueue message policy"

definition MPSCQueue_empty :: "'q atomic_ac \<Rightarrow> bool \<times> 'q atomic_ac" where
  "MPSCQueue_empty policy = ac_empty True policy"

definition MPSCQueue_size :: "'q atomic_ac \<Rightarrow> nat \<times> 'q atomic_ac" where
  "MPSCQueue_size policy = ac_size True policy"

definition MPMCQueue_pop :: "('q \<Rightarrow> ('m \<times> 'q) option) \<Rightarrow> 'q atomic_ac \<Rightarrow> 'm option \<times> 'q atomic_ac" where
  "MPMCQueue_pop try_dequeue policy = ac_pop_result try_dequeue False policy"

definition MPMCQueue_push :: "('m \<Rightarrow> 'q \<Rightarrow> 'q) \<Rightarrow> 'm \<Rightarrow> 'q atomic_ac \<Rightarrow> 'q atomic_ac" where
  "MPMCQueue_push enqueue message policy = ac_push enqueue message policy"

definition MPMCQueue_empty :: "'q atomic_ac \<Rightarrow> bool \<times> 'q atomic_ac" where
  "MPMCQueue_empty policy = ac_empty False policy"

definition MPMCQueue_size :: "'q atomic_ac \<Rightarrow> nat \<times> 'q atomic_ac" where
  "MPMCQueue_size policy = ac_size False policy"

section \<open>Producers and consumers interleaved\<close>

text \<open>Where a consumer is inside \<open>pop_result\<close>.\<close>

datatype 'm consumer_pc = C_idle | C_loaded | C_took 'm

text \<open>
  \<open>ac\<close> holds the messages in the queue; \<open>unpub\<close> counts the enqueues of a producer whose
  increment is still to come.
\<close>

record ('p, 'c, 'm) aq_state =
  ac :: "'m multiset atomic_ac"
  unpub :: "'p \<Rightarrow> nat"
  cpc :: "'c \<Rightarrow> 'm consumer_pc"

definition aq_start :: "('p, 'c, 'm) aq_state" where
  "aq_start = \<lparr>ac = atomic_ac_init {#}, unpub = (\<lambda>_. 0), cpc = (\<lambda>_. C_idle)\<rparr>"

text \<open>\<open>query\<close> is a call of \<open>empty\<close> or \<open>size\<close>, which also refreshes the credit.\<close>

inductive aq_step ::
  "bool \<Rightarrow> 'c \<Rightarrow> ('p, 'c, 'm) aq_state \<Rightarrow> ('p, 'c, 'm) aq_state \<Rightarrow> bool"
  for k :: bool and c0 :: 'c where
  enqueue: "aq_step k c0 s
     (s\<lparr>ac := ac_enqueue add_mset m (ac s), unpub := (unpub s)(p := unpub s p + 1)\<rparr>)"
| publish: "unpub s p > 0 \<Longrightarrow>
     aq_step k c0 s (s\<lparr>ac := ac_publish (ac s), unpub := (unpub s)(p := unpub s p - 1)\<rparr>)"
| query: "(k \<longrightarrow> c = c0) \<Longrightarrow> cpc s c = C_idle \<Longrightarrow> aq_step k c0 s (s\<lparr>ac := snd (ac_empty k (ac s))\<rparr>)"
| load: "(k \<longrightarrow> c = c0) \<Longrightarrow> cpc s c = C_idle \<Longrightarrow> available k (ac s) = (n, a1) \<Longrightarrow>
     aq_step k c0 s
       (s\<lparr>ac := a1, cpc := (cpc s)(c := (if n \<le> 0 then C_idle else C_loaded))\<rparr>)"
| dequeue: "cpc s c = C_loaded \<Longrightarrow> cq (ac s) = add_mset m ms \<Longrightarrow>
     aq_step k c0 s (s\<lparr>ac := (ac s)\<lparr>cq := ms\<rparr>, cpc := (cpc s)(c := C_took m)\<rparr>)"
| dequeue_fails: "cpc s c = C_loaded \<Longrightarrow> cq (ac s) = {#} \<Longrightarrow>
     aq_step k c0 s (s\<lparr>ac := ac_failed k (ac s), cpc := (cpc s)(c := C_idle)\<rparr>)"
| finish: "cpc s c = C_took m \<Longrightarrow>
     aq_step k c0 s (s\<lparr>ac := ac_taken k (ac s), cpc := (cpc s)(c := C_idle)\<rparr>)"

inductive aq_reachable :: "bool \<Rightarrow> 'c \<Rightarrow> ('p, 'c, 'm) aq_state \<Rightarrow> bool"
  for k :: bool and c0 :: 'c where
  start: "aq_reachable k c0 aq_start"
| step: "aq_reachable k c0 s \<Longrightarrow> aq_step k c0 s s' \<Longrightarrow> aq_reachable k c0 s'"

definition in_flight :: "'m consumer_pc \<Rightarrow> int" where
  "in_flight pc = (case pc of C_took _ \<Rightarrow> 1 | _ \<Rightarrow> 0)"

definition aq_count :: "('p::finite, 'c::finite, 'm) aq_state \<Rightarrow> bool" where
  "aq_count s \<longleftrightarrow>
     pushed (ac s) + total int (unpub s) = taken (ac s) + total in_flight (cpc s) + int (size (cq (ac s)))"

definition aq_credit :: "'c \<Rightarrow> ('p, 'c, 'm) aq_state \<Rightarrow> bool" where
  "aq_credit c0 s \<longleftrightarrow> (\<forall>c. c \<noteq> c0 \<longrightarrow> cpc s c = C_idle)
     \<and> 0 \<le> credit (ac s) \<and> (cpc s c0 \<noteq> C_idle \<longrightarrow> 1 \<le> credit (ac s))
     \<and> taken (ac s) + credit (ac s) \<le> pushed (ac s)"

definition aq_inv :: "bool \<Rightarrow> 'c \<Rightarrow> ('p::finite, 'c::finite, 'm) aq_state \<Rightarrow> bool" where
  "aq_inv k c0 s \<longleftrightarrow> aq_count s \<and> (k \<longrightarrow> aq_credit c0 s)"

lemmas ac_defs [model_defs] = ac_enqueue_def ac_publish_def ac_failed_def ac_taken_def
  available_def Let_def

section \<open>What the counters say of the queue\<close>


lemma in_flight_simps [simp]:
  "in_flight C_idle = 0" "in_flight C_loaded = 0" "in_flight (C_took m) = 1"
  by (simp_all add: in_flight_def)

lemma available_simps:
  assumes "available k a = (n, a1)"
  shows "cq a1 = cq a" "pushed a1 = pushed a" "taken a1 = taken a"
  using assms by (auto simp: available_def Let_def split: if_splits)

lemma ac_empty_available: "snd (ac_empty k a) = snd (available k a)"
  by (simp add: ac_empty_def split_def Let_def)

lemma aq_count_step: "aq_step k c0 s s' \<Longrightarrow> aq_count s \<Longrightarrow> aq_count s'"
proof (induction rule: aq_step.induct)
  case (query c s)
  then show ?case
    using available_simps [OF surjective_pairing [of "available k (ac s)"]] by (simp add: aq_count_def ac_empty_available)
next
  case (load c s n a1)
  then show ?case by (simp add: aq_count_def available_simps)
qed (auto simp: aq_count_def ac_defs)

lemma aq_credit_step: "aq_step k c0 s s' \<Longrightarrow> k \<Longrightarrow> aq_credit c0 s \<Longrightarrow> aq_credit c0 s'"
proof (induction rule: aq_step.induct)
  case (query c s)
  then show ?case by (auto simp: aq_credit_def ac_empty_available available_def Let_def)
next
  case (load c s n a1)
  then show ?case by (auto simp: aq_credit_def available_def Let_def split: if_splits)
next
  case (dequeue s c m ms)
  then have "c = c0" by (auto simp: aq_credit_def)
  with dequeue show ?case by (auto simp: aq_credit_def)
next
  case (dequeue_fails s c)
  then have "c = c0" by (auto simp: aq_credit_def)
  with dequeue_fails show ?case by (auto simp: aq_credit_def ac_defs)
next
  case (finish s c m)
  then have "c = c0" by (auto simp: aq_credit_def)
  with finish show ?case by (auto simp: aq_credit_def ac_defs)
qed (auto simp: aq_credit_def ac_defs)

lemma aq_inv_start: "aq_inv k c0 aq_start"
  by (simp add: aq_inv_def aq_count_def aq_credit_def aq_start_def atomic_ac_init_def total_def)

lemma aq_reachable_inv: "aq_reachable k c0 s \<Longrightarrow> aq_inv k c0 s"
proof (induction rule: aq_reachable.induct)
  case (step s s')
  then show ?case using aq_count_step aq_credit_step by (auto simp: aq_inv_def)
qed (rule aq_inv_start)

lemma single_loaded_nonempty:
  assumes "aq_inv True c0 s" "cpc s c = C_loaded"
  shows "cq (ac s) \<noteq> {#}"
proof -
  have cr: "aq_credit c0 s" and co: "aq_count s" using assms(1) by (simp_all add: aq_inv_def)
  have "c = c0" using cr assms(2) by (auto simp: aq_credit_def)
  then have "1 \<le> credit (ac s)" "taken (ac s) + credit (ac s) \<le> pushed (ac s)"
    using cr assms(2) by (auto simp: aq_credit_def)
  moreover have "in_flight (cpc s x) = 0" for x
    using cr assms(2) \<open>c = c0\<close> by (cases "x = c0") (auto simp: aq_credit_def)
  then have "total in_flight (cpc s) = 0" by (simp add: total_def)
  moreover have "0 \<le> total int (unpub s)" by (simp add: total_nonneg)
  ultimately show ?thesis using co by (auto simp: aq_count_def)
qed


section \<open>The contract of a message queue\<close>

text \<open>What the counting policy relies on in the concurrent queue, with no other thread inside it.\<close>

locale concurrent_queue =
  fixes enqueue :: "'m \<Rightarrow> 'q \<Rightarrow> 'q" and try_dequeue :: "'q \<Rightarrow> ('m \<times> 'q) option"
    and contents :: "'q \<Rightarrow> 'm multiset"
  assumes contents_enqueue: "contents (enqueue m q) = add_mset m (contents q)"
    and try_dequeue_None: "try_dequeue q = None \<longleftrightarrow> contents q = {#}"
    and try_dequeue_Some: "try_dequeue q = Some (m, q') \<Longrightarrow> contents q = add_mset m (contents q')"
begin

definition counts_ok :: "bool \<Rightarrow> 'q atomic_ac \<Rightarrow> bool" where
  "counts_ok k a \<longleftrightarrow> pushed a - taken a = int (size (contents (cq a)))
     \<and> (k \<longrightarrow> 0 \<le> credit a \<and> credit a \<le> pushed a - taken a)"

lemma available_counts:
  assumes "counts_ok k a" "available k a = (n, a1)"
  shows "counts_ok k a1" "cq a1 = cq a" "n \<le> 0 \<longleftrightarrow> contents (cq a) = {#}" "k \<and> 0 < n \<longrightarrow> 0 < credit a1"
proof -
  have "contents (cq a) = {#} \<longleftrightarrow> pushed a - taken a = 0"
    using assms(1) by (simp add: counts_ok_def flip: size_eq_0_iff_empty)
  then show "counts_ok k a1" "cq a1 = cq a" "n \<le> 0 \<longleftrightarrow> contents (cq a) = {#}" "k \<and> 0 < n \<longrightarrow> 0 < credit a1"
    using assms by (auto simp: counts_ok_def available_def Let_def split: if_splits)
qed

lemma ac_push_counts:
  "counts_ok k a \<Longrightarrow> counts_ok k (ac_push enqueue m a)
     \<and> contents (cq (ac_push enqueue m a)) = add_mset m (contents (cq a))"
  by (auto simp: counts_ok_def ac_push_def ac_defs contents_enqueue)

lemma ac_pop_counts:
  assumes "counts_ok k a" "ac_pop_result try_dequeue k a = (r, a')"
  shows "counts_ok k a' \<and> (r = None \<longleftrightarrow> contents (cq a) = {#})
    \<and> contents (cq a) = (case r of None \<Rightarrow> contents (cq a') | Some m \<Rightarrow> add_mset m (contents (cq a')))"
proof -
  obtain n a1 where av: "available k a = (n, a1)" by force
  note c = available_counts [OF assms(1) av]
  show ?thesis
  proof (cases "try_dequeue (cq a1)")
    case None
    then show ?thesis using assms(2) c av try_dequeue_None [of "cq a1"]
      by (auto simp: ac_pop_result_def ac_failed_def split: if_splits)
  next
    case (Some e)
    obtain m q' where e: "e = (m, q')" by force
    then have "contents (cq a) = add_mset m (contents q')" using Some try_dequeue_Some c(2) by simp
    then show ?thesis using assms(2) c av Some e
      by (cases "n \<le> 0") (auto simp: ac_pop_result_def counts_ok_def ac_taken_def)
  qed
qed

end

text \<open>What the scheduler relies on in a queue of messages.\<close>

locale msg_queue =
  fixes put :: "'m \<Rightarrow> 's \<Rightarrow> 's" and take_msg :: "'s \<Rightarrow> 'm option \<times> 's"
    and invar :: "'s \<Rightarrow> bool" and bag :: "'s \<Rightarrow> 'm multiset"
  assumes put: "invar q \<Longrightarrow> invar (put m q)" "invar q \<Longrightarrow> bag (put m q) = add_mset m (bag q)"
    and take_invar: "invar q \<Longrightarrow> take_msg q = (r, q') \<Longrightarrow> invar q'"
    and take_None: "invar q \<Longrightarrow> take_msg q = (None, q') \<Longrightarrow> bag q = {#} \<and> bag q' = {#}"
    and take_Some: "invar q \<Longrightarrow> take_msg q = (Some m, q') \<Longrightarrow> bag q = add_mset m (bag q')"
begin

lemma put_then_found: "invar q \<Longrightarrow> \<exists>m' q'. take_msg (put m q) = (Some m', q')"
proof -
  assume q: "invar q"
  obtain r q' where t: "take_msg (put m q) = (r, q')" by force
  then show ?thesis using take_None [OF put(1) [OF q]] put(2) [OF q] by (cases r) auto
qed

end

sublocale concurrent_queue < counted: msg_queue "ac_push enqueue" "ac_pop_result try_dequeue k"
    "counts_ok k" "\<lambda>a. contents (cq a)" for k
proof unfold_locales
  fix a m r a'
  assume a: "counts_ok k a"
  show "counts_ok k (ac_push enqueue m a)"
    "contents (cq (ac_push enqueue m a)) = add_mset m (contents (cq a))"
    using ac_push_counts [OF a] by simp_all
  show "counts_ok k a'" if "ac_pop_result try_dequeue k a = (r, a')"
    using ac_pop_counts [OF a that] by simp
  show "contents (cq a) = {#} \<and> contents (cq a') = {#}" if "ac_pop_result try_dequeue k a = (None, a')"
    using ac_pop_counts [OF a that] by auto
  show "contents (cq a) = add_mset m (contents (cq a'))" if "ac_pop_result try_dequeue k a = (Some m, a')"
    using ac_pop_counts [OF a that] by simp
qed

definition mutex_take :: "'m list \<Rightarrow> 'm option \<times> 'm list" where
  "mutex_take q = (case mutex_pop_result q of None \<Rightarrow> (None, q) | Some (val, rest) \<Rightarrow> (Some val, rest))"

interpretation locked: msg_queue mutex_push mutex_take "\<lambda>_. True" mset
  by unfold_locales
    (auto simp: mutex_push_def mutex_take_def mutex_pop_result_def split: list.splits)

interpretation fifo: concurrent_queue mutex_push mutex_pop_result mset
  by unfold_locales (auto simp: mutex_push_def mutex_pop_result_def split: list.splits)

section \<open>Properties\<close>

text \<open>A run of one producer and the single consumer: enqueue, publish, load, dequeue.\<close>

definition sample_aq0 :: "(bool, unit, nat) aq_state" where
  "sample_aq0 = aq_start"

definition sample_aq1 :: "(bool, unit, nat) aq_state" where
  "sample_aq1 = sample_aq0\<lparr>ac := ac_enqueue add_mset 5 (ac sample_aq0),
     unpub := (unpub sample_aq0)(True := unpub sample_aq0 True + 1)\<rparr>"

definition sample_aq2 :: "(bool, unit, nat) aq_state" where
  "sample_aq2 = sample_aq1\<lparr>ac := ac_publish (ac sample_aq1),
     unpub := (unpub sample_aq1)(True := unpub sample_aq1 True - 1)\<rparr>"

definition sample_aq3 :: "(bool, unit, nat) aq_state" where
  "sample_aq3 = sample_aq2\<lparr>ac := snd (available True (ac sample_aq2)),
     cpc := (cpc sample_aq2)(() := (if fst (available True (ac sample_aq2)) \<le> 0 then C_idle else C_loaded))\<rparr>"

lemmas sample_aq_defs = sample_aq0_def sample_aq1_def sample_aq2_def sample_aq3_def aq_start_def
  atomic_ac_init_def ac_defs

lemma sample_aq2_reachable: "aq_reachable True () sample_aq2"
proof -
  have "aq_reachable True () sample_aq1"
    unfolding sample_aq1_def sample_aq0_def
    by (rule aq_reachable.step [OF aq_reachable.start aq_step.enqueue])
  then show ?thesis
    unfolding sample_aq2_def
    by (rule aq_reachable.step [OF _ aq_step.publish]) (simp add: sample_aq_defs)
qed

lemma sample_aq3_reachable: "aq_reachable True () sample_aq3"
  unfolding sample_aq3_def
  by (rule aq_reachable.step [OF sample_aq2_reachable aq_step.load]) (simp_all add: sample_aq_defs)



text \<open>
  C5. With one consumer, a positive count always means a message: once \<open>available\<close> returned a
  positive number the queue is not empty, so a dequeue that fails only on an empty queue finds a message and the
  branch that forgets the credit is never taken, in any interleaving with the producers. The comment of that branch,
  and those of the two callers in the schedulers, expect the increment to run ahead of its enqueue; the
  code makes it after the enqueue.
\<close>

theorem single_consumer_dequeue_succeeds:
  fixes s :: "('p::finite, 'c::finite, 'm) aq_state"
  assumes "aq_reachable True c0 s" "cpc s c = C_loaded"
  shows "cq (ac s) \<noteq> {#}"
  by (rule single_loaded_nonempty [OF aq_reachable_inv [OF assms(1)] assms(2)])

theorem single_consumer_dequeue_succeeds_witness:
  "cq (ac sample_aq3) \<noteq> {#}"
  by (rule single_consumer_dequeue_succeeds [OF sample_aq3_reachable, of "()"])
    (simp add: sample_aq_defs)

end
