(* ===== verification/Sched_Registry.thy ===== *)
theory Sched_Registry
  imports Prelude
begin

text \<open>
  Registration of poll handlers (\<^verbatim>\<open>src/src/scheduler_registry.cpp\<close>): the slot masks and groups
  of \<open>add_handler\<close>, and the per-PE slot table \<open>add_list_of_handlers\<close> builds from relative
  frequencies. A handler is a value of type \<open>'h\<close>; \<open>no_work\<close> stands for \<open>pollNoWork\<close>, which
  fills every slot no handler owns.

  Weights and their sums are 32-bit unsigned. The quotient that is rounded has both operands
  below \<open>2 ^ 32\<close>, where \<^verbatim>\<open>lround\<close> of the double quotient is the exact rounding to the nearest
  integer, halves up.
\<close>

unbundle bit_operations_syntax

definition SCHED_TABLE_SIZE :: nat where
  "SCHED_TABLE_SIZE = 64"

definition SCHED_ALL_SLOTS :: u64 where
  "SCHED_ALL_SLOTS = drop_bit (64 - SCHED_TABLE_SIZE) (NOT 0)"

section \<open>Masks and groups\<close>

record 'h poll_handler =
  fn :: 'h
  mask :: u64
  period :: nat
  phase :: nat

record 'h registry =
  g_handlers :: "'h poll_handler list"
  g_groups :: "'h list list"

definition make_mask_every_n :: "nat \<Rightarrow> nat \<Rightarrow> u64" where
  "make_mask_every_n n ph =
     (if n = 0 then 0
      else if n = 1 then SCHED_ALL_SLOTS
      else (let n' = (if n > SCHED_TABLE_SIZE then SCHED_TABLE_SIZE else n)
            in fold (\<lambda>pos m. if (pos + ph) mod n' = 0 then m OR push_bit pos 1 else m)
                 [0..<SCHED_TABLE_SIZE] 0))"

definition rebuild_groups :: "'h registry \<Rightarrow> 'h registry" where
  "rebuild_groups r = r\<lparr>g_groups :=
     fold (\<lambda>h gs. if mask h = 0 then gs
                 else fold (\<lambda>b gs. if bit (mask h) b then gs[b := gs ! b @ [fn h]] else gs)
                        [0..<SCHED_TABLE_SIZE] gs)
       (g_handlers r) (replicate SCHED_TABLE_SIZE [])\<rparr>"

definition set_frequency :: "nat \<Rightarrow> nat \<Rightarrow> nat \<Rightarrow> 'h registry \<Rightarrow> 'h registry" where
  "set_frequency handlerIndex per ph r =
     (if handlerIndex \<ge> length (g_handlers r) then r
      else (let h = g_handlers r ! handlerIndex;
                h' = (if per = 0 then h\<lparr>period := 0, phase := 0, mask := 0\<rparr>
                      else (let p = (if per > SCHED_TABLE_SIZE then SCHED_TABLE_SIZE else per)
                            in h\<lparr>period := p, phase := ph mod p,
                                 mask := make_mask_every_n p (ph mod p)\<rparr>))
            in rebuild_groups (r\<lparr>g_handlers := (g_handlers r)[handlerIndex := h']\<rparr>)))"

definition add_handler :: "'h \<Rightarrow> nat \<Rightarrow> nat \<Rightarrow> 'h registry \<Rightarrow> 'h registry" where
  "add_handler f per ph r =
     (let r1 = r\<lparr>g_handlers := g_handlers r @ [\<lparr>fn = f, mask = 0, period = 0, phase = 0\<rparr>]\<rparr>
      in set_frequency (length (g_handlers r1) - 1) per ph r1)"

section \<open>The slot table\<close>

definition total_frequency :: "('h \<times> u32) list \<Rightarrow> u32" where
  "total_frequency hs = fold (\<lambda>h t. t + snd h) hs 0"

text \<open>\<^verbatim>\<open>lround((w * SCHED_TABLE_SIZE) / (double)total)\<close>, at least one.\<close>

definition normalized_slots :: "u32 \<Rightarrow> u32 \<Rightarrow> nat" where
  "normalized_slots tot w =
     (let a = unat (w * of_nat SCHED_TABLE_SIZE); b = unat tot; n = (2 * a + b) div (2 * b)
      in if n = 0 then 1 else n)"

text \<open>\<^verbatim>\<open>std::max_element\<close>: the first position of the largest element.\<close>

fun max_element :: "nat list \<Rightarrow> nat" where
  "max_element [] = 0"
| "max_element [x] = 0"
| "max_element (x # y # ys) =
     (let j = max_element (y # ys) in if x < (y # ys) ! j then Suc j else 0)"

text \<open>The sum of the shares is a 32-bit unsigned number and wraps around.\<close>

function trim_slots :: "nat list \<Rightarrow> u32 \<Rightarrow> nat list" where
  "trim_slots slots total_slots =
     (if total_slots > of_nat SCHED_TABLE_SIZE
      then (let largest = max_element slots
            in if slots ! largest \<le> 1 then slots
               else trim_slots (slots[largest := slots ! largest - 1]) (total_slots - 1))
      else slots)"
  by auto
termination
proof (relation "measure (unat \<circ> snd)")
  fix total :: u32
  assume "total > of_nat SCHED_TABLE_SIZE"
  then have "total \<noteq> 0" by auto
  then have "unat (total - 1) < unat total" by (simp add: unat_minus_one unat_gt_0)
  then show "((slots', total - 1), slots, total) \<in> measure (unat \<circ> snd)" for slots' slots :: "nat list" by simp
qed simp

declare trim_slots.simps [simp del]

text \<open>\<open>None\<close> is a slot no handler owns.\<close>

type_synonym 'h slot_table = "'h option list"

fun next_free :: "nat \<Rightarrow> 'h slot_table \<Rightarrow> nat \<Rightarrow> nat option" where
  "next_free 0 tab index = None"
| "next_free (Suc fuel) tab index =
     (if tab ! index \<noteq> None then next_free fuel tab ((index + 1) mod SCHED_TABLE_SIZE)
      else Some index)"

text \<open>
  The loop that places \<open>remaining\<close> copies of one handler. The inner search has fuel for one
  round of the table; \<open>next_free_found\<close> shows that it is enough while a slot is free.
\<close>

fun place_handler ::
  "'h \<Rightarrow> nat \<Rightarrow> nat \<Rightarrow> nat \<Rightarrow> nat \<Rightarrow> 'h slot_table \<Rightarrow> ('h slot_table \<times> nat) option" where
  "place_handler h step 0 index total_assigned tab = Some (tab, total_assigned)"
| "place_handler h step (Suc remaining) index total_assigned tab =
     (if total_assigned \<ge> SCHED_TABLE_SIZE then Some (tab, total_assigned)
      else (case next_free SCHED_TABLE_SIZE tab index of
              None \<Rightarrow> None
            | Some i \<Rightarrow> place_handler h step remaining ((i + step) mod SCHED_TABLE_SIZE)
                         (total_assigned + 1) (tab[i := Some h])))"

fun place_all ::
  "('h \<times> nat) list \<Rightarrow> nat \<Rightarrow> nat \<Rightarrow> 'h slot_table \<Rightarrow> 'h slot_table option" where
  "place_all [] current_index total_assigned tab = Some tab"
| "place_all ((h, n) # rest) current_index total_assigned tab =
     (case place_handler h (SCHED_TABLE_SIZE div n) n current_index total_assigned tab of
        None \<Rightarrow> None
      | Some (tab', ta) \<Rightarrow> place_all rest ((current_index + 1) mod SCHED_TABLE_SIZE) ta tab')"

definition handler_slots :: "('h \<times> u32) list \<Rightarrow> nat list" where
  "handler_slots hs =
     (let norm = map (normalized_slots (total_frequency hs) \<circ> snd) hs
      in trim_slots norm (fold (\<lambda>n t. t + of_nat n) norm 0))"

text \<open>
  \<open>None\<close>: the total frequency is zero and no table is built. \<open>Some None\<close> would be a search that
  does not end.
\<close>

definition add_list_of_handlers :: "'h \<Rightarrow> ('h \<times> u32) list \<Rightarrow> 'h list option option" where
  "add_list_of_handlers no_work hs =
     (if total_frequency hs = 0 then None
      else Some (map_option (map (\<lambda>s. case s of None \<Rightarrow> no_work | Some h \<Rightarrow> h))
             (place_all (zip (map fst hs) (handler_slots hs)) 0 0 (replicate SCHED_TABLE_SIZE None))))"

section \<open>Masks and groups: which slots call a handler\<close>

lemma bit_fold_mask:
  "bit (fold (\<lambda>pos m. if P pos then m OR push_bit pos 1 else m) ps (m0 :: u64)) b
     \<longleftrightarrow> bit m0 b \<or> (b \<in> set ps \<and> P b \<and> b < 64)"
proof (induction ps arbitrary: m0)
  case (Cons p ps)
  show ?case by (auto simp: Cons bit_or_iff bit_exp_iff)
qed simp

lemma bit_all_slots: "b < 64 \<Longrightarrow> bit SCHED_ALL_SLOTS b"
  by (simp add: SCHED_ALL_SLOTS_def SCHED_TABLE_SIZE_def)

lemma bit_make_mask:
  assumes "b < SCHED_TABLE_SIZE"
  shows "bit (make_mask_every_n n ph) b
     \<longleftrightarrow> n \<noteq> 0 \<and> (b + ph) mod (min n SCHED_TABLE_SIZE) = 0"
  using assms
  by (auto simp: make_mask_every_n_def bit_fold_mask bit_all_slots SCHED_TABLE_SIZE_def Let_def min_def)

lemma fold_group_nth:
  "distinct bs \<Longrightarrow> b < length gs \<Longrightarrow> \<forall>x \<in> set bs. x < length gs \<Longrightarrow>
   fold (\<lambda>b gs. if P b then gs[b := gs ! b @ [f]] else gs) bs gs ! b
     = gs ! b @ (if b \<in> set bs \<and> P b then [f] else [])"
  by (induction bs arbitrary: gs) (auto simp: nth_list_update)

lemma fold_group_length:
  "length (fold (\<lambda>b gs. if P b then gs[b := gs ! b @ [f]] else gs) bs gs) = length gs"
  by (induction bs arbitrary: gs) auto

lemma fold_groups:
  assumes "b < SCHED_TABLE_SIZE" "length gs = SCHED_TABLE_SIZE"
  shows "fold (\<lambda>h gs. if mask h = 0 then gs
             else fold (\<lambda>b gs. if bit (mask h) b then gs[b := gs ! b @ [fn h]] else gs)
                    [0..<SCHED_TABLE_SIZE] gs) hs gs ! b
     = gs ! b @ map fn (filter (\<lambda>h. bit (mask h) b) hs)"
  using assms(2)
proof (induction hs arbitrary: gs)
  case (Cons h hs)
  then show ?case using assms(1)
    by (cases "mask h = 0") (simp_all add: fold_group_length fold_group_nth)
qed simp

lemma groups_rebuilt:
  "b < SCHED_TABLE_SIZE \<Longrightarrow>
   g_groups (rebuild_groups r) ! b = map fn (filter (\<lambda>h. bit (mask h) b) (g_handlers r))"
  by (simp add: rebuild_groups_def fold_groups)

section \<open>The slot table: every handler gets its slots\<close>

lemma max_element_spec:
  "xs \<noteq> [] \<Longrightarrow> max_element xs < length xs \<and> (\<forall>x \<in> set xs. x \<le> xs ! max_element xs)"
  by (induction xs rule: max_element.induct) (auto simp: Let_def)

lemma sum_list_decr:
  "i < length xs \<Longrightarrow> 0 < xs ! i \<Longrightarrow> sum_list (xs[i := xs ! i - 1]) = sum_list xs - (1 :: nat)"
proof (induction xs arbitrary: i)
  case (Cons x xs)
  then show ?case by (cases i) (auto simp: member_le_sum_list dest: elem_le_sum_list)
qed simp

lemma trim_slots_spec:
  assumes "\<forall>x \<in> set slots. 1 \<le> x" "unat total_slots = sum_list slots" "slots \<noteq> []"
  shows "length (trim_slots slots total_slots) = length slots
    \<and> (\<forall>x \<in> set (trim_slots slots total_slots). 1 \<le> x)
    \<and> (sum_list (trim_slots slots total_slots) \<le> SCHED_TABLE_SIZE
       \<or> (\<forall>x \<in> set (trim_slots slots total_slots). x = 1))"
  using assms
proof (induction slots total_slots rule: trim_slots.induct)
  case (1 slots total_slots)
  let ?i = "max_element slots"
  have i: "?i < length slots" "\<forall>x \<in> set slots. x \<le> slots ! ?i"
    using max_element_spec [OF "1.prems"(3)] by auto
  have gt: "total_slots > of_nat SCHED_TABLE_SIZE \<longleftrightarrow> unat total_slots > SCHED_TABLE_SIZE"
    by (simp add: word_less_nat_alt SCHED_TABLE_SIZE_def)
  show ?case
  proof (cases "total_slots > of_nat SCHED_TABLE_SIZE \<and> \<not> slots ! ?i \<le> 1")
    case True
    have dec: "unat (total_slots - 1) = unat total_slots - 1"
      using True gt by (intro unat_minus_one) auto
    have "\<forall>x \<in> set (slots[?i := slots ! ?i - 1]). 1 \<le> x"
      using True "1.prems"(1) set_update_subset_insert [of slots ?i] by fastforce
    moreover have "unat (total_slots - 1) = sum_list (slots[?i := slots ! ?i - 1])"
      using True sum_list_decr [OF i(1)] "1.prems"(2) dec by simp
    ultimately have "length (trim_slots (slots[?i := slots ! ?i - 1]) (total_slots - 1)) = length slots
      \<and> (\<forall>x \<in> set (trim_slots (slots[?i := slots ! ?i - 1]) (total_slots - 1)). 1 \<le> x)
      \<and> (sum_list (trim_slots (slots[?i := slots ! ?i - 1]) (total_slots - 1)) \<le> SCHED_TABLE_SIZE
         \<or> (\<forall>x \<in> set (trim_slots (slots[?i := slots ! ?i - 1]) (total_slots - 1)). x = 1))"
      using "1.IH" [of ?i] True "1.prems"(3) by simp
    then show ?thesis using True by (simp add: trim_slots.simps [of slots] Let_def)
  next
    case False
    then have "trim_slots slots total_slots = slots"
      by (auto simp: trim_slots.simps [of slots] Let_def)
    moreover have "\<forall>x \<in> set slots. x = 1" if "slots ! ?i \<le> 1"
      using that i "1.prems"(1) by (metis le_antisym le_trans)
    ultimately show ?thesis using False gt "1.prems"(1,2) by (auto simp: not_less)
  qed
qed

lemma next_free_None:
  "next_free fuel tab index = None \<Longrightarrow> d < fuel \<Longrightarrow> index < SCHED_TABLE_SIZE \<Longrightarrow>
   tab ! ((index + d) mod SCHED_TABLE_SIZE) \<noteq> None"
proof (induction fuel tab index arbitrary: d rule: next_free.induct)
  case (2 fuel tab index)
  have pos: "0 < SCHED_TABLE_SIZE" by (simp add: SCHED_TABLE_SIZE_def)
  show ?case
  proof (cases d)
    case 0
    then show ?thesis using 2 by (auto split: if_splits)
  next
    case (Suc d')
    have "((index + 1) mod SCHED_TABLE_SIZE + d') mod SCHED_TABLE_SIZE = (index + d) mod SCHED_TABLE_SIZE"
      using Suc by (simp add: mod_simps)
    moreover have "tab ! (((index + 1) mod SCHED_TABLE_SIZE + d') mod SCHED_TABLE_SIZE) \<noteq> None"
      using 2(1) [of d'] 2(2,3) Suc pos by (auto split: if_splits)
    ultimately show ?thesis by simp
  qed
qed simp

lemma next_free_Some:
  "next_free fuel tab index = Some i \<Longrightarrow> index < SCHED_TABLE_SIZE \<Longrightarrow>
   i < SCHED_TABLE_SIZE \<and> tab ! i = None"
  by (induction fuel tab index rule: next_free.induct)
    (auto simp: SCHED_TABLE_SIZE_def split: if_splits)

lemma next_free_found:
  assumes "length tab = SCHED_TABLE_SIZE" "None \<in> set tab" "index < SCHED_TABLE_SIZE"
  shows "\<exists>i < SCHED_TABLE_SIZE. next_free SCHED_TABLE_SIZE tab index = Some i \<and> tab ! i = None"
proof -
  obtain j where j: "j < SCHED_TABLE_SIZE" "tab ! j = None"
    using assms(1,2) by (metis in_set_conv_nth)
  define d where "d = (j + SCHED_TABLE_SIZE - index) mod SCHED_TABLE_SIZE"
  have "(index + d) mod SCHED_TABLE_SIZE = j" "d < SCHED_TABLE_SIZE"
    using j assms(3) by (auto simp: d_def mod_simps SCHED_TABLE_SIZE_def)
  then have "next_free SCHED_TABLE_SIZE tab index \<noteq> None"
    using next_free_None [OF _ _ assms(3)] j(2) by metis
  then show ?thesis using next_free_Some [OF _ assms(3)] by blast
qed

lemma count_list_replicate: "count_list (replicate n x) y = (if x = y then n else 0)"
  by (induction n) auto

lemma count_list_update_None:
  "i < length tab \<Longrightarrow> tab ! i = None \<Longrightarrow>
   count_list (tab[i := Some h]) None = count_list tab None - 1
   \<and> 0 < count_list tab None
   \<and> count_list (tab[i := Some h]) (Some x) = count_list tab (Some x) + (if x = h then 1 else 0)"
proof (induction tab arbitrary: i)
  case (Cons t tab)
  then show ?case by (cases i) auto
qed simp

text \<open>Every copy of a handler is placed as long as the table has room for it.\<close>

lemma place_handler_spec:
  assumes "length tab = SCHED_TABLE_SIZE" "count_list tab None + ta = SCHED_TABLE_SIZE"
    and "ta + n \<le> SCHED_TABLE_SIZE" "index < SCHED_TABLE_SIZE"
  shows "\<exists>tab'. place_handler h st n index ta tab = Some (tab', ta + n)
    \<and> length tab' = SCHED_TABLE_SIZE \<and> count_list tab' None + (ta + n) = SCHED_TABLE_SIZE
    \<and> (\<forall>x. count_list tab' (Some x) = count_list tab (Some x) + (if x = h then n else 0))"
  using assms
proof (induction n arbitrary: index ta tab)
  case (Suc n)
  have "0 < count_list tab None" using Suc.prems by linarith
  then have "None \<in> set tab" by (simp add: count_list_0_iff neq0_conv [symmetric] del: neq0_conv)
  then obtain i where i: "i < SCHED_TABLE_SIZE" "next_free SCHED_TABLE_SIZE tab index = Some i" "tab ! i = None"
    using next_free_found Suc.prems(1,4) by blast
  have c: "count_list (tab[i := Some h]) None + (ta + 1) = SCHED_TABLE_SIZE"
    "count_list (tab[i := Some h]) (Some x) = count_list tab (Some x) + (if x = h then 1 else 0)" for x
    using count_list_update_None [of i tab h x] i Suc.prems(1,2) by auto
  have "(i + st) mod SCHED_TABLE_SIZE < SCHED_TABLE_SIZE" by (simp add: SCHED_TABLE_SIZE_def)
  then obtain tab' where "place_handler h st n ((i + st) mod SCHED_TABLE_SIZE) (ta + 1) (tab[i := Some h])
      = Some (tab', ta + 1 + n)" "length tab' = SCHED_TABLE_SIZE"
    "count_list tab' None + (ta + 1 + n) = SCHED_TABLE_SIZE"
    "\<forall>x. count_list tab' (Some x) = count_list (tab[i := Some h]) (Some x) + (if x = h then n else 0)"
    using Suc.IH [of "tab[i := Some h]" "ta + 1" "(i + st) mod SCHED_TABLE_SIZE"] c(1) Suc.prems by auto
  then show ?case using i c(2) Suc.prems(3) by auto
qed simp

definition slots_of :: "'h \<Rightarrow> ('h \<times> nat) list \<Rightarrow> nat" where
  "slots_of h hs = sum_list (map snd (filter (\<lambda>e. fst e = h) hs))"

lemma place_all_spec:
  assumes "length tab = SCHED_TABLE_SIZE" "count_list tab None + ta = SCHED_TABLE_SIZE"
    and "ta + sum_list (map snd hs) \<le> SCHED_TABLE_SIZE" "ci < SCHED_TABLE_SIZE"
  shows "\<exists>tab'. place_all hs ci ta tab = Some tab' \<and> length tab' = SCHED_TABLE_SIZE
    \<and> (\<forall>x. count_list tab' (Some x) = count_list tab (Some x) + slots_of x hs)"
  using assms
proof (induction hs arbitrary: ci ta tab)
  case (Cons e hs)
  obtain h n where e: "e = (h, n)" by force
  obtain tab1 where t1: "place_handler h (SCHED_TABLE_SIZE div n) n ci ta tab = Some (tab1, ta + n)"
    "length tab1 = SCHED_TABLE_SIZE" "count_list tab1 None + (ta + n) = SCHED_TABLE_SIZE"
    "\<forall>x. count_list tab1 (Some x) = count_list tab (Some x) + (if x = h then n else 0)"
    using place_handler_spec [of tab ta n ci h] Cons.prems e by auto
  have "(ci + 1) mod SCHED_TABLE_SIZE < SCHED_TABLE_SIZE" by (simp add: SCHED_TABLE_SIZE_def)
  then obtain tab' where "place_all hs ((ci + 1) mod SCHED_TABLE_SIZE) (ta + n) tab1 = Some tab'"
    "length tab' = SCHED_TABLE_SIZE"
    "\<forall>x. count_list tab' (Some x) = count_list tab1 (Some x) + slots_of x hs"
    using Cons.IH [OF t1(2,3), of "(ci + 1) mod SCHED_TABLE_SIZE"] Cons.prems(3) e by auto
  then show ?case using t1 e by (auto simp: slots_of_def)
qed (simp add: slots_of_def)

section \<open>Properties\<close>

lemma normalized_slots_pos: "1 \<le> normalized_slots t w"
  by (simp add: normalized_slots_def Let_def)

text \<open>Sums of 32-bit numbers that do not wrap, and the sum of the rounded shares.\<close>

lemma unat_fold_add:
  "unat a + sum_list (map f xs) < 2 ^ 32 \<Longrightarrow>
   unat (fold (\<lambda>x t. t + of_nat (f x)) xs (a :: u32)) = unat a + sum_list (map f xs)"
proof (induction xs arbitrary: a)
  case (Cons x xs)
  have "unat (of_nat (f x) :: u32) = f x" using Cons.prems by (simp add: unat_of_nat)
  then have "unat (a + of_nat (f x)) = unat a + f x" using Cons.prems by (subst unat_add_lem [THEN iffD1]) auto
  then show ?case using Cons.IH [of "a + of_nat (f x)"] Cons.prems by simp
qed simp

lemma unat_total_frequency:
  assumes "sum_list (map (unat \<circ> snd) hs) < 2 ^ 32"
  shows "unat (total_frequency hs) = sum_list (map (unat \<circ> snd) hs)"
  using unat_fold_add [of 0 "unat \<circ> snd" hs] assms by (simp add: total_frequency_def)

lemma sum_div_le: "0 < b \<Longrightarrow> sum_list (map (\<lambda>x. f x div b) xs) \<le> sum_list (map f xs) div (b :: nat)"
proof (induction xs)
  case (Cons x xs)
  have "(f x div b + sum_list (map f xs) div b) * b \<le> f x + sum_list (map f xs)"
    by (simp add: add_mult_distrib add_mono)
  then have "f x div b + sum_list (map f xs) div b \<le> (f x + sum_list (map f xs)) div b"
    using Cons.prems by (simp add: less_eq_div_iff_mult_less_eq)
  then show ?case using Cons by simp
qed simp

lemma normalized_slots_le:
  assumes "tot \<noteq> 0"
  shows "normalized_slots tot w \<le> (SCHED_TABLE_SIZE * unat w) div unat tot + 1"
proof -
  define a where "a = unat (w * of_nat SCHED_TABLE_SIZE)"
  define b where "b = unat tot"
  have b: "0 < b" using assms by (simp add: b_def unat_gt_0)
  have "a \<le> SCHED_TABLE_SIZE * unat w"
    by (simp add: a_def unat_word_ariths SCHED_TABLE_SIZE_def mult.commute)
  then have "a div b \<le> SCHED_TABLE_SIZE * unat w div b" by (rule div_le_mono)
  moreover have "(2 * a + b) div (2 * b) \<le> a div b + 1"
  proof -
    have "a = b * (a div b) + a mod b" "a mod b < b" using b by simp_all
    then have "a < b * (a div b + 1)" by (metis add.commute add_less_cancel_left mult_Suc_right Suc_eq_plus1)
    then have "2 * a + b < (a div b + 2) * (2 * b)" using b by (simp add: algebra_simps)
    then have "(2 * a + b) div (2 * b) < a div b + 2" using b by (simp add: div_less_iff_less_mult)
    then show ?thesis by simp
  qed
  ultimately show ?thesis by (simp add: normalized_slots_def a_def [symmetric] b_def [symmetric] Let_def)
qed

lemma normalized_sum:
  assumes "sum_list (map (unat \<circ> snd) hs) < 2 ^ 32" "total_frequency hs \<noteq> 0"
  shows "sum_list (map (normalized_slots (total_frequency hs) \<circ> snd) hs) \<le> SCHED_TABLE_SIZE + length hs"
proof -
  let ?b = "unat (total_frequency hs)"
  have b: "?b = sum_list (map (unat \<circ> snd) hs)" by (rule unat_total_frequency [OF assms(1)])
  have b0: "0 < ?b" using assms(2) by (simp add: unat_gt_0)
  have "sum_list (map (normalized_slots (total_frequency hs) \<circ> snd) hs)
      \<le> sum_list (map (\<lambda>h. SCHED_TABLE_SIZE * unat (snd h) div ?b + 1) hs)"
    using normalized_slots_le [OF assms(2)] by (intro sum_list_mono) simp
  also have "\<dots> = sum_list (map (\<lambda>h. SCHED_TABLE_SIZE * unat (snd h) div ?b) hs) + length hs"
    by (simp add: sum_list_Suc)
  also have "\<dots> \<le> sum_list (map (\<lambda>h. SCHED_TABLE_SIZE * unat (snd h)) hs) div ?b + length hs"
    using sum_div_le [OF b0, of "\<lambda>h. SCHED_TABLE_SIZE * unat (snd h)" hs] by simp
  also have "sum_list (map (\<lambda>h. SCHED_TABLE_SIZE * unat (snd h)) hs) = SCHED_TABLE_SIZE * ?b"
    by (simp add: b sum_list_const_mult comp_def)
  finally show ?thesis using b0 by (simp add: comp_def)
qed

lemma handler_slots_spec:
  assumes "hs \<noteq> []" "length hs \<le> SCHED_TABLE_SIZE" "sum_list (map (unat \<circ> snd) hs) < 2 ^ 32" "total_frequency hs \<noteq> 0"
  shows "length (handler_slots hs) = length hs" "\<forall>x \<in> set (handler_slots hs). 1 \<le> x"
    "sum_list (handler_slots hs) \<le> SCHED_TABLE_SIZE"
proof -
  let ?n = "map (normalized_slots (total_frequency hs) \<circ> snd) hs"
  have "length (handler_slots hs) = length hs \<and> (\<forall>x \<in> set (handler_slots hs). 1 \<le> x)
    \<and> (sum_list (handler_slots hs) \<le> SCHED_TABLE_SIZE \<or> (\<forall>x \<in> set (handler_slots hs). x = 1))"
  proof -
    have n: "\<forall>x \<in> set ?n. 1 \<le> x" using normalized_slots_pos by auto
    have "sum_list ?n < 2 ^ 32"
      using normalized_sum [OF assms(3,4)] assms(2) by (simp add: SCHED_TABLE_SIZE_def)
    then have "unat (fold (\<lambda>n t. t + of_nat n) ?n (0 :: u32)) = sum_list ?n"
      using unat_fold_add [of 0 id ?n] by simp
    from trim_slots_spec [OF n this] show ?thesis
      using assms(1) by (simp add: handler_slots_def Let_def)
  qed
  moreover have "sum_list xs = length xs" if "\<forall>x \<in> set xs. x = (1 :: nat)" for xs
    using that by (induction xs) auto
  ultimately show "length (handler_slots hs) = length hs" "\<forall>x \<in> set (handler_slots hs). 1 \<le> x"
    "sum_list (handler_slots hs) \<le> SCHED_TABLE_SIZE" using assms(2) by auto
qed

lemma slots_of_distinct:
  "distinct (map fst hs) \<Longrightarrow> i < length hs \<Longrightarrow> slots_of (fst (hs ! i)) hs = snd (hs ! i)"
proof (induction hs arbitrary: i)
  case (Cons e hs)
  have absent: "slots_of x hs = 0" if "x \<notin> fst ` set hs" for x
    using that by (auto simp: slots_of_def image_iff)
  show ?case
  proof (cases i)
    case 0
    then show ?thesis using absent [of "fst e"] Cons.prems by (simp add: slots_of_def)
  next
    case (Suc j)
    have "fst (hs ! j) \<noteq> fst e" using Cons.prems Suc by (metis distinct.simps(2) in_set_conv_nth length_Cons length_map list.simps(9) not_less_eq nth_map)
    then show ?thesis using Cons Suc by (simp add: slots_of_def)
  qed
qed simp

lemma count_filled:
  "h \<noteq> z \<Longrightarrow> count_list (map (\<lambda>s. case s of None \<Rightarrow> z | Some x \<Rightarrow> x) tab) h = count_list tab (Some h)"
  by (induction tab) (auto split: option.splits)

lemma handlers_placed:
  assumes "total_frequency hs \<noteq> 0" "length hs \<le> SCHED_TABLE_SIZE" "distinct (map fst hs)"
    and "no_work \<notin> fst ` set hs" and "sum_list (map (unat \<circ> snd) hs) < 2 ^ 32"
  shows "\<exists>tab. add_list_of_handlers no_work hs = Some (Some tab) \<and> length tab = SCHED_TABLE_SIZE
    \<and> (\<forall>i < length hs. count_list tab (fst (hs ! i)) = handler_slots hs ! i \<and> 1 \<le> handler_slots hs ! i)"
proof -
  have ne: "hs \<noteq> []" using assms(1) by (auto simp: total_frequency_def)
  note sl = handler_slots_spec [OF ne assms(2,5,1)]
  let ?z = "zip (map fst hs) (handler_slots hs)"
  have z: "map snd ?z = handler_slots hs" "map fst ?z = map fst hs" "length ?z = length hs"
    using sl(1) by simp_all
  obtain tab where t: "place_all ?z 0 0 (replicate SCHED_TABLE_SIZE None) = Some tab"
    "length tab = SCHED_TABLE_SIZE"
    "\<forall>x. count_list tab (Some x) = count_list (replicate SCHED_TABLE_SIZE None) (Some x) + slots_of x ?z"
    using place_all_spec [of "replicate SCHED_TABLE_SIZE None" 0 ?z 0] sl(3) z(1)
    by (auto simp: SCHED_TABLE_SIZE_def count_list_replicate)
  let ?t = "map (\<lambda>s. case s of None \<Rightarrow> no_work | Some h \<Rightarrow> h) tab"
  have "count_list ?t (fst (hs ! i)) = handler_slots hs ! i \<and> 1 \<le> handler_slots hs ! i"
    if "i < length hs" for i
  proof -
    have "fst (hs ! i) \<noteq> no_work" using assms(4) that by (metis image_eqI nth_mem)
    moreover have "slots_of (fst (?z ! i)) ?z = snd (?z ! i)"
      using slots_of_distinct [of ?z i] z assms(3) that by simp
    ultimately show ?thesis using t(3) sl that
      by (auto simp: count_filled count_list_replicate)
  qed
  then show ?thesis using t(1,2) assms(1) by (auto simp: add_list_of_handlers_def)
qed

text \<open>
  C6. With at most 64 distinct handlers whose frequencies have a nonzero sum below \<open>2 ^ 32\<close>, building the
  slot table ends and gives 64 slots in which every handler owns exactly its trimmed share, at
  least one slot: no registered queue is left out of the sweep.
\<close>

theorem every_handler_gets_its_slots:
  assumes "total_frequency hs \<noteq> 0" "length hs \<le> SCHED_TABLE_SIZE" "distinct (map fst hs)"
    and "no_work \<notin> fst ` set hs" and "sum_list (map (unat \<circ> snd) hs) < 2 ^ 32"
  shows "\<exists>tab. add_list_of_handlers no_work hs = Some (Some tab) \<and> length tab = SCHED_TABLE_SIZE
    \<and> (\<forall>i < length hs. count_list tab (fst (hs ! i)) = handler_slots hs ! i \<and> 1 \<le> handler_slots hs ! i)"
  by (rule handlers_placed [OF assms])

definition default_handlers :: "(char \<times> u32) list" where
  "default_handlers = [(CHR ''t'', 16), (CHR ''n'', 1), (CHR ''p'', 16), (CHR ''b'', 64)]"

lemma default_normalized:
  "normalized_slots 97 16 = 11" "normalized_slots 97 1 = 1" "normalized_slots 97 64 = 42"
  by (simp_all add: normalized_slots_def SCHED_TABLE_SIZE_def Let_def)

lemma default_handler_slots: "handler_slots default_handlers = [11, 1, 11, 41]"
proof -
  have "total_frequency default_handlers = 97"
    by (simp add: total_frequency_def default_handlers_def)
  then have "handler_slots default_handlers = trim_slots [11, 1, 11, 42] 65"
    by (simp add: handler_slots_def default_handlers_def default_normalized)
  also have "\<dots> = [11, 1, 11, 41]"
    by (simp add: trim_slots.simps [of _ 65] trim_slots.simps [of _ 64] SCHED_TABLE_SIZE_def Let_def)
  finally show ?thesis .
qed

theorem every_handler_gets_its_slots_witness:
  "\<exists>tab. add_list_of_handlers CHR ''-'' default_handlers = Some (Some tab)
     \<and> count_list tab CHR ''n'' = 1 \<and> count_list tab CHR ''p'' = 11"
proof -
  have "total_frequency default_handlers \<noteq> 0" by (simp add: default_handlers_def total_frequency_def)
  moreover have "length default_handlers = 4" "distinct (map fst default_handlers)"
    "CHR ''-'' \<notin> fst ` set default_handlers" "sum_list (map (unat \<circ> snd) default_handlers) < 2 ^ 32"
    by (simp_all add: default_handlers_def)
  ultimately obtain tab where "add_list_of_handlers CHR ''-'' default_handlers = Some (Some tab)"
    "\<forall>i < 4. count_list tab (fst (default_handlers ! i)) = handler_slots default_handlers ! i"
    using every_handler_gets_its_slots [of default_handlers "CHR ''-''"]
    by (auto simp: SCHED_TABLE_SIZE_def)
  moreover from this(2) have "count_list tab (fst (default_handlers ! 1)) = [11, 1, 11, 41] ! 1"
    "count_list tab (fst (default_handlers ! 2)) = [11, 1, 11, 41] ! 2"
    unfolding default_handler_slots by simp_all
  ultimately show ?thesis by (auto simp: default_handlers_def)
qed

text \<open>
  The frequencies and the shares are added in 32 bits, and shares whose sum wraps are not trimmed.
  Of three handlers with these frequencies the first then takes every slot and the others are never polled.
\<close>

lemma place_handler_fills:
  assumes "length tab = SCHED_TABLE_SIZE" "count_list tab None + ta = SCHED_TABLE_SIZE"
    and "SCHED_TABLE_SIZE \<le> ta + n" "index < SCHED_TABLE_SIZE"
  shows "\<exists>tab'. place_handler h st n index ta tab = Some (tab', SCHED_TABLE_SIZE) \<and> length tab' = SCHED_TABLE_SIZE
    \<and> (\<forall>x. count_list tab' (Some x) = count_list tab (Some x) + (if x = h then SCHED_TABLE_SIZE - ta else 0))"
  using assms
proof (induction n arbitrary: index ta tab)
  case (Suc n)
  show ?case
  proof (cases "ta = SCHED_TABLE_SIZE")
    case False
    have "0 < count_list tab None" using Suc.prems False by linarith
    then have "None \<in> set tab" by (simp add: count_list_0_iff neq0_conv [symmetric] del: neq0_conv)
    then obtain i where i: "i < SCHED_TABLE_SIZE" "next_free SCHED_TABLE_SIZE tab index = Some i" "tab ! i = None"
      using next_free_found Suc.prems(1,4) by blast
    have c: "count_list (tab[i := Some h]) None + (ta + 1) = SCHED_TABLE_SIZE"
      "count_list (tab[i := Some h]) (Some x) = count_list tab (Some x) + (if x = h then 1 else 0)" for x
      using count_list_update_None [of i tab h x] i Suc.prems(1,2) by auto
    have "(i + st) mod SCHED_TABLE_SIZE < SCHED_TABLE_SIZE" by (simp add: SCHED_TABLE_SIZE_def)
    then obtain tab' where "place_handler h st n ((i + st) mod SCHED_TABLE_SIZE) (ta + 1) (tab[i := Some h])
        = Some (tab', SCHED_TABLE_SIZE)" "length tab' = SCHED_TABLE_SIZE"
      "\<forall>x. count_list tab' (Some x) = count_list (tab[i := Some h]) (Some x) + (if x = h then SCHED_TABLE_SIZE - (ta + 1) else 0)"
      using Suc.IH [of "tab[i := Some h]" "ta + 1" "(i + st) mod SCHED_TABLE_SIZE"] c(1) Suc.prems by auto
    then show ?thesis using i c Suc.prems(2) False by auto
  qed (use Suc.prems in simp)
qed simp

lemma place_all_full: "SCHED_TABLE_SIZE \<le> ta \<Longrightarrow> place_all hs ci ta tab = Some tab"
proof (induction hs arbitrary: ci)
  case (Cons e hs)
  obtain h n where e: "e = (h, n)" by force
  have "place_handler h (SCHED_TABLE_SIZE div n) n ci ta tab = Some (tab, ta)" using Cons.prems by (cases n) simp_all
  then show ?case using Cons e by simp
qed simp

definition wrapping_handlers :: "(char \<times> u32) list" where
  "wrapping_handlers = [(CHR ''a'', 67108863), (CHR ''b'', 67108863), (CHR ''c'', 4160749571)]"

lemma wrapping_shares: "handler_slots wrapping_handlers = [4294967232, 4294967232, 192]"
proof -
  have "total_frequency wrapping_handlers = 1" by (simp add: total_frequency_def wrapping_handlers_def)
  moreover have "normalized_slots 1 67108863 = 4294967232" "normalized_slots 1 4160749571 = 192"
    by (simp_all add: normalized_slots_def SCHED_TABLE_SIZE_def Let_def)
  moreover have "(8589934656 :: u32) = 64" by simp
  then have "trim_slots sl 8589934656 = sl" for sl by (simp add: trim_slots.simps [of sl] SCHED_TABLE_SIZE_def)
  ultimately show ?thesis by (simp add: handler_slots_def wrapping_handlers_def)
qed

theorem wrapped_shares_starve_handlers:
  "\<exists>tab. add_list_of_handlers CHR ''-'' wrapping_handlers = Some (Some tab)
     \<and> count_list tab CHR ''a'' = 64 \<and> count_list tab CHR ''b'' = 0 \<and> count_list tab CHR ''c'' = 0"
proof -
  let ?e = "replicate SCHED_TABLE_SIZE None :: char slot_table"
  obtain tab where t: "place_handler CHR ''a'' (SCHED_TABLE_SIZE div 4294967232) 4294967232 0 0 ?e = Some (tab, SCHED_TABLE_SIZE)"
      "\<And>x. count_list tab (Some x) = count_list ?e (Some x) + (if x = CHR ''a'' then SCHED_TABLE_SIZE - 0 else 0)"
    using place_handler_fills [of ?e 0 4294967232 0 "CHR ''a''"] by (auto simp: SCHED_TABLE_SIZE_def count_list_replicate)
  have "zip (map fst wrapping_handlers) (handler_slots wrapping_handlers)
      = [(CHR ''a'', 4294967232), (CHR ''b'', 4294967232), (CHR ''c'', 192)]"
    unfolding wrapping_shares by (simp add: wrapping_handlers_def)
  moreover have "total_frequency wrapping_handlers \<noteq> 0" by (simp add: total_frequency_def wrapping_handlers_def)
  moreover have "place_all [(CHR ''a'', 4294967232), (CHR ''b'', 4294967232), (CHR ''c'', 192)] 0 0 ?e = Some tab"
    unfolding place_all.simps(2) [of "CHR ''a''"] t(1) by (simp add: place_all_full del: place_all.simps)
  ultimately have "add_list_of_handlers CHR ''-'' wrapping_handlers
      = Some (Some (map (\<lambda>s. case s of None \<Rightarrow> CHR ''-'' | Some h \<Rightarrow> h) tab))"
    by (simp add: add_list_of_handlers_def)
  then show ?thesis using t(2) by (simp add: count_filled count_list_replicate SCHED_TABLE_SIZE_def)
qed

text \<open>
  After \<open>add_handler\<close> the group of a slot lists exactly the handlers whose mask has the slot's
  bit, and the mask given to the new handler has bit \<open>b\<close> exactly when the slot plus the phase is a
  multiple of the period, clamped to the table size.
\<close>

theorem add_handler_groups:
  assumes "b < SCHED_TABLE_SIZE" "p = min per SCHED_TABLE_SIZE"
  shows "g_groups (add_handler f per ph r) ! b
    = map fn (filter (\<lambda>h. bit (mask h) b) (g_handlers r))
      @ (if per \<noteq> 0 \<and> (b + ph mod p) mod p = 0 then [f] else [])"
  using assms
  by (auto simp: add_handler_def set_frequency_def Let_def groups_rebuilt bit_make_mask min_def
      SCHED_TABLE_SIZE_def)

theorem add_handler_groups_witness:
  "g_groups (add_handler CHR ''a'' 16 0 \<lparr>g_handlers = [], g_groups = []\<rparr>) ! 32 = ''a''"
  using add_handler_groups [of 32 16 16 "CHR ''a''" 0 "\<lparr>g_handlers = [], g_groups = []\<rparr>"]
  by (simp add: SCHED_TABLE_SIZE_def)

end
