(* ===== verification/Scheduler.thy ===== *)
theory Scheduler
  imports Prio_Queue Conv_Queues Sched_Registry
begin

text \<open>
  The scheduler loops: the shared pieces of \<^verbatim>\<open>scheduler.cpp\<close>, the message sources of
  \<^verbatim>\<open>scheduler_take.h\<close> and the default, registration-based loop of
  \<^verbatim>\<open>scheduler_registered.cpp\<close>.

  The state of a PE is the record \<open>sched\<close>. What the loop calls into is a record of functions:
  the message handlers of the application, the condition callbacks, the network backend, the
  shared-memory inbox, the dequeue of the concurrent queue, the outcome of a try-lock and the
  clock (in microseconds). A poll returns the message it ran with its source, so the boolean of
  the code is "not \<open>None\<close>" and the sequence of messages a loop runs can be stated.
\<close>

section \<open>State and environment\<close>

record ('q, 'm) sched =
  thread_q :: "'q atomic_ac"
  node_q :: "'q atomic_ac"
  node_prio :: "'m pqueue"
  node_len :: int
  sched_q :: "'m pqueue"
  idle_condition :: bool
  idle_time :: int
  stopFlag :: bool
  t_nodeStreak :: int
  t_progressFoundNothing :: bool
  t_pollsProgress :: "bool option"

record ('q, 'm) sched_env =
  handle_msg :: "'m \<Rightarrow> ('q, 'm) sched \<Rightarrow> ('q, 'm) sched"
  raise_condition :: "int \<Rightarrow> ('q, 'm) sched \<Rightarrow> ('q, 'm) sched"
  csd_periodic :: "('q, 'm) sched \<Rightarrow> ('q, 'm) sched"
  backend_progress :: "('q, 'm) sched \<Rightarrow> bool \<times> ('q, 'm) sched"
  deliver_inbox :: "(('q, 'm) sched \<Rightarrow> nat \<times> ('q, 'm) sched) option"
  try_deq :: "'q \<Rightarrow> ('m \<times> 'q) option"
  try_lock :: "('q, 'm) sched \<Rightarrow> bool"
  wall_timer :: "('q, 'm) sched \<Rightarrow> int"
  my_rank :: int
  thread_must_poll :: bool
  backend_poll_thread :: int
  backend_poll_freq :: int
  node_queue_max :: int
  thread_queue_max :: int

text \<open>Conditions the scheduler raises.\<close>

definition CcdSCHEDLOOP :: int where "CcdSCHEDLOOP = 0"
definition CcdPROCESSOR_END_IDLE :: int where "CcdPROCESSOR_END_IDLE = 1"
definition CcdPROCESSOR_BEGIN_IDLE :: int where "CcdPROCESSOR_BEGIN_IDLE = 2"
definition CcdPROCESSOR_STILL_IDLE :: int where "CcdPROCESSOR_STILL_IDLE = 3"
definition CcdPROCESSOR_LONG_IDLE :: int where "CcdPROCESSOR_LONG_IDLE = 4"

section \<open>Shared pieces\<close>

definition CmiSchedulerReleaseIdle :: "('q, 'm) sched_env \<Rightarrow> ('q, 'm) sched \<Rightarrow> ('q, 'm) sched" where
  "CmiSchedulerReleaseIdle env s =
     (if idle_condition s
      then raise_condition env CcdPROCESSOR_END_IDLE (s\<lparr>idle_condition := False\<rparr>)
      else s)"

definition CmiSchedulerSetIdle :: "('q, 'm) sched_env \<Rightarrow> ('q, 'm) sched \<Rightarrow> ('q, 'm) sched" where
  "CmiSchedulerSetIdle env s =
     (if \<not> idle_condition s
      then raise_condition env CcdPROCESSOR_BEGIN_IDLE
             (s\<lparr>idle_condition := True, idle_time := wall_timer env s\<rparr>)
      else (let s1 = raise_condition env CcdPROCESSOR_STILL_IDLE s
            in if wall_timer env s1 - idle_time s1 > 10000000
               then raise_condition env CcdPROCESSOR_LONG_IDLE s1 else s1))"

definition CmiSchedulerPollIpc ::
  "('q, 'm) sched_env \<Rightarrow> ('q, 'm) sched \<Rightarrow> bool \<times> ('q, 'm) sched" where
  "CmiSchedulerPollIpc env s =
     (case deliver_inbox env of
        None \<Rightarrow> (False, s)
      | Some deliver \<Rightarrow> (let (n, s1) = deliver s in (n > 0, s1)))"

section \<open>Taking one message from a source\<close>

definition CmiTakeNodeQueue ::
  "('q, 'm) sched_env \<Rightarrow> ('q, 'm) sched \<Rightarrow> 'm option \<times> ('q, 'm) sched" where
  "CmiTakeNodeQueue env s =
     (let (e, nq) = MPMCQueue_empty (node_q s)
      in if \<not> e
         then (let (r, nq') = MPMCQueue_pop (try_deq env) nq in (r, s\<lparr>node_q := nq'\<rparr>))
         else (None, s\<lparr>node_q := nq\<rparr>))"

definition CmiTakeThreadQueue ::
  "('q, 'm) sched_env \<Rightarrow> ('q, 'm) sched \<Rightarrow> 'm option \<times> ('q, 'm) sched" where
  "CmiTakeThreadQueue env s =
     (let (r, tq) = MPSCQueue_pop (try_deq env) (thread_q s) in (r, s\<lparr>thread_q := tq\<rparr>))"

definition CmiTakeNodePrioQueue ::
  "('q, 'm) sched_env \<Rightarrow> ('q, 'm) sched \<Rightarrow> 'm option \<times> ('q, 'm) sched" where
  "CmiTakeNodePrioQueue env s =
     (if node_len s > 0 \<and> try_lock env s
      then (if \<not> QueueEmpty (Some (node_prio s))
            then (QueueTop (Some (node_prio s)),
                  s\<lparr>node_prio := queue_pop (node_prio s), node_len := node_len s - 1\<rparr>)
            else (None, s))
      else (None, s))"

definition CmiTakeNodePrioQueueIfAhead ::
  "('q, 'm) sched_env \<Rightarrow> ('q, 'm) sched \<Rightarrow> 'm option \<times> ('q, 'm) sched" where
  "CmiTakeNodePrioQueueIfAhead env s =
     (if node_len s > 0 \<and> try_lock env s
      then (if \<not> QueueEmpty (Some (node_prio s))
               \<and> QueueTopPriority (Some (node_prio s)) \<le> QueueTopPriority (Some (sched_q s))
            then (QueueTop (Some (node_prio s)),
                  s\<lparr>node_prio := queue_pop (node_prio s), node_len := node_len s - 1\<rparr>)
            else (None, s))
      else (None, s))"

definition CmiTakeThreadPrioQueue ::
  "('q, 'm) sched \<Rightarrow> 'm option \<times> ('q, 'm) sched" where
  "CmiTakeThreadPrioQueue s =
     (if \<not> QueueEmpty (Some (sched_q s))
      then (QueueTop (Some (sched_q s)), s\<lparr>sched_q := queue_pop (sched_q s)\<rparr>)
      else (None, s))"

text \<open>The macros that enqueue into the two priority queues.\<close>

definition CsdEnqueueGeneral ::
  "'m \<Rightarrow> int \<Rightarrow> int \<Rightarrow> u32 list \<Rightarrow> ('q, 'm) sched \<Rightarrow> ('q, 'm) sched option" where
  "CsdEnqueueGeneral msg strategy priobits prioptr s =
     (case CqsEnqueueGeneral (Some (sched_q s)) msg strategy priobits prioptr of
        Some (Some q) \<Rightarrow> Some (s\<lparr>sched_q := q\<rparr>) | _ \<Rightarrow> None)"

definition CsdNodeEnqueueGeneral ::
  "'m \<Rightarrow> int \<Rightarrow> int \<Rightarrow> u32 list \<Rightarrow> ('q, 'm) sched \<Rightarrow> ('q, 'm) sched option" where
  "CsdNodeEnqueueGeneral msg strategy priobits prioptr s =
     (case CqsEnqueueGeneral (Some (node_prio s)) msg strategy priobits prioptr of
        Some (Some q) \<Rightarrow> Some (s\<lparr>node_prio := q, node_len := node_len s + 1\<rparr>) | _ \<Rightarrow> None)"

section \<open>Poll handlers\<close>

datatype source = Thread_queue | Node_queue | Node_prio_queue | Thread_prio_queue

type_synonym ('q, 'm) poll_result = "(source \<times> 'm) option \<times> ('q, 'm) sched"

definition runTaken ::
  "('q, 'm) sched_env \<Rightarrow> source \<Rightarrow> 'm option \<times> ('q, 'm) sched \<Rightarrow> ('q, 'm) poll_result" where
  "runTaken env src t =
     (case t of
        (None, s) \<Rightarrow> (None, s)
      | (Some msg, s) \<Rightarrow> (Some (src, msg), handle_msg env msg (CmiSchedulerReleaseIdle env s)))"

definition pollConverseThreadQueue ::
  "('q, 'm) sched_env \<Rightarrow> ('q, 'm) sched \<Rightarrow> ('q, 'm) poll_result" where
  "pollConverseThreadQueue env s = runTaken env Thread_queue (CmiTakeThreadQueue env s)"

definition pollNodePrioQueue ::
  "('q, 'm) sched_env \<Rightarrow> ('q, 'm) sched \<Rightarrow> ('q, 'm) poll_result" where
  "pollNodePrioQueue env s = runTaken env Node_prio_queue (CmiTakeNodePrioQueue env s)"

definition pollThreadPrioQueue ::
  "('q, 'm) sched_env \<Rightarrow> ('q, 'm) sched \<Rightarrow> ('q, 'm) poll_result" where
  "pollThreadPrioQueue env s = runTaken env Thread_prio_queue (CmiTakeThreadPrioQueue s)"

definition pollNodeQueuesFirst ::
  "('q, 'm) sched_env \<Rightarrow> ('q, 'm) sched \<Rightarrow> ('q, 'm) poll_result" where
  "pollNodeQueuesFirst env s =
     (if t_nodeStreak s \<ge> node_queue_max env \<and> \<not> QueueEmpty (Some (sched_q s))
      then (None, s\<lparr>t_nodeStreak := 0\<rparr>)
      else (case runTaken env Node_queue (CmiTakeNodeQueue env s) of
              (Some e, s1) \<Rightarrow> (Some e, s1\<lparr>t_nodeStreak := t_nodeStreak s1 + 1\<rparr>)
            | (None, s1) \<Rightarrow>
                (case runTaken env Node_prio_queue (CmiTakeNodePrioQueueIfAhead env s1) of
                   (Some e, s2) \<Rightarrow> (Some e, s2\<lparr>t_nodeStreak := t_nodeStreak s2 + 1\<rparr>)
                 | (None, s2) \<Rightarrow> (None, s2\<lparr>t_nodeStreak := 0\<rparr>))))"

definition pollProgress ::
  "('q, 'm) sched_env \<Rightarrow> ('q, 'm) sched \<Rightarrow> ('q, 'm) poll_result" where
  "pollProgress env s =
     (if t_progressFoundNothing s then (None, s)
      else (let polls = (case t_pollsProgress s of
                           Some b \<Rightarrow> b
                         | None \<Rightarrow> my_rank env mod backend_poll_thread env = 0 \<or> thread_must_poll env);
                s1 = s\<lparr>t_pollsProgress := Some polls\<rparr>
            in if polls
               then (case backend_progress env s1 of
                       (True, s2) \<Rightarrow>
                         (case pollConverseThreadQueue env s2 of
                            (Some e, s3) \<Rightarrow> (Some e, s3)
                          | (None, s3) \<Rightarrow> pollNodeQueuesFirst env s3)
                     | (False, s2) \<Rightarrow> (None, s2\<lparr>t_progressFoundNothing := True\<rparr>))
               else (None, s1)))"

text \<open>The values of a slot: the registered handlers and the one that fills free slots.\<close>

datatype handler = H_thread | H_node_prio | H_thread_prio | H_progress | H_no_work

definition call_handler ::
  "('q, 'm) sched_env \<Rightarrow> handler \<Rightarrow> ('q, 'm) sched \<Rightarrow> ('q, 'm) poll_result" where
  "call_handler env h s =
     (case h of
        H_thread \<Rightarrow> pollConverseThreadQueue env s
      | H_node_prio \<Rightarrow> pollNodePrioQueue env s
      | H_thread_prio \<Rightarrow> pollThreadPrioQueue env s
      | H_progress \<Rightarrow> pollProgress env s
      | H_no_work \<Rightarrow> (None, s))"

definition CmiQueueRegisterInitThread :: "('q, 'm) sched_env \<Rightarrow> handler list option option" where
  "CmiQueueRegisterInitThread env =
     add_list_of_handlers H_no_work
       [(H_thread, 16), (H_node_prio, 1), (H_thread_prio, 16), (H_progress, of_int (backend_poll_freq env))]"

definition CmiQueueRegisterInit :: "('q, 'm) sched_env \<Rightarrow> handler registry \<Rightarrow> handler registry" where
  "CmiQueueRegisterInit env r =
     add_handler H_progress (nat (backend_poll_freq env)) 0
       (add_handler H_thread_prio 16 0 (add_handler H_node_prio 1 0 (add_handler H_thread 16 0 r)))"

section \<open>The registered loop\<close>

text \<open>
  The sweep over the slot table: \<open>n\<close> slots remain, the slot called next is the loop counter plus
  the number of slots already called, masked to the table.
\<close>

fun sweep ::
  "('q, 'm) sched_env \<Rightarrow> handler list \<Rightarrow> nat \<Rightarrow> nat \<Rightarrow> ('q, 'm) sched \<Rightarrow> ('q, 'm) poll_result" where
  "sweep env tab loop_counter 0 s = (None, s)"
| "sweep env tab loop_counter (Suc n) s =
     (case call_handler env (tab ! ((loop_counter + (SCHED_TABLE_SIZE - Suc n)) mod SCHED_TABLE_SIZE)) s of
        (Some e, s1) \<Rightarrow> (Some e, s1)
      | (None, s1) \<Rightarrow> sweep env tab loop_counter n s1)"

text \<open>One iteration up to the idle test: the message run, whether the inbox had work, the state.\<close>

definition registered_iteration ::
  "('q, 'm) sched_env \<Rightarrow> handler list \<Rightarrow> nat \<Rightarrow> ('q, 'm) sched
     \<Rightarrow> (source \<times> 'm) option \<times> bool \<times> ('q, 'm) sched" where
  "registered_iteration env tab loop_counter s =
     (let s1 = (raise_condition env CcdSCHEDLOOP s)\<lparr>t_progressFoundNothing := False\<rparr>;
          (ipcDone, s2) = CmiSchedulerPollIpc env s1
      in case pollConverseThreadQueue env s2 of
           (Some e, s3) \<Rightarrow> (Some e, ipcDone, s3)
         | (None, s3) \<Rightarrow>
             (case pollNodeQueuesFirst env s3 of
                (Some e, s4) \<Rightarrow> (Some e, ipcDone, s4)
              | (None, s4) \<Rightarrow>
                  (case sweep env tab loop_counter SCHED_TABLE_SIZE s4 of
                     (w, s5) \<Rightarrow> (w, ipcDone, s5))))"

text \<open>
  The loops, with fuel: \<open>None\<close> is a loop that has not ended after \<open>fuel\<close> iterations. The
  result lists the messages run.
\<close>

fun CsdSchedulerRegistered ::
  "nat \<Rightarrow> ('q, 'm) sched_env \<Rightarrow> handler list \<Rightarrow> nat \<Rightarrow> ('q, 'm) sched
     \<Rightarrow> ((source \<times> 'm) list \<times> ('q, 'm) sched) option" where
  "CsdSchedulerRegistered 0 env tab loop_counter s = None"
| "CsdSchedulerRegistered (Suc fuel) env tab loop_counter s =
     (if stopFlag s then Some ([], s)
      else (let (w, ipcDone, s1) = registered_iteration env tab loop_counter s;
                s2 = (if w = None \<and> \<not> ipcDone then CmiSchedulerSetIdle env s1 else s1)
            in map_option (\<lambda>(ms, s'). ((case w of None \<Rightarrow> ms | Some e \<Rightarrow> e # ms), s'))
                 (CsdSchedulerRegistered fuel env tab (loop_counter + 1) (csd_periodic env s2))))"

fun CsdSchedulePollRegistered ::
  "nat \<Rightarrow> ('q, 'm) sched_env \<Rightarrow> handler list \<Rightarrow> nat \<Rightarrow> ('q, 'm) sched
     \<Rightarrow> ((source \<times> 'm) list \<times> ('q, 'm) sched) option" where
  "CsdSchedulePollRegistered 0 env tab loop_counter s = None"
| "CsdSchedulePollRegistered (Suc fuel) env tab loop_counter s =
     (let (w, ipcDone, s1) = registered_iteration env tab loop_counter s
      in if w = None \<and> \<not> ipcDone then Some ([], CmiSchedulerSetIdle env s1)
         else map_option (\<lambda>(ms, s'). ((case w of None \<Rightarrow> ms | Some e \<Rightarrow> e # ms), s'))
                (CsdSchedulePollRegistered fuel env tab (loop_counter + 1) (csd_periodic env s1)))"

section \<open>What a poll does to the queues\<close>

definition queues :: "('q, 'm) sched \<Rightarrow> 'q atomic_ac \<times> 'q atomic_ac \<times> 'm pqueue \<times> int \<times> 'm pqueue" where
  "queues s = (thread_q s, node_q s, node_prio s, node_len s, sched_q s)"

text \<open>
  An environment that adds no messages: handlers, callbacks and progress leave the queues alone,
  there is no shared-memory inbox and the node queue's lock is free.
\<close>

definition quiet_env :: "('q, 'm) sched_env \<Rightarrow> bool" where
  "quiet_env env \<longleftrightarrow>
     (\<forall>m s. queues (handle_msg env m s) = queues s) \<and> (\<forall>c s. queues (raise_condition env c s) = queues s)
     \<and> (\<forall>s. queues (csd_periodic env s) = queues s)
     \<and> (\<forall>s. fst (backend_progress env s) = False \<and> queues (snd (backend_progress env s)) = queues s)
     \<and> deliver_inbox env = None \<and> (\<forall>s. try_lock env s)"

definition sched_ok :: "('q \<Rightarrow> 'm multiset) \<Rightarrow> ('q, 'm) sched \<Rightarrow> bool" where
  "sched_ok contents s \<longleftrightarrow>
     concurrent_queue.counts_ok contents True (thread_q s)
     \<and> concurrent_queue.counts_ok contents False (node_q s)
     \<and> pq_inv (node_prio s) \<and> pq_inv (sched_q s) \<and> node_len s = qsize (node_prio s)"

text \<open>The number of messages each source holds.\<close>

definition held :: "('q \<Rightarrow> 'm multiset) \<Rightarrow> ('q, 'm) sched \<Rightarrow> source \<Rightarrow> nat" where
  "held contents s src =
     (case src of
        Thread_queue \<Rightarrow> size (contents (cq (thread_q s)))
      | Node_queue \<Rightarrow> size (contents (cq (node_q s)))
      | Node_prio_queue \<Rightarrow> length (entries (node_prio s))
      | Thread_prio_queue \<Rightarrow> length (entries (sched_q s)))"

text \<open>All messages the four queues hold.\<close>

definition msgs :: "('q \<Rightarrow> 'm multiset) \<Rightarrow> ('q, 'm) sched \<Rightarrow> 'm multiset" where
  "msgs contents s = contents (cq (thread_q s)) + contents (cq (node_q s))
     + mset (map snd (entries (node_prio s))) + mset (map snd (entries (sched_q s)))"

text \<open>
  A take from \<open>src\<close> either finds the source empty and changes no queue's contents, or removes
  one message from it and returns it.
\<close>

definition poll_effect ::
  "('q \<Rightarrow> 'm multiset) \<Rightarrow> source \<Rightarrow> ('q, 'm) sched \<Rightarrow> 'm option \<times> ('q, 'm) sched \<Rightarrow> bool" where
  "poll_effect contents src s r \<longleftrightarrow> sched_ok contents (snd r)
     \<and> (case fst r of
          None \<Rightarrow> held contents (snd r) = held contents s \<and> msgs contents (snd r) = msgs contents s
        | Some m \<Rightarrow> 0 < held contents s src
            \<and> held contents (snd r) = (held contents s)(src := held contents s src - 1)
            \<and> msgs contents s = add_mset m (msgs contents (snd r)))"

text \<open>The same for a poll, which runs the message it takes.\<close>

definition one_less ::
  "('q \<Rightarrow> 'm multiset) \<Rightarrow> ('q, 'm) sched \<Rightarrow> ('q, 'm) poll_result \<Rightarrow> bool" where
  "one_less contents s r \<longleftrightarrow> sched_ok contents (snd r)
     \<and> (case fst r of
          None \<Rightarrow> held contents (snd r) = held contents s \<and> msgs contents (snd r) = msgs contents s
        | Some e \<Rightarrow> msgs contents s = add_mset (snd e) (msgs contents (snd r)))"

lemma queues_ok:
  assumes "queues s' = queues s"
  shows "sched_ok contents s' = sched_ok contents s" "held contents s' = held contents s"
    "msgs contents s' = msgs contents s"
  using assms by (auto simp: queues_def sched_ok_def held_def msgs_def fun_eq_iff split: source.split)

lemma queues_upd [simp]:
  "queues (s\<lparr>t_nodeStreak := n\<rparr>) = queues s" "queues (s\<lparr>t_progressFoundNothing := b\<rparr>) = queues s"
  "queues (s\<lparr>t_pollsProgress := pp\<rparr>) = queues s" "queues (s\<lparr>idle_condition := b\<rparr>) = queues s"
  "queues (s\<lparr>idle_time := n\<rparr>) = queues s"
  by (simp_all add: queues_def)

lemma ReleaseIdle_queues:
  "quiet_env env \<Longrightarrow> queues (CmiSchedulerReleaseIdle env s) = queues s"
  by (simp add: quiet_env_def CmiSchedulerReleaseIdle_def)

lemma SetIdle_queues: "quiet_env env \<Longrightarrow> queues (CmiSchedulerSetIdle env s) = queues s"
  by (simp add: quiet_env_def CmiSchedulerSetIdle_def Let_def)

lemma runTaken_effect:
  assumes "quiet_env env" "poll_effect contents src s t"
  shows "one_less contents s (runTaken env src' t)"
    "fst (runTaken env src' t) = None \<longleftrightarrow> fst t = None"
proof -
  obtain r s1 where t: "t = (r, s1)" by force
  have "queues (handle_msg env m (CmiSchedulerReleaseIdle env s1)) = queues s1" for m
    using assms(1) ReleaseIdle_queues [OF assms(1)] by (simp add: quiet_env_def)
  note q = queues_ok [OF this]
  show "one_less contents s (runTaken env src' t)"
    "fst (runTaken env src' t) = None \<longleftrightarrow> fst t = None"
    using assms(2) by (cases r; simp add: runTaken_def t poll_effect_def one_less_def q)+
qed

lemma pq_take_effect:
  assumes "pq_inv q" "qsize q \<noteq> 0"
  shows "\<exists>m. queue_top q = Some m \<and> mset (map snd (entries q)) = add_mset m (mset (map snd (entries (queue_pop q))))"
    "pq_inv (queue_pop q)"
    "length (entries (queue_pop q)) = length (entries q) - 1" "entries q \<noteq> []"
    "qsize (queue_pop q) = qsize q - 1"
proof -
  show ne: "entries q \<noteq> []" using assms by (simp add: qsize_zero_iff)
  then show "\<exists>m. queue_top q = Some m \<and> mset (map snd (entries q)) = add_mset m (mset (map snd (entries (queue_pop q))))"
    using assms(1) queue_pop_impl [OF assms(1)] by (cases "entries q") (auto simp: queue_top_impl)
  show p: "pq_inv (queue_pop q)" using queue_pop_impl [OF assms(1)] by simp
  show l: "length (entries (queue_pop q)) = length (entries q) - 1"
    using queue_pop_impl [OF assms(1)] by simp
  have "qsize q = int (length (entries q))" "qsize (queue_pop q) = int (length (entries (queue_pop q)))"
    using p assms(1) by (simp_all add: pq_inv_def)
  then show "qsize (queue_pop q) = qsize q - 1" using l ne by (cases "entries q") simp_all
qed

lemma take_thread_prio_effect:
  assumes "sched_ok contents s"
  shows "poll_effect contents Thread_prio_queue s (CmiTakeThreadPrioQueue s)"
    "fst (CmiTakeThreadPrioQueue s) = None \<longleftrightarrow> held contents s Thread_prio_queue = 0"
proof -
  have q: "pq_inv (sched_q s)" using assms by (simp add: sched_ok_def)
  note t = pq_take_effect [OF q]
  show "poll_effect contents Thread_prio_queue s (CmiTakeThreadPrioQueue s)"
    using assms t
    by (auto simp: CmiTakeThreadPrioQueue_def poll_effect_def sched_ok_def held_def msgs_def fun_eq_iff
        QueueEmpty_def QueueTop_def split: source.split)
  show "fst (CmiTakeThreadPrioQueue s) = None \<longleftrightarrow> held contents s Thread_prio_queue = 0"
    using t(1) q by (auto simp: CmiTakeThreadPrioQueue_def held_def QueueEmpty_def QueueTop_def qsize_zero_iff)
qed

lemma take_node_prio_effect:
  assumes "sched_ok contents s" "quiet_env env"
  shows "poll_effect contents Node_prio_queue s (CmiTakeNodePrioQueue env s)"
    "poll_effect contents Node_prio_queue s (CmiTakeNodePrioQueueIfAhead env s)"
    "fst (CmiTakeNodePrioQueue env s) = None \<longleftrightarrow> held contents s Node_prio_queue = 0"
proof -
  have q: "pq_inv (node_prio s)" "node_len s = qsize (node_prio s)" "try_lock env s"
    using assms by (simp_all add: sched_ok_def quiet_env_def)
  note t = pq_take_effect [OF q(1)]
  show "poll_effect contents Node_prio_queue s (CmiTakeNodePrioQueue env s)"
    "poll_effect contents Node_prio_queue s (CmiTakeNodePrioQueueIfAhead env s)"
    using assms(1) t q(2)
    by (auto simp: CmiTakeNodePrioQueue_def CmiTakeNodePrioQueueIfAhead_def poll_effect_def sched_ok_def
        held_def msgs_def fun_eq_iff QueueEmpty_def QueueTop_def split: source.split)
  have "0 \<le> qsize (node_prio s)" using q(1) by (simp add: pq_inv_def)
  then show "fst (CmiTakeNodePrioQueue env s) = None \<longleftrightarrow> held contents s Node_prio_queue = 0"
    using t(1) q
    by (auto simp: CmiTakeNodePrioQueue_def held_def QueueEmpty_def QueueTop_def qsize_zero_iff)
qed

context concurrent_queue
begin

lemma ac_pop_size:
  assumes "counts_ok k a" "ac_pop_result try_dequeue k a = (r, a')"
  shows "counts_ok k a'" "r = None \<longleftrightarrow> size (contents (cq a)) = 0"
    "r = None \<Longrightarrow> contents (cq a') = contents (cq a)"
    "r = Some m \<Longrightarrow> contents (cq a) = add_mset m (contents (cq a'))"
  using ac_pop_counts [OF assms] by (auto split: option.splits)

lemma ac_empty_size:
  assumes "counts_ok k a" "ac_empty k a = (e, a')"
  shows "counts_ok k a'" "cq a' = cq a" "e \<longleftrightarrow> size (contents (cq a)) = 0"
proof -
  obtain n a1 where av: "available k a = (n, a1)" by force
  show "counts_ok k a'" "cq a' = cq a" "e \<longleftrightarrow> size (contents (cq a)) = 0"
    using available_counts [OF assms(1) av] assms(2) av by (auto simp: ac_empty_def)
qed

lemma take_thread_effect:
  assumes "sched_ok contents s" "try_deq env = try_dequeue"
  shows "poll_effect contents Thread_queue s (CmiTakeThreadQueue env s)"
    "fst (CmiTakeThreadQueue env s) = None \<longleftrightarrow> held contents s Thread_queue = 0"
proof -
  obtain r tq where t: "ac_pop_result try_dequeue True (thread_q s) = (r, tq)" by force
  have "counts_ok True (thread_q s)" using assms(1) by (simp add: sched_ok_def)
  note a = ac_pop_size [OF this t]
  have eq: "CmiTakeThreadQueue env s = (r, s\<lparr>thread_q := tq\<rparr>)"
    using assms(2) t by (simp add: CmiTakeThreadQueue_def MPSCQueue_pop_def)
  show "poll_effect contents Thread_queue s (CmiTakeThreadQueue env s)"
    unfolding eq using assms(1) a
    by (cases r) (auto simp: poll_effect_def sched_ok_def held_def msgs_def fun_eq_iff split: source.split)
  show "fst (CmiTakeThreadQueue env s) = None \<longleftrightarrow> held contents s Thread_queue = 0"
    unfolding eq using a(2) by (simp add: held_def)
qed

lemma take_node_effect:
  assumes "sched_ok contents s" "try_deq env = try_dequeue"
  shows "poll_effect contents Node_queue s (CmiTakeNodeQueue env s)"
    "fst (CmiTakeNodeQueue env s) = None \<longleftrightarrow> held contents s Node_queue = 0"
proof -
  obtain e nq where e: "ac_empty False (node_q s) = (e, nq)" by force
  obtain r nq' where t: "ac_pop_result try_dequeue False nq = (r, nq')" by force
  have "counts_ok False (node_q s)" using assms(1) by (simp add: sched_ok_def)
  note e' = ac_empty_size [OF this e]
  note a = ac_pop_size [OF e'(1) t]
  have eq: "CmiTakeNodeQueue env s = (if e then (None, s\<lparr>node_q := nq\<rparr>) else (r, s\<lparr>node_q := nq'\<rparr>))"
    using assms(2) t e by (simp add: CmiTakeNodeQueue_def MPMCQueue_pop_def MPMCQueue_empty_def)
  show "poll_effect contents Node_queue s (CmiTakeNodeQueue env s)"
    unfolding eq using assms(1) a e'
    by (cases r) (auto simp: poll_effect_def sched_ok_def held_def msgs_def fun_eq_iff split: source.split)
  show "fst (CmiTakeNodeQueue env s) = None \<longleftrightarrow> held contents s Node_queue = 0"
    unfolding eq using a(2) e' by (auto simp: held_def)
qed

end

text \<open>
  What a poll handler does, whatever its source: one message less, or nothing changed; and a
  handler that finds nothing leaves its own source empty.
\<close>

definition total_held :: "('q \<Rightarrow> 'm multiset) \<Rightarrow> ('q, 'm) sched \<Rightarrow> nat" where
  "total_held contents s = held contents s Thread_queue + held contents s Node_queue
     + held contents s Node_prio_queue + held contents s Thread_prio_queue"

lemma total_held_msgs: "total_held contents s = size (msgs contents s)"
  by (simp add: total_held_def held_def msgs_def)

lemma one_less_trans:
  "one_less contents s (None, s1) \<Longrightarrow> one_less contents s1 r \<Longrightarrow> one_less contents s r"
  by (auto simp: one_less_def split: option.splits)

lemma one_less_queues:
  "one_less contents s (w, s1) \<Longrightarrow> queues s2 = queues s1 \<Longrightarrow> one_less contents s (w, s2)"
  using queues_ok [of s2 s1 contents] by (cases w) (simp_all add: one_less_def)

definition source_of :: "handler \<Rightarrow> source option" where
  "source_of h = (case h of H_thread \<Rightarrow> Some Thread_queue | H_node_prio \<Rightarrow> Some Node_prio_queue
     | H_thread_prio \<Rightarrow> Some Thread_prio_queue | H_progress \<Rightarrow> None | H_no_work \<Rightarrow> None)"

context concurrent_queue
begin

lemma poll_thread_effect:
  assumes "sched_ok contents s" "try_deq env = try_dequeue" "quiet_env env"
  shows "one_less contents s (pollConverseThreadQueue env s)"
    "fst (pollConverseThreadQueue env s) = None \<longleftrightarrow> held contents s Thread_queue = 0"
  unfolding pollConverseThreadQueue_def
  using runTaken_effect(1) [OF assms(3) take_thread_effect(1) [OF assms(1,2)]] runTaken_effect(2) [OF assms(3) take_thread_effect(1) [OF assms(1,2)]]
    take_thread_effect(2) [OF assms(1,2)] by simp_all

lemma poll_node_prio_effect:
  assumes "sched_ok contents s" "quiet_env env"
  shows "one_less contents s (pollNodePrioQueue env s)"
    "fst (pollNodePrioQueue env s) = None \<longleftrightarrow> held contents s Node_prio_queue = 0"
  unfolding pollNodePrioQueue_def
  using runTaken_effect(1) [OF assms(2) take_node_prio_effect(1) [OF assms]] runTaken_effect(2) [OF assms(2) take_node_prio_effect(1) [OF assms]]
    take_node_prio_effect(3) [OF assms] by simp_all

lemma poll_thread_prio_effect:
  assumes "sched_ok contents s" "quiet_env env"
  shows "one_less contents s (pollThreadPrioQueue env s)"
    "fst (pollThreadPrioQueue env s) = None \<longleftrightarrow> held contents s Thread_prio_queue = 0"
  unfolding pollThreadPrioQueue_def
  using runTaken_effect(1) [OF assms(2) take_thread_prio_effect(1) [OF assms(1)]] runTaken_effect(2) [OF assms(2) take_thread_prio_effect(1) [OF assms(1)]]
    take_thread_prio_effect(2) [OF assms(1)] by simp_all

lemma poll_nodes_first_effect:
  assumes "sched_ok contents s" "try_deq env = try_dequeue" "quiet_env env"
  shows "one_less contents s (pollNodeQueuesFirst env s)"
    "fst (pollNodeQueuesFirst env s) = None \<Longrightarrow>
       held contents s Node_queue = 0 \<or> held contents s Thread_prio_queue \<noteq> 0"
proof -
  have q: "pq_inv (sched_q s)" using assms(1) by (simp add: sched_ok_def)
  let ?t1 = "runTaken env Node_queue (CmiTakeNodeQueue env s)"
  obtain w1 s1 where t1: "?t1 = (w1, s1)" by force
  have e1: "one_less contents s (w1, s1)" "w1 = None \<longleftrightarrow> held contents s Node_queue = 0"
    using runTaken_effect(1) [OF assms(3) take_node_effect(1) [OF assms(1,2)], of Node_queue]
      runTaken_effect(2) [OF assms(3) take_node_effect(1) [OF assms(1,2)], of Node_queue]
      take_node_effect(2) [OF assms(1,2)] t1 by simp_all
  let ?t2 = "runTaken env Node_prio_queue (CmiTakeNodePrioQueueIfAhead env s1)"
  obtain w2 s2 where t2: "?t2 = (w2, s2)" by force
  have ok1: "sched_ok contents s1" using e1(1) by (simp add: one_less_def)
  have e2: "one_less contents s1 (w2, s2)"
    using runTaken_effect(1) [OF assms(3) take_node_prio_effect(2) [OF ok1 assms(3)], of Node_prio_queue] t2
    by simp
  show "one_less contents s (pollNodeQueuesFirst env s)"
  proof (cases "t_nodeStreak s \<ge> node_queue_max env \<and> \<not> QueueEmpty (Some (sched_q s))")
    case True
    then show ?thesis using assms(1) queues_ok [OF queues_upd(1) [of 0 s], of contents]
      by (simp add: pollNodeQueuesFirst_def one_less_def)
  next
    case False
    show ?thesis
    proof (cases w1)
      case None
      have "one_less contents s (w2, s2)" using one_less_trans e1(1) e2 None by blast
      then show ?thesis using False t1 t2 None one_less_queues [OF _ queues_upd(1)]
        by (cases w2) (auto simp: pollNodeQueuesFirst_def)
    next
      case (Some e)
      then show ?thesis using False t1 e1(1) one_less_queues [OF _ queues_upd(1)]
        by (auto simp: pollNodeQueuesFirst_def)
    qed
  qed
  show "held contents s Node_queue = 0 \<or> held contents s Thread_prio_queue \<noteq> 0"
    if "fst (pollNodeQueuesFirst env s) = None"
  proof (cases "QueueEmpty (Some (sched_q s))")
    case True
    then have "w1 = None" using that t1 by (cases w1) (auto simp: pollNodeQueuesFirst_def)
    then show ?thesis using e1(2) by simp
  next
    case False
    then show ?thesis using q by (simp add: held_def QueueEmpty_def qsize_zero_iff)
  qed
qed

lemma poll_progress_effect:
  assumes "sched_ok contents s" "quiet_env env"
  shows "one_less contents s (pollProgress env s)" "fst (pollProgress env s) = None"
proof -
  obtain b s2 where b: "backend_progress env (s\<lparr>t_pollsProgress := Some True\<rparr>) = (b, s2)" by force
  have q: "\<not> b" "queues s2 = queues s"
    using assms(2) [unfolded quiet_env_def] b by (metis fst_conv, metis queues_upd(3) snd_conv)
  have same: "one_less contents s (None, s')" if "queues s' = queues s" for s'
    using queues_ok [OF that, of contents] assms(1) by (simp add: one_less_def)
  show "one_less contents s (pollProgress env s)" "fst (pollProgress env s) = None"
    using b q same by (auto simp: pollProgress_def Let_def split: option.split)
qed

lemma call_handler_effect:
  assumes "sched_ok contents s" "try_deq env = try_dequeue" "quiet_env env"
  shows "one_less contents s (call_handler env h s)"
    "fst (call_handler env h s) = None \<Longrightarrow> source_of h = Some src \<Longrightarrow> held contents s src = 0"
  using poll_thread_effect [OF assms] poll_node_prio_effect [OF assms(1,3)]
    poll_thread_prio_effect [OF assms(1,3)] poll_progress_effect [OF assms(1,3)] assms(1)
  by (cases h; simp add: call_handler_def source_of_def one_less_def)+

lemma sweep_effect:
  assumes "sched_ok contents s" "try_deq env = try_dequeue" "quiet_env env"
  shows "one_less contents s (sweep env tab lc n s)
    \<and> (fst (sweep env tab lc n s) = None \<longrightarrow>
        (\<forall>t src. SCHED_TABLE_SIZE - n \<le> t \<longrightarrow> t < SCHED_TABLE_SIZE \<longrightarrow>
           source_of (tab ! ((lc + t) mod SCHED_TABLE_SIZE)) = Some src \<longrightarrow> held contents s src = 0))"
  using assms(1)
proof (induction n arbitrary: s)
  case 0
  then show ?case by (simp add: one_less_def)
next
  case (Suc n)
  let ?h = "tab ! ((lc + (SCHED_TABLE_SIZE - Suc n)) mod SCHED_TABLE_SIZE)"
  obtain w s1 where c: "call_handler env ?h s = (w, s1)" by force
  note ch = call_handler_effect [OF Suc.prems assms(2,3), of ?h, unfolded c]
  have ok1: "sched_ok contents s1" using ch(1) by (simp add: one_less_def)
  show ?case
  proof (cases w)
    case None
    have h: "held contents s1 = held contents s" using ch(1) None by (simp add: one_less_def)
    have "one_less contents s (sweep env tab lc n s1)"
      using Suc.IH [OF ok1] one_less_trans ch(1) None by blast
    moreover have "held contents s src = 0"
      if "fst (sweep env tab lc n s1) = None" "SCHED_TABLE_SIZE - Suc n \<le> t" "t < SCHED_TABLE_SIZE"
        "source_of (tab ! ((lc + t) mod SCHED_TABLE_SIZE)) = Some src" for t src
    proof (cases "t = SCHED_TABLE_SIZE - Suc n")
      case True
      then show ?thesis using ch(2) [of src] None that(4) by simp
    next
      case False
      then have "SCHED_TABLE_SIZE - n \<le> t" using that(2) by simp
      then show ?thesis using Suc.IH [OF ok1] that h by metis
    qed
    ultimately show ?thesis using c None by simp
  next
    case (Some e)
    then show ?thesis using c ch(1) by simp
  qed
qed

text \<open>Every slot of the table is reached by a full sweep, wherever it starts.\<close>

lemma full_sweep_empty:
  assumes "sched_ok contents s" "try_deq env = try_dequeue" "quiet_env env"
    and "fst (sweep env tab lc SCHED_TABLE_SIZE s) = None"
    and "h \<in> set tab" "length tab = SCHED_TABLE_SIZE" "source_of h = Some src"
  shows "held contents s src = 0"
proof -
  obtain j where j: "j < SCHED_TABLE_SIZE" "tab ! j = h"
    using assms(5,6) by (metis in_set_conv_nth)
  define t where "t = (j + (SCHED_TABLE_SIZE - lc mod SCHED_TABLE_SIZE)) mod SCHED_TABLE_SIZE"
  have pos: "0 < SCHED_TABLE_SIZE" by (simp add: SCHED_TABLE_SIZE_def)
  have lt: "lc mod SCHED_TABLE_SIZE < SCHED_TABLE_SIZE" using pos by simp
  have "(lc + t) mod SCHED_TABLE_SIZE
      = (lc mod SCHED_TABLE_SIZE + (j + (SCHED_TABLE_SIZE - lc mod SCHED_TABLE_SIZE))) mod SCHED_TABLE_SIZE"
    unfolding t_def by (simp add: mod_simps)
  also have "lc mod SCHED_TABLE_SIZE + (j + (SCHED_TABLE_SIZE - lc mod SCHED_TABLE_SIZE)) = j + SCHED_TABLE_SIZE"
    using lt by simp
  finally have "(lc + t) mod SCHED_TABLE_SIZE = j" using j(1) by simp
  moreover have "t < SCHED_TABLE_SIZE" using pos by (simp add: t_def)
  ultimately show ?thesis
    using sweep_effect [OF assms(1-3), of tab lc SCHED_TABLE_SIZE] assms(4,7) j(2) by simp
qed

lemma iteration_effect:
  assumes "sched_ok contents s" "try_deq env = try_dequeue" "quiet_env env"
    and tab: "length tab = SCHED_TABLE_SIZE" "H_node_prio \<in> set tab" "H_thread_prio \<in> set tab"
  obtains w s' where "registered_iteration env tab lc s = (w, False, s')" "one_less contents s (w, s')"
    "w = None \<longrightarrow> total_held contents s = 0"
proof -
  define s1 where "s1 = (raise_condition env CcdSCHEDLOOP s)\<lparr>t_progressFoundNothing := False\<rparr>"
  have "queues s1 = queues s" using assms(3) by (simp add: s1_def quiet_env_def)
  then have ok1: "sched_ok contents s1" and h1: "held contents s1 = held contents s"
    and m1: "msgs contents s1 = msgs contents s"
    using assms(1) queues_ok [of s1 s contents] by simp_all
  have ipc: "CmiSchedulerPollIpc env s1 = (False, s1)"
    using assms(3) by (simp add: CmiSchedulerPollIpc_def quiet_env_def)
  obtain w2 s2 where p2: "pollConverseThreadQueue env s1 = (w2, s2)" by force
  obtain w3 s3 where p3: "pollNodeQueuesFirst env s2 = (w3, s3)" by force
  obtain w4 s4 where p4: "sweep env tab lc SCHED_TABLE_SIZE s3 = (w4, s4)" by force
  have from_s: "one_less contents s1 r \<Longrightarrow> one_less contents s r" for r
    using h1 m1 by (cases "fst r") (simp_all add: one_less_def)
  note t = poll_thread_effect [OF ok1 assms(2,3), unfolded p2]
  have ok2: "sched_ok contents s2" using t(1) by (simp add: one_less_def)
  note n = poll_nodes_first_effect [OF ok2 assms(2,3), unfolded p3]
  have ok3: "sched_ok contents s3" using n(1) by (simp add: one_less_def)
  have sw: "one_less contents s3 (w4, s4)" using sweep_effect [OF ok3 assms(2,3), of tab lc SCHED_TABLE_SIZE] p4 by simp
  show thesis
  proof (cases w2)
    case (Some e)
    then show thesis using that [of w2 s2] t(1) from_s p2 ipc
      by (simp add: registered_iteration_def Let_def flip: s1_def)
  next
    case w2: None
    have h2: "held contents s2 = held contents s" "held contents s Thread_queue = 0"
      using t w2 h1 by (simp_all add: one_less_def)
    have l3: "one_less contents s (w3, s3)" using one_less_trans t(1) n(1) w2 from_s by blast
    show thesis
    proof (cases w3)
      case (Some e)
      then show thesis using that [of w3 s3] l3 p2 p3 ipc w2
        by (simp add: registered_iteration_def Let_def flip: s1_def)
    next
      case w3: None
      have h3: "held contents s3 = held contents s" using l3 w3 by (simp add: one_less_def)
      have l4: "one_less contents s (w4, s4)" using one_less_trans l3 sw w3 by blast
      have "total_held contents s = 0" if "w4 = None"
      proof -
        have "held contents s3 Node_prio_queue = 0" "held contents s3 Thread_prio_queue = 0"
          using full_sweep_empty [OF ok3 assms(2,3) _ tab(2,1), of lc Node_prio_queue]
            full_sweep_empty [OF ok3 assms(2,3) _ tab(3,1), of lc Thread_prio_queue] p4 that
          by (simp_all add: source_of_def)
        moreover have "held contents s Node_queue = 0 \<or> held contents s Thread_prio_queue \<noteq> 0"
          using n(2) w3 h2 by simp
        ultimately show ?thesis using h3 h2 by (simp add: total_held_def)
      qed
      then show thesis using that [of w4 s4] l4 p2 p3 p4 ipc w2 w3
        by (simp add: registered_iteration_def Let_def flip: s1_def)
    qed
  qed
qed

lemma poll_drains:
  assumes "sched_ok contents s" "try_deq env = try_dequeue" "quiet_env env"
    and tab: "length tab = SCHED_TABLE_SIZE" "H_node_prio \<in> set tab" "H_thread_prio \<in> set tab"
    and "total_held contents s < fuel"
  shows "\<exists>ms s'. CsdSchedulePollRegistered fuel env tab lc s = Some (ms, s')
    \<and> mset (map snd ms) = msgs contents s \<and> total_held contents s' = 0 \<and> sched_ok contents s'"
  using assms(1,7)
proof (induction fuel arbitrary: s lc)
  case (Suc fuel)
  obtain w s1 where i: "registered_iteration env tab lc s = (w, False, s1)" "one_less contents s (w, s1)"
    "w = None \<longrightarrow> total_held contents s = 0"
    using iteration_effect [OF Suc.prems(1) assms(2,3) tab] .
  show ?case
  proof (cases w)
    case None
    then have "total_held contents s1 = 0" "sched_ok contents s1" "total_held contents s = 0"
      using i by (simp_all add: one_less_def total_held_msgs)
    then show ?thesis using i(1) None queues_ok [OF SetIdle_queues [OF assms(3), of s1], of contents]
      by (simp add: total_held_msgs)
  next
    case (Some e)
    let ?s2 = "csd_periodic env s1"
    have "queues ?s2 = queues s1" using assms(3) by (simp add: quiet_env_def)
    note q = queues_ok [OF this, of contents]
    have "sched_ok contents ?s2" "msgs contents s = add_mset (snd e) (msgs contents ?s2)"
      using i(2) Some q by (simp_all add: one_less_def)
    moreover from this obtain ms s' where "CsdSchedulePollRegistered fuel env tab (lc + 1) ?s2 = Some (ms, s')"
      "mset (map snd ms) = msgs contents ?s2" "total_held contents s' = 0" "sched_ok contents s'"
      using Suc.IH [of ?s2 "lc + 1"] Suc.prems(2) by (auto simp: total_held_msgs)
    ultimately show ?thesis using i(1) Some by simp
  qed
qed simp

end

section \<open>Properties\<close>

lemma register_table:
  assumes "1 \<le> backend_poll_freq env" "backend_poll_freq env < 2 ^ 31"
    and "CmiQueueRegisterInitThread env = Some (Some tab)"
  shows "length tab = SCHED_TABLE_SIZE" "H_node_prio \<in> set tab" "H_thread_prio \<in> set tab"
proof -
  let ?hs = "[(H_thread, 16), (H_node_prio, 1), (H_thread_prio, 16), (H_progress, of_int (backend_poll_freq env))]
    :: (handler \<times> u32) list"
  have "uint (33 + of_int (backend_poll_freq env) :: u32) = 33 + backend_poll_freq env"
    using assms(1,2) by (simp add: uint_word_ariths uint_word_of_int)
  then have "uint (33 + of_int (backend_poll_freq env) :: u32) \<noteq> 0" using assms(1) by linarith
  then have "(33 + of_int (backend_poll_freq env) :: u32) \<noteq> 0" by (simp only: uint_0_iff not_False_eq_True)
  then have "total_frequency ?hs \<noteq> 0" by (simp add: total_frequency_def add.assoc)
  moreover have "uint (of_int (backend_poll_freq env) :: u32) = backend_poll_freq env"
    using assms(1,2) by (simp add: uint_word_of_int)
  then have "sum_list (map (unat \<circ> snd) ?hs) < 2 ^ 32" using assms(1,2) by (simp flip: nat_uint_eq)
  moreover have "length ?hs \<le> SCHED_TABLE_SIZE" "distinct (map fst ?hs)" "H_no_work \<notin> fst ` set ?hs"
    by (simp_all add: SCHED_TABLE_SIZE_def)
  ultimately obtain tab' where
    t: "add_list_of_handlers H_no_work ?hs = Some (Some tab')" "length tab' = SCHED_TABLE_SIZE"
    "\<forall>i < length ?hs. count_list tab' (fst (?hs ! i)) = handler_slots ?hs ! i \<and> 1 \<le> handler_slots ?hs ! i"
    using handlers_placed [of ?hs H_no_work] by blast
  then have tab: "tab' = tab" using assms(3) by (simp add: CmiQueueRegisterInitThread_def)
  show "length tab = SCHED_TABLE_SIZE" using t(2) tab by simp
  have "1 \<le> count_list tab' (fst (?hs ! 1))" "1 \<le> count_list tab' (fst (?hs ! 2))"
    using t(3) [rule_format, of 1] t(3) [rule_format, of 2] by simp_all
  then have "count_list tab H_node_prio \<noteq> 0" "count_list tab H_thread_prio \<noteq> 0"
    unfolding tab by simp_all
  then show "H_node_prio \<in> set tab" "H_thread_prio \<in> set tab" by (auto simp: count_list_0_iff)
qed

text \<open>
  C7. \<open>CsdSchedulePoll\<close> runs every queued message and then returns: on the slot table the PE
  registers, in an environment that adds no further messages, the poll ends within one iteration
  per queued message plus one, has run exactly the messages the four queues held, each once, and
  leaves all four empty. The concurrent queue's dequeue is any one that removes a queued message
  and fails only when there is none.
\<close>

theorem schedule_poll_drains_all_queues:
  assumes "concurrent_queue enqueue (try_deq env) contents" "quiet_env env" "sched_ok contents s"
    and "1 \<le> backend_poll_freq env" "backend_poll_freq env < 2 ^ 31"
    and "CmiQueueRegisterInitThread env = Some (Some tab)" "total_held contents s < fuel"
  shows "\<exists>ms s'. CsdSchedulePollRegistered fuel env tab lc s = Some (ms, s')
    \<and> mset (map snd ms) = msgs contents s \<and> (\<forall>src. held contents s' src = 0)"
proof -
  obtain ms s' where "CsdSchedulePollRegistered fuel env tab lc s = Some (ms, s')"
    "mset (map snd ms) = msgs contents s" "total_held contents s' = 0"
    using concurrent_queue.poll_drains [OF assms(1,3) refl assms(2) register_table [OF assms(4-6)] assms(7)]
    by blast
  moreover from this(3) have "held contents s' src = 0" for src
    by (cases src) (simp_all add: total_held_def)
  ultimately show ?thesis by blast
qed

text \<open>An environment without traffic: handlers and callbacks do nothing.\<close>

definition sample_env :: "(int list, int) sched_env" where
  "sample_env = \<lparr>handle_msg = (\<lambda>m s. s), raise_condition = (\<lambda>c s. s), csd_periodic = (\<lambda>s. s),
     backend_progress = (\<lambda>s. (False, s)), deliver_inbox = None, try_deq = mutex_pop_result,
     try_lock = (\<lambda>s. True), wall_timer = (\<lambda>s. 0), my_rank = 0, thread_must_poll = False,
     backend_poll_thread = 1, backend_poll_freq = 64, node_queue_max = 16, thread_queue_max = 16\<rparr>"

definition sample_sched :: "(int list, int) sched" where
  "sample_sched = \<lparr>thread_q = \<lparr>cq = [1], pushed = 1, taken = 0, credit = 0\<rparr>,
     node_q = \<lparr>cq = [2], pushed = 1, taken = 0, credit = 0\<rparr>,
     node_prio = queue_init, node_len = 0, sched_q = sample_queue, idle_condition = True,
     idle_time = 0, stopFlag = False, t_nodeStreak = 0, t_progressFoundNothing = False,
     t_pollsProgress = None\<rparr>"

definition default_table :: "handler list" where
  "default_table = map (\<lambda>i. if i \<le> 50 \<and> i mod 5 = 0 then H_thread else if i = 1 then H_node_prio
     else if i \<le> 52 \<and> i mod 5 = 2 then H_thread_prio else H_progress) [0..<64]"

lemma default_place_all:
  "place_all (zip [H_thread, H_node_prio, H_thread_prio, H_progress] [11, 1, 11, 41]) 0 0
     (replicate SCHED_TABLE_SIZE None) = Some (map Some default_table)"
  by code_simp

lemma default_table_registered:
  "backend_poll_freq env = 64 \<Longrightarrow> CmiQueueRegisterInitThread env = Some (Some default_table)"
proof -
  assume f: "backend_poll_freq env = 64"
  let ?hs = "[(H_thread, 16), (H_node_prio, 1), (H_thread_prio, 16), (H_progress, 64)] :: (handler \<times> u32) list"
  have "total_frequency ?hs = 97" by (simp add: total_frequency_def)
  then have "handler_slots ?hs = trim_slots [11, 1, 11, 42] 65"
    by (simp add: handler_slots_def default_normalized)
  also have "\<dots> = [11, 1, 11, 41]"
    by (simp add: trim_slots.simps [of _ 65] trim_slots.simps [of _ 64] SCHED_TABLE_SIZE_def Let_def)
  finally show ?thesis
    using f \<open>total_frequency ?hs = 97\<close> default_place_all
    by (simp add: CmiQueueRegisterInitThread_def add_list_of_handlers_def o_def)
qed

lemma quiet_sample_env: "quiet_env sample_env"
  by (simp add: quiet_env_def sample_env_def)

lemma sample_sched_ok: "sched_ok mset sample_sched"
  by (simp add: sched_ok_def sample_sched_def fifo.counts_ok_def sample_queue_inv queue_init_inv)
    (simp add: queue_init_def)

theorem schedule_poll_drains_all_queues_witness:
  "\<exists>ms s'. CsdSchedulePollRegistered 7 sample_env default_table 0 sample_sched = Some (ms, s')
     \<and> mset (map snd ms) = {#1, 2, 7, 1, 8, 9#} \<and> (\<forall>src. held mset s' src = 0)"
proof -
  have m: "msgs mset sample_sched = {#1, 2, 7, 1, 8, 9#}"
    by (simp add: msgs_def sample_sched_def queue_init_inv)
      (simp add: sample_queue_def entries_def all_levels_def)
  have t: "total_held mset sample_sched = 6"
    by (simp add: total_held_def held_def sample_sched_def queue_init_inv)
      (simp add: sample_queue_def entries_def all_levels_def)
  have "concurrent_queue mutex_push (try_deq sample_env) mset"
    using fifo.concurrent_queue_axioms by (simp add: sample_env_def)
  from schedule_poll_drains_all_queues [OF this quiet_sample_env sample_sched_ok _ _
      default_table_registered, of 7 0] t m
  show ?thesis by (simp add: sample_env_def)
qed

end
