(* ===== verification/Sched_Order.thy ===== *)
theory Sched_Order
  imports Scheduler
begin

text \<open>
  The order in which the registered loop serves its sources (\<^verbatim>\<open>scheduler_registered.cpp\<close>,
  \<^verbatim>\<open>scheduler_take.h\<close>): the thread queue before everything else, node-level work ahead of
  local work only when its priority allows it, and the limit on consecutive node messages; and
  two concrete streams that show where the limits stop holding.
\<close>

section \<open>Iterations of the loop body\<close>

definition iteration_start :: "('q, 'm) sched_env \<Rightarrow> ('q, 'm) sched \<Rightarrow> ('q, 'm) sched" where
  "iteration_start env s =
     snd (CmiSchedulerPollIpc env ((raise_condition env CcdSCHEDLOOP s)\<lparr>t_progressFoundNothing := False\<rparr>))"

text \<open>\<open>n\<close> iterations of \<open>CsdSchedulerRegistered\<close> with the stop flag clear: the messages run.\<close>

fun registered_run ::
  "nat \<Rightarrow> ('q, 'm) sched_env \<Rightarrow> handler list \<Rightarrow> nat \<Rightarrow> ('q, 'm) sched \<Rightarrow> (source \<times> 'm) option list" where
  "registered_run 0 env tab loop_counter s = []"
| "registered_run (Suc n) env tab loop_counter s =
     (let (w, ipcDone, s1) = registered_iteration env tab loop_counter s;
          s2 = (if w = None \<and> \<not> ipcDone then CmiSchedulerSetIdle env s1 else s1)
      in w # registered_run n env tab (loop_counter + 1) (csd_periodic env s2))"

lemma iteration_thread_first:
  assumes "CmiTakeThreadQueue env (iteration_start env s) = (Some m, s')"
  shows "registered_iteration env tab lc s =
    (Some (Thread_queue, m),
     fst (CmiSchedulerPollIpc env ((raise_condition env CcdSCHEDLOOP s)\<lparr>t_progressFoundNothing := False\<rparr>)),
     handle_msg env m (CmiSchedulerReleaseIdle env s'))"
proof -
  obtain ipc s2 where "CmiSchedulerPollIpc env ((raise_condition env CcdSCHEDLOOP s)\<lparr>t_progressFoundNothing := False\<rparr>)
    = (ipc, s2)" by force
  then show ?thesis using assms
    by (simp add: registered_iteration_def iteration_start_def pollConverseThreadQueue_def runTaken_def)
qed

lemma run_invariant:
  assumes "I lc s"
    and "\<And>lc s. I lc s \<Longrightarrow> \<exists>s1. registered_iteration env tab lc s = (Some e, False, s1)
           \<and> I (lc + 1) (csd_periodic env s1)"
  shows "registered_run n env tab lc s = replicate n (Some e)"
  using assms(1)
proof (induction n arbitrary: lc s)
  case (Suc n)
  then show ?case using assms(2) [of lc s] by fastforce
qed simp

section \<open>Node-level work\<close>

lemma runTaken_None: "fst (runTaken env src t) = None \<longleftrightarrow> fst t = None"
  by (auto simp: runTaken_def split: prod.splits option.splits)

text \<open>
  A message taken from the thread queue is what an iteration of the registered loop runs,
  whatever the other queues hold: the thread queue is served before node-level work and before
  the slot table.
\<close>

theorem registered_thread_queue_first:
  assumes "fst (CmiTakeThreadQueue env (iteration_start env s)) = Some m"
  shows "fst (registered_iteration env tab lc s) = Some (Thread_queue, m)"
proof -
  obtain s' where "CmiTakeThreadQueue env (iteration_start env s) = (Some m, s')"
    using assms by (metis prod.collapse)
  from iteration_thread_first [OF this] show ?thesis by simp
qed

theorem registered_thread_queue_first_witness:
  "fst (registered_iteration sample_env default_table 0 sample_sched) = Some (Thread_queue, 1)"
  by (rule registered_thread_queue_first)
    (simp add: iteration_start_def CmiSchedulerPollIpc_def CmiTakeThreadQueue_def MPSCQueue_pop_def
      ac_pop_result_def available_def ac_taken_def mutex_pop_result_def sample_env_def sample_sched_def)

text \<open>
  C8. A node priority message runs ahead of the PE's own work only when its priority value is at
  most that of the PE's next message: what \<open>CmiTakeNodePrioQueueIfAhead\<close> returns is the head of
  the node queue, its priority is no larger than every priority queued locally, and both queue
  invariants and the unlocked length counter stay exact.
\<close>

theorem node_prio_taken_only_if_ahead:
  assumes "sched_ok contents s" "CmiTakeNodePrioQueueIfAhead env s = (Some m, s')"
  shows "\<exists>p es. entries (node_prio s) = (p, m) # es \<and> (\<forall>e \<in> set (entries (sched_q s)). p \<le> fst e)
    \<and> entries (node_prio s') = es \<and> node_len s' = int (length es) \<and> sched_ok contents s'"
proof -
  have q: "pq_inv (node_prio s)" "pq_inv (sched_q s)" "node_len s = qsize (node_prio s)"
    using assms(1) by (simp_all add: sched_ok_def)
  have t: "qsize (node_prio s) \<noteq> 0" "queue_top (node_prio s) = Some m"
    "queue_top_priority (node_prio s) \<le> queue_top_priority (sched_q s)"
    and s': "s' = s\<lparr>node_prio := queue_pop (node_prio s), node_len := node_len s - 1\<rparr>"
    using assms(2)
    by (auto simp: CmiTakeNodePrioQueueIfAhead_def QueueEmpty_def QueueTop_def QueueTopPriority_def
        split: if_splits)
  obtain p es where e: "entries (node_prio s) = (p, m) # es"
    using t(1,2) q(1) by (cases "entries (node_prio s)") (auto simp: queue_top_impl qsize_zero_iff)
  have "p \<le> fst x" if x: "x \<in> set (entries (sched_q s))" for x
  proof -
    obtain y ys where y: "entries (sched_q s) = y # ys" using x by (cases "entries (sched_q s)") auto
    then have "queue_top_priority (sched_q s) \<le> fst x"
      using pq.head_least(2) [OF q(2) y] x by blast
    then show ?thesis using t(3) e q(1) by (simp add: queue_top_priority_impl)
  qed
  moreover note pq_take_effect [OF q(1) t(1)] queue_pop_impl [OF q(1)]
  moreover have "qsize (queue_pop (node_prio s)) = int (length (entries (queue_pop (node_prio s))))"
    using queue_pop_impl [OF q(1)] by (simp add: pq_inv_def)
  ultimately show ?thesis using e s' q(3) assms(1) by (simp add: sched_ok_def)
qed

definition ahead_sched :: "(int list, int) sched" where
  "ahead_sched = sample_sched\<lparr>node_prio := queue_push queue_init 3 (-3), node_len := 1\<rparr>"

lemma ahead_sched_ok: "sched_ok mset ahead_sched"
proof -
  have "qsize (queue_push queue_init (3 :: int) (-3)) = 1"
    by (simp add: queue_push_def level_for_def queue_init_def set_level_def Let_def)
  then show ?thesis
    using sample_sched_ok queue_push_impl [of queue_init "3 :: int" "-3"]
    by (simp add: ahead_sched_def sched_ok_def queue_init_inv)
qed

theorem node_prio_taken_only_if_ahead_witness:
  "\<exists>p es. entries (node_prio ahead_sched) = (p, 3) # es
     \<and> (\<forall>e \<in> set (entries (sched_q ahead_sched)). p \<le> fst e)"
proof -
  have "CmiTakeNodePrioQueueIfAhead sample_env ahead_sched
    = (Some 3, ahead_sched\<lparr>node_prio := queue_pop (node_prio ahead_sched), node_len := 0\<rparr>)"
    by (simp add: CmiTakeNodePrioQueueIfAhead_def sample_env_def ahead_sched_def sample_sched_def
        queue_push_def level_for_def set_level_def get_level_def Let_def queue_init_def QueueEmpty_def QueueTop_def
        queue_top_def front_level_def QueueTopPriority_def queue_top_priority_def sample_queue_def)
  from node_prio_taken_only_if_ahead [OF ahead_sched_ok this] show ?thesis by blast
qed

text \<open>
  One call of \<open>pollNodeQueuesFirst\<close>, local work queued or not. Handlers and callbacks are taken not to run
  the scheduler themselves, so they leave the streak alone.
\<close>

lemma node_streak_step:
  assumes "\<forall>m s. t_nodeStreak (handle_msg env m s) = t_nodeStreak s"
    and "\<forall>c s. t_nodeStreak (raise_condition env c s) = t_nodeStreak s"
    and "pollNodeQueuesFirst env s = (w, s')"
  shows "case w of Some e \<Rightarrow> t_nodeStreak s' = t_nodeStreak s + 1
             \<and> (\<not> QueueEmpty (Some (sched_q s)) \<longrightarrow> t_nodeStreak s < node_queue_max env)
           | None \<Rightarrow> t_nodeStreak s' = 0"
proof -
  have rt: "t_nodeStreak s2 = t_nodeStreak s1"
    if "runTaken env src (r, s1) = (x, s2)" for r s1 x s2 src
    using that assms(1,2)
    by (auto simp: runTaken_def CmiSchedulerReleaseIdle_def split: option.splits)
  have nq: "t_nodeStreak (snd (CmiTakeNodeQueue env s)) = t_nodeStreak s" for s
    by (auto simp: CmiTakeNodeQueue_def split: prod.splits)
  have np: "t_nodeStreak (snd (CmiTakeNodePrioQueueIfAhead env s)) = t_nodeStreak s" for s
    by (simp add: CmiTakeNodePrioQueueIfAhead_def)
  show ?thesis
  proof (cases "\<not> QueueEmpty (Some (sched_q s)) \<and> node_queue_max env \<le> t_nodeStreak s")
    case True
    then show ?thesis using assms(3) by (auto simp: pollNodeQueuesFirst_def)
  next
    case False
    obtain w1 s1 where t1: "runTaken env Node_queue (CmiTakeNodeQueue env s) = (w1, s1)" by force
    obtain w2 s2 where t2: "runTaken env Node_prio_queue (CmiTakeNodePrioQueueIfAhead env s1) = (w2, s2)" by force
    have e1: "t_nodeStreak s1 = t_nodeStreak s" using rt [of Node_queue] t1 nq [of s] by (metis prod.collapse)
    have "t_nodeStreak s2 = t_nodeStreak s"
      using rt [of Node_prio_queue] t2 np [of s1] e1 by (metis prod.collapse)
    then show ?thesis using False assms(3) t1 t2 e1
      by (cases w1; cases w2) (auto simp: pollNodeQueuesFirst_def)
  qed
qed

section \<open>Streams that starve local work\<close>

text \<open>Every message handled sends another one to the PE's own thread queue.\<close>

definition echo_env :: "(int list, int) sched_env" where
  "echo_env = sample_env\<lparr>handle_msg := (\<lambda>m s. s\<lparr>thread_q := ac_push mutex_push m (thread_q s)\<rparr>)\<rparr>"

definition echo_inv :: "nat \<Rightarrow> (int list, int) sched \<Rightarrow> bool" where
  "echo_inv lc s \<longleftrightarrow> cq (thread_q s) = [1] \<and> pushed (thread_q s) = taken (thread_q s) + 1
     \<and> credit (thread_q s) = 0"

lemma echo_step:
  assumes "echo_inv lc s"
  shows "\<exists>s1. registered_iteration echo_env tab lc s = (Some (Thread_queue, 1), False, s1)
    \<and> echo_inv (lc + 1) (csd_periodic echo_env s1)"
proof -
  have start: "iteration_start echo_env s = s\<lparr>t_progressFoundNothing := False\<rparr>"
    by (simp add: iteration_start_def echo_env_def sample_env_def CmiSchedulerPollIpc_def)
  obtain a where "thread_q s = a" "cq a = [1]" "pushed a = taken a + 1" "credit a = 0"
    using assms by (simp add: echo_inv_def)
  then have take: "CmiTakeThreadQueue echo_env (iteration_start echo_env s)
    = (Some 1, s\<lparr>t_progressFoundNothing := False,
        thread_q := a\<lparr>cq := [], taken := taken a + 1, credit := 0\<rparr>\<rparr>)"
    unfolding start
    by (simp add: CmiTakeThreadQueue_def MPSCQueue_pop_def ac_pop_result_def available_def
        ac_taken_def mutex_pop_result_def echo_env_def sample_env_def Let_def)
  show ?thesis
    unfolding iteration_thread_first [OF take]
    using \<open>pushed a = taken a + 1\<close>
    by (simp add: echo_inv_def echo_env_def sample_env_def CmiSchedulerReleaseIdle_def
        CmiSchedulerPollIpc_def ac_push_def ac_publish_def ac_enqueue_def mutex_push_def)
qed

text \<open>
  C10. The registered loop puts no limit on the thread queue: in a run in which every handled
  message sends another one to the PE's own thread queue, every iteration, forever, runs a
  thread-queue message, and the priority queue's messages, queued from the start, never run.
\<close>

theorem registered_thread_stream_starves_priority_queue:
  "entries (sched_q sample_sched) = [(-3, 7), (0, 1), (5, 8), (5, 9)]
   \<and> registered_run n echo_env default_table 0 sample_sched = replicate n (Some (Thread_queue, 1))"
proof
  show "entries (sched_q sample_sched) = [(-3, 7), (0, 1), (5, 8), (5, 9)]"
    by (simp add: sample_sched_def sample_queue_def entries_def all_levels_def)
  have "echo_inv 0 sample_sched" by (simp add: echo_inv_def sample_sched_def)
  then show "registered_run n echo_env default_table 0 sample_sched = replicate n (Some (Thread_queue, 1))"
    by (rule run_invariant) (rule echo_step)
qed

text \<open>
  Every message handled sends another one to the node queue, and the network backend always
  reports progress.
\<close>

definition node_env :: "(int list, int) sched_env" where
  "node_env = sample_env\<lparr>handle_msg := (\<lambda>m s. s\<lparr>node_q := ac_push mutex_push m (node_q s)\<rparr>),
     backend_progress := (\<lambda>s. (True, s))\<rparr>"

definition node_base :: "(int list, int) sched \<Rightarrow> bool" where
  "node_base s \<longleftrightarrow> cq (thread_q s) = [] \<and> pushed (thread_q s) = taken (thread_q s) \<and> credit (thread_q s) = 0
     \<and> cq (node_q s) = [2] \<and> pushed (node_q s) = taken (node_q s) + 1
     \<and> qsize (sched_q s) \<noteq> 0 \<and> t_pollsProgress s \<noteq> Some False"

definition node_inv :: "nat \<Rightarrow> (int list, int) sched \<Rightarrow> bool" where
  "node_inv lc s \<longleftrightarrow> node_base s
     \<and> t_nodeStreak s = int (if lc mod 16 < 4 then lc mod 16 + 13 else lc mod 16 - 3)"

lemma node_base_upd [simp]:
  "node_base (s\<lparr>t_nodeStreak := n\<rparr>) = node_base s"
  "node_base (s\<lparr>t_progressFoundNothing := b\<rparr>) = node_base s"
  "node_base (s\<lparr>t_pollsProgress := Some True\<rparr>) = node_base s \<or> t_pollsProgress s = Some False"
  by (auto simp: node_base_def)

lemma node_thread_empty:
  assumes "node_base s"
  shows "pollConverseThreadQueue node_env s = (None, s)"
proof -
  obtain a where a: "thread_q s = a" "pushed a = taken a" "credit a = 0"
    using assms by (simp add: node_base_def)
  then have "s\<lparr>thread_q := a\<lparr>credit := 0\<rparr>\<rparr> = s" by (cases s; cases a) simp
  then show ?thesis using a
    by (simp add: pollConverseThreadQueue_def runTaken_def CmiTakeThreadQueue_def MPSCQueue_pop_def
        ac_pop_result_def available_def Let_def)
qed

lemma node_take:
  assumes "node_base s" "t_nodeStreak s < 16"
  shows "\<exists>s'. pollNodeQueuesFirst node_env s = (Some (Node_queue, 2), s') \<and> node_base s'
    \<and> t_nodeStreak s' = t_nodeStreak s + 1"
proof -
  obtain a where a: "node_q s = a" "cq a = [2]" "pushed a = taken a + 1"
    using assms by (simp add: node_base_def)
  then have "CmiTakeNodeQueue node_env s = (Some 2, s\<lparr>node_q := a\<lparr>cq := [], taken := taken a + 1\<rparr>\<rparr>)"
    by (simp add: CmiTakeNodeQueue_def MPMCQueue_empty_def MPMCQueue_pop_def ac_empty_def
        ac_pop_result_def available_def ac_taken_def mutex_pop_result_def node_env_def sample_env_def)
  then show ?thesis using assms a
    by (simp add: pollNodeQueuesFirst_def runTaken_def node_env_def sample_env_def
        CmiSchedulerReleaseIdle_def ac_push_def ac_publish_def ac_enqueue_def mutex_push_def node_base_def)
qed

text \<open>
  C9. The limit on consecutive node messages, over any sequence of calls of \<open>pollNodeQueuesFirst\<close> on a PE
  (\<open>\<sigma> i\<close> before the \<open>i\<close>-th call, \<open>w i\<close> its result, \<open>\<tau> i\<close> after it; between calls anything but the streak may
  change): calls in a row that each run a message while local work is queued are at most
  \<open>node_queue_max\<close>, and when they are that many, the next call with local work queued takes nothing,
  leaves the turn to local work and starts a new streak. Handlers and callbacks are taken not to run the
  scheduler themselves, and the counter, a C++ \<open>int\<close>, not to reach \<open>2 ^ 31\<close>.
\<close>

theorem node_streak_limited:
  assumes "\<forall>m s. t_nodeStreak (handle_msg env m s) = t_nodeStreak s"
    and "\<forall>c s. t_nodeStreak (raise_condition env c s) = t_nodeStreak s"
    and "\<forall>i. pollNodeQueuesFirst env (\<sigma> i) = (w i, \<tau> i)" "\<forall>i. t_nodeStreak (\<sigma> (Suc i)) = t_nodeStreak (\<tau> i)"
    and "0 \<le> t_nodeStreak (\<sigma> 0)" "0 \<le> node_queue_max env"
    and "\<forall>i \<in> {k..<k + n}. \<not> QueueEmpty (Some (sched_q (\<sigma> i))) \<and> w i \<noteq> None"
  shows "int n \<le> node_queue_max env
    \<and> (int n = node_queue_max env \<and> \<not> QueueEmpty (Some (sched_q (\<sigma> (k + n))))
         \<longrightarrow> w (k + n) = None \<and> \<tau> (k + n) = \<sigma> (k + n)\<lparr>t_nodeStreak := 0\<rparr>)"
proof -
  note step = node_streak_step [OF assms(1,2) assms(3) [rule_format]]
  have ge: "0 \<le> t_nodeStreak (\<sigma> i)" for i
  proof (induction i)
    case (Suc i)
    then show ?case using step [of i] assms(4) by (cases "w i") auto
  qed (use assms(5) in simp)
  have grow: "int j \<le> t_nodeStreak (\<sigma> (k + j))" if "j \<le> n" for j
    using that
  proof (induction j)
    case (Suc j)
    then show ?case using step [of "k + j"] assms(4) assms(7) [rule_format, of "k + j"] by auto
  qed (use ge in simp)
  have "int n \<le> node_queue_max env"
  proof (cases n)
    case (Suc j)
    then show ?thesis using grow [of j] step [of "k + j"] assms(7) [rule_format, of "k + j"] by auto
  qed (use assms(6) in simp)
  moreover have "w (k + n) = None \<and> \<tau> (k + n) = \<sigma> (k + n)\<lparr>t_nodeStreak := 0\<rparr>"
    if "int n = node_queue_max env" "\<not> QueueEmpty (Some (sched_q (\<sigma> (k + n))))"
    using that grow [of n] assms(3) [rule_format, of "k + n"] by (simp add: pollNodeQueuesFirst_def)
  ultimately show ?thesis by blast
qed

definition node_calls :: "nat \<Rightarrow> (int list, int) sched" where
  "node_calls i = ((\<lambda>s. snd (pollNodeQueuesFirst node_env s)) ^^ i)
     (sample_sched\<lparr>thread_q := atomic_ac_init []\<rparr>)"

lemma node_calls_run: "i \<le> 16 \<Longrightarrow> node_base (node_calls i) \<and> t_nodeStreak (node_calls i) = int i"
proof (induction i)
  case 0
  show ?case by (simp add: node_calls_def node_base_def sample_sched_def atomic_ac_init_def sample_queue_def)
next
  case (Suc i)
  then show ?case using node_take [of "node_calls i"] by (auto simp: node_calls_def)
qed

theorem node_streak_limited_witness:
  "fst (pollNodeQueuesFirst node_env (node_calls 15)) = Some (Node_queue, 2)
   \<and> pollNodeQueuesFirst node_env (node_calls 16) = (None, (node_calls 16)\<lparr>t_nodeStreak := 0\<rparr>)"
proof -
  have q: "\<not> QueueEmpty (Some (sched_q (node_calls i)))" if "i \<le> 16" for i
    using node_calls_run [OF that] by (simp add: QueueEmpty_def node_base_def)
  have w: "fst (pollNodeQueuesFirst node_env (node_calls i)) = Some (Node_queue, 2)" if "i < 16" for i
    using node_calls_run [of i] node_take [of "node_calls i"] that by auto
  have "fst (pollNodeQueuesFirst node_env (node_calls (0 + 16))) = None
      \<and> node_calls (Suc (0 + 16)) = (node_calls (0 + 16))\<lparr>t_nodeStreak := 0\<rparr>"
    using node_streak_limited [of node_env node_calls "\<lambda>i. fst (pollNodeQueuesFirst node_env (node_calls i))"
        "\<lambda>i. node_calls (Suc i)" 0 16] q w
    by (auto simp: node_env_def sample_env_def node_calls_def sample_sched_def)
  moreover have "node_calls (Suc (0 + 16)) = snd (pollNodeQueuesFirst node_env (node_calls (0 + 16)))"
    by (simp only: node_calls_def funpow.simps o_apply)
  ultimately show ?thesis using w [of 15] by (simp add: prod_eq_iff)
qed

lemma node_progress:
  assumes "node_base s" "t_nodeStreak s = 0" "\<not> t_progressFoundNothing s"
  shows "\<exists>s'. pollProgress node_env s = (Some (Node_queue, 2), s') \<and> node_base s' \<and> t_nodeStreak s' = 1"
proof -
  define s1 where "s1 = s\<lparr>t_pollsProgress := Some True\<rparr>"
  have b: "node_base s1" "t_nodeStreak s1 < 16" "t_nodeStreak s1 = 0"
    using assms(1,2) by (simp_all add: s1_def node_base_def)
  have "(case t_pollsProgress s of None \<Rightarrow> True | Some b \<Rightarrow> b)"
    using assms(1) by (auto simp: node_base_def split: option.split)
  then have "pollProgress node_env s = pollNodeQueuesFirst node_env s1"
    using assms(3) node_thread_empty [OF b(1)]
    by (auto simp: pollProgress_def node_env_def sample_env_def s1_def split: option.splits)
  then show ?thesis using node_take [OF b(1,2)] b(3) by simp
qed

text \<open>The slots a sweep meets when the loop counter is 3 modulo 16.\<close>

lemma default_table_slots:
  assumes "lc mod 16 = 3"
  shows "default_table ! (lc mod 64) = H_progress
    \<or> default_table ! (lc mod 64) = H_thread \<and> default_table ! ((lc + 1) mod 64) = H_progress"
proof -
  define r where "r = lc mod 64"
  have r: "r < 64" "r mod 16 = 3" using assms by (simp_all add: r_def mod_mod_cancel)
  have "r = 16 * (r div 16) + 3" using r(2) by (metis mult_div_mod_eq)
  moreover have "r div 16 < 4" using r(1) by simp
  then have "r div 16 = 0 \<or> r div 16 = 1 \<or> r div 16 = 2 \<or> r div 16 = 3" by linarith
  ultimately have "r = 3 \<or> r = 19 \<or> r = 35 \<or> r = 51" by linarith
  moreover have "(lc + 1) mod 64 = r + 1" if "r = 35"
    using that mod_add_left_eq [of lc 64 1] by (simp add: r_def)
  moreover have "default_table ! 3 = H_progress" "default_table ! 19 = H_progress" "default_table ! 35 = H_thread"
    "default_table ! 36 = H_progress" "default_table ! 51 = H_progress"
    by (simp_all add: default_table_def)
  ultimately show ?thesis unfolding r_def [symmetric] by auto
qed

lemma sweep_unfold:
  "0 < n \<Longrightarrow> sweep env tab lc n s =
     (case call_handler env (tab ! ((lc + (SCHED_TABLE_SIZE - n)) mod SCHED_TABLE_SIZE)) s of
        (Some e, s1) \<Rightarrow> (Some e, s1) | (None, s1) \<Rightarrow> sweep env tab lc (n - 1) s1)"
  by (cases n) (simp_all split: prod.split option.split)

lemma node_sweep:
  assumes "node_base s" "t_nodeStreak s = 0" "\<not> t_progressFoundNothing s" "lc mod 16 = 3"
  shows "\<exists>s'. sweep node_env default_table lc SCHED_TABLE_SIZE s = (Some (Node_queue, 2), s')
    \<and> node_base s' \<and> t_nodeStreak s' = 1"
proof -
  have size: "SCHED_TABLE_SIZE = 64" by (simp add: SCHED_TABLE_SIZE_def)
  obtain s' where p: "pollProgress node_env s = (Some (Node_queue, 2), s')" "node_base s'" "t_nodeStreak s' = 1"
    using node_progress [OF assms(1-3)] by blast
  have "sweep node_env default_table lc 64 s = (Some (Node_queue, 2), s')"
    using default_table_slots [OF assms(4)]
  proof
    assume "default_table ! (lc mod 64) = H_progress"
    then show ?thesis using p(1) by (simp add: sweep_unfold [of 64] size call_handler_def)
  next
    assume "default_table ! (lc mod 64) = H_thread \<and> default_table ! ((lc + 1) mod 64) = H_progress"
    then show ?thesis using p(1) node_thread_empty [OF assms(1)]
      by (simp add: sweep_unfold [of 64] sweep_unfold [of 63] size call_handler_def)
  qed
  then show ?thesis using p(2,3) size by simp
qed

lemma node_step:
  assumes "node_inv lc s"
  shows "\<exists>s1. registered_iteration node_env default_table lc s = (Some (Node_queue, 2), False, s1)
    \<and> node_inv (lc + 1) (csd_periodic node_env s1)"
proof -
  define s1 where "s1 = s\<lparr>t_progressFoundNothing := False\<rparr>"
  have s1: "node_base s1" "t_nodeStreak s1 = int (if lc mod 16 < 4 then lc mod 16 + 13 else lc mod 16 - 3)"
    using assms by (simp_all add: s1_def node_inv_def)
  have suc: "(lc + 1) mod 16 = (if lc mod 16 = 15 then 0 else lc mod 16 + 1)" by (simp add: mod_Suc)
  have lt: "lc mod 16 < 16" by simp
  have it: "registered_iteration node_env default_table lc s =
    (case pollNodeQueuesFirst node_env s1 of (Some e, s4) \<Rightarrow> (Some e, False, s4)
     | (None, s4) \<Rightarrow> (case sweep node_env default_table lc SCHED_TABLE_SIZE s4 of (w, s5) \<Rightarrow> (w, False, s5)))"
    using node_thread_empty [OF s1(1)]
    by (simp add: registered_iteration_def s1_def node_env_def sample_env_def CmiSchedulerPollIpc_def
        split: prod.split option.split)
  have per: "csd_periodic node_env x = x" for x by (simp add: node_env_def sample_env_def)
  show ?thesis
  proof (cases "lc mod 16 = 3")
    case True
    then have "pollNodeQueuesFirst node_env s1 = (None, s1\<lparr>t_nodeStreak := 0\<rparr>)"
      using s1 by (simp add: pollNodeQueuesFirst_def node_env_def sample_env_def QueueEmpty_def node_base_def)
    moreover obtain s' where "sweep node_env default_table lc SCHED_TABLE_SIZE (s1\<lparr>t_nodeStreak := 0\<rparr>)
        = (Some (Node_queue, 2), s')" "node_base s'" "t_nodeStreak s' = 1"
      using node_sweep [of "s1\<lparr>t_nodeStreak := 0\<rparr>" lc] s1 True by (auto simp: s1_def)
    moreover have "(lc + 1) mod 16 = 4" using suc True by simp
    ultimately show ?thesis using it per by (simp add: node_inv_def)
  next
    case False
    then have m: "t_nodeStreak s1 < 16"
      "t_nodeStreak s1 + 1 = int (if (lc + 1) mod 16 < 4 then (lc + 1) mod 16 + 13 else (lc + 1) mod 16 - 3)"
      using s1(2) lt unfolding suc by (auto split: if_splits)
    obtain s' where "pollNodeQueuesFirst node_env s1 = (Some (Node_queue, 2), s')" "node_base s'"
      "t_nodeStreak s' = t_nodeStreak s1 + 1"
      using node_take [OF s1(1) m(1)] by auto
    then show ?thesis using it per m(2) unfolding node_inv_def by (simp only:) simp
  qed
qed

definition node_stream_start :: "(int list, int) sched" where
  "node_stream_start = sample_sched\<lparr>thread_q := atomic_ac_init [], t_nodeStreak := 13\<rparr>"

text \<open>
  C11. The limit on node messages does not protect local work when the backend reports progress
  in the middle of the sweep: the iteration that skips the node queues restarts the streak, and
  the progress slots of the same sweep poll the node queues again. On the default table, in a run
  in which every node message sends another one and the backend always makes progress, starting
  with a streak of 13, every iteration runs a node message and the local priority queue's
  messages never run.
\<close>

theorem registered_node_stream_starves_local_work:
  "entries (sched_q node_stream_start) = [(-3, 7), (0, 1), (5, 8), (5, 9)]
   \<and> CmiQueueRegisterInitThread node_env = Some (Some default_table)
   \<and> registered_run n node_env default_table 0 node_stream_start = replicate n (Some (Node_queue, 2))"
proof (intro conjI)
  show "entries (sched_q node_stream_start) = [(-3, 7), (0, 1), (5, 8), (5, 9)]"
    by (simp add: node_stream_start_def sample_sched_def sample_queue_def entries_def all_levels_def)
  show "CmiQueueRegisterInitThread node_env = Some (Some default_table)"
    by (rule default_table_registered) (simp add: node_env_def sample_env_def)
  have "node_inv 0 node_stream_start"
    by (simp add: node_inv_def node_base_def node_stream_start_def sample_sched_def atomic_ac_init_def
        sample_queue_def)
  then show "registered_run n node_env default_table 0 node_stream_start = replicate n (Some (Node_queue, 2))"
    by (rule run_invariant) (rule node_step)
qed

end
