(* ===== verification/Sched_Random.thy ===== *)
theory Sched_Random
  imports Scheduler
begin

text \<open>
  The randomized debugging loop (\<^verbatim>\<open>src/src/scheduler_randomized.cpp\<close>): every source is drained
  into one pool per PE and a random message of the pool runs. The generator
  \<^verbatim>\<open>std::mt19937_64\<close> is the function \<open>rng\<close> that returns the next 64-bit value and the next
  generator state.
\<close>

unbundle bit_operations_syntax

section \<open>The pool\<close>

record ('r, 'm) randomized =
  pool :: "'m list"
  rng_state :: 'r

definition mixSeed :: "u64 \<Rightarrow> u64" where
  "mixSeed x0 =
     (let x1 = x0 + 0x9e3779b97f4a7c15;
          x2 = (x1 XOR drop_bit 30 x1) * 0xbf58476d1ce4e5b9;
          x3 = (x2 XOR drop_bit 27 x2) * 0x94d049bb133111eb
      in x3 XOR drop_bit 31 x3)"

text \<open>The seed of a PE's generator: \<^verbatim>\<open>state()\<close>.\<close>

definition pe_seed :: "u64 \<Rightarrow> int \<Rightarrow> u64" where
  "pe_seed base pe = base XOR mixSeed (of_int pe)"

text \<open>\<open>drainInto\<close>: at most \<open>bound\<close> messages of one source move to the pool.\<close>

fun drainInto ::
  "'m list \<Rightarrow> nat \<Rightarrow> (('q, 'm) sched \<Rightarrow> 'm option \<times> ('q, 'm) sched) \<Rightarrow> ('q, 'm) sched
     \<Rightarrow> bool \<times> 'm list \<times> ('q, 'm) sched" where
  "drainInto p 0 take_msg s = (False, p, s)"
| "drainInto p (Suc bound) take_msg s =
     (case take_msg s of
        (None, s1) \<Rightarrow> (False, p, s1)
      | (Some msg, s1) \<Rightarrow>
          (case drainInto (p @ [msg]) bound take_msg s1 of (_, p', s') \<Rightarrow> (True, p', s')))"

definition fillPool ::
  "('q, 'm) sched_env \<Rightarrow> 'm list \<Rightarrow> ('q, 'm) sched \<Rightarrow> bool \<times> 'm list \<times> ('q, 'm) sched" where
  "fillPool env p s =
     (let (took0, s0) = CmiSchedulerPollIpc env s;
          s1 = (if my_rank env mod backend_poll_thread env = 0 \<or> thread_must_poll env
                then snd (backend_progress env s0) else s0);
          (took1, p1, s2) = drainInto p 1 (CmiTakeNodeQueue env) s1;
          (took2, p2, s3) = drainInto p1 1 (CmiTakeNodePrioQueue env) s2;
          (n, tq) = MPSCQueue_size (thread_q s3);
          (took3, p3, s4) = drainInto p2 n (CmiTakeThreadQueue env) (s3\<lparr>thread_q := tq\<rparr>);
          (took4, p4, s5) = drainInto p3 (nat (QueueSize (Some (sched_q s4)))) CmiTakeThreadPrioQueue s4
      in (took0 \<or> took1 \<or> took2 \<or> took3 \<or> took4, p4, s5))"

text \<open>The index is the high half of the 128-bit product of the drawn value and the pool size.\<close>

definition drawFromPool :: "('r \<Rightarrow> u64 \<times> 'r) \<Rightarrow> ('r, 'm) randomized \<Rightarrow> 'm \<times> ('r, 'm) randomized" where
  "drawFromPool rng st =
     (let (v, r') = rng (rng_state st);
          i = (unat v * length (pool st)) div 2 ^ 64;
          msg = pool st ! i
      in (msg, st\<lparr>pool := butlast ((pool st)[i := last (pool st)]), rng_state := r'\<rparr>))"

section \<open>The loops\<close>

text \<open>One iteration: the message run, whether the intake moved anything, the states.\<close>

definition randomized_iteration ::
  "('r \<Rightarrow> u64 \<times> 'r) \<Rightarrow> ('q, 'm) sched_env \<Rightarrow> ('r, 'm) randomized \<Rightarrow> ('q, 'm) sched
     \<Rightarrow> 'm option \<times> bool \<times> ('r, 'm) randomized \<times> ('q, 'm) sched" where
  "randomized_iteration rng env st s =
     (let (took, p, s1) = fillPool env (pool st) (raise_condition env CcdSCHEDLOOP s);
          st1 = st\<lparr>pool := p\<rparr>
      in if p \<noteq> []
         then (case drawFromPool rng st1 of
                 (msg, st2) \<Rightarrow> (Some msg, took, st2, handle_msg env msg (CmiSchedulerReleaseIdle env s1)))
         else (None, took, st1, s1))"

fun CsdSchedulerRandomized ::
  "nat \<Rightarrow> ('r \<Rightarrow> u64 \<times> 'r) \<Rightarrow> ('q, 'm) sched_env \<Rightarrow> ('r, 'm) randomized \<Rightarrow> ('q, 'm) sched
     \<Rightarrow> ('m list \<times> ('r, 'm) randomized \<times> ('q, 'm) sched) option" where
  "CsdSchedulerRandomized 0 rng env st s = None"
| "CsdSchedulerRandomized (Suc fuel) rng env st s =
     (if stopFlag s then Some ([], st, s)
      else (case randomized_iteration rng env st s of
              (Some msg, took, st1, s1) \<Rightarrow>
                map_option (\<lambda>(ms, r). (msg # ms, r))
                  (CsdSchedulerRandomized fuel rng env st1 (csd_periodic env s1))
            | (None, took, st1, s1) \<Rightarrow>
                (let s2 = (if \<not> took then CmiSchedulerSetIdle env s1 else s1)
                 in CsdSchedulerRandomized fuel rng env st1 (csd_periodic env s2))))"

fun CsdSchedulePollRandomized ::
  "nat \<Rightarrow> ('r \<Rightarrow> u64 \<times> 'r) \<Rightarrow> ('q, 'm) sched_env \<Rightarrow> ('r, 'm) randomized \<Rightarrow> ('q, 'm) sched
     \<Rightarrow> ('m list \<times> ('r, 'm) randomized \<times> ('q, 'm) sched) option" where
  "CsdSchedulePollRandomized 0 rng env st s = None"
| "CsdSchedulePollRandomized (Suc fuel) rng env st s =
     (case randomized_iteration rng env st s of
        (Some msg, took, st1, s1) \<Rightarrow>
          map_option (\<lambda>(ms, r). (msg # ms, r))
            (CsdSchedulePollRandomized fuel rng env st1 (csd_periodic env s1))
      | (None, took, st1, s1) \<Rightarrow>
          if \<not> took then Some ([], st1, CmiSchedulerSetIdle env s1)
          else CsdSchedulePollRandomized fuel rng env st1 (csd_periodic env s1))"

section \<open>Seeds\<close>

lemma xorshift_inj:
  assumes "0 < n" "x XOR drop_bit n x = y XOR drop_bit n y"
  shows "x = (y :: u64)"
proof -
  have "bit x i = bit y i" if "i < 64" for i
    using that
  proof (induction "64 - i" arbitrary: i rule: less_induct)
    case less
    have e: "(bit x i \<noteq> bit x (n + i)) = (bit y i \<noteq> bit y (n + i))"
      using arg_cong [OF assms(2), of "\<lambda>w. bit w i"] by (simp add: bit_xor_iff bit_drop_bit_eq)
    have "bit x (n + i) = bit y (n + i)"
    proof (cases "n + i < 64")
      case True
      then show ?thesis using less(1) [of "n + i"] assms(1) by simp
    next
      case False
      then show ?thesis using bit_imp_le_length [of x "n + i"] bit_imp_le_length [of y "n + i"] by auto
    qed
    then show ?case using e by blast
  qed
  then show ?thesis by (intro bit_word_eqI) simp
qed

lemma mult_inj:
  assumes "c * d = 1" "x * c = y * c"
  shows "x = (y :: u64)"
proof -
  have "x * c * d = y * c * d" using assms(2) by (rule arg_cong)
  then show ?thesis by (simp only: mult.assoc assms(1) mult_1_right)
qed

lemma mixSeed_inj:
  assumes "mixSeed x = mixSeed y"
  shows "x = y"
proof -
  define f1 where "f1 = (\<lambda>x :: u64. (x XOR drop_bit 30 x) * 0xbf58476d1ce4e5b9)"
  define f2 where "f2 = (\<lambda>x :: u64. (x XOR drop_bit 27 x) * 0x94d049bb133111eb)"
  have inv: "0xbf58476d1ce4e5b9 * 0x96de1b173f119089 = (1 :: u64)"
    "0x94d049bb133111eb * 0x319642b2d24d8ec3 = (1 :: u64)" by simp_all
  have i1: "a = b" if "f1 a = f1 b" for a b
    by (rule xorshift_inj [of 30]) (simp, rule mult_inj [OF inv(1) that [unfolded f1_def]])
  have i2: "a = b" if "f2 a = f2 b" for a b
    by (rule xorshift_inj [of 27]) (simp, rule mult_inj [OF inv(2) that [unfolded f2_def]])
  have m: "mixSeed z = f2 (f1 (z + 0x9e3779b97f4a7c15)) XOR drop_bit 31 (f2 (f1 (z + 0x9e3779b97f4a7c15)))" for z
    by (simp only: mixSeed_def f1_def f2_def Let_def)
  have "f2 (f1 (x + 0x9e3779b97f4a7c15)) = f2 (f1 (y + 0x9e3779b97f4a7c15))"
    by (rule xorshift_inj [of 31]) (simp, rule assms [unfolded m])
  from i1 [OF i2 [OF this]] show ?thesis by (rule add_right_imp_eq)
qed

section \<open>The draw\<close>

lemma draw_index_less:
  assumes "p \<noteq> []"
  shows "(unat (v :: u64) * length p) div 2 ^ 64 < length p"
proof -
  have "unat v < 2 ^ 64" using unsigned_less [of v] by simp
  then have "unat v * length p < 2 ^ 64 * length p" using assms by simp
  then show ?thesis by (simp add: less_mult_imp_div_less mult.commute)
qed

lemma swap_remove_mset:
  assumes "i < length xs"
  shows "mset xs = add_mset (xs ! i) (mset (butlast (xs[i := last xs])))"
proof -
  obtain ys z where xs: "xs = ys @ [z]" using assms by (cases xs rule: rev_cases) auto
  show ?thesis
  proof (cases "i = length ys")
    case True
    then show ?thesis by (simp add: xs)
  next
    case False
    then have i: "i < length ys" using assms xs by simp
    then have "mset ys = add_mset (ys ! i) (mset ys - {#ys ! i#})" by simp
    moreover have "mset (ys[i := z]) = add_mset z (mset ys - {#ys ! i#})" using i by (simp add: mset_update)
    ultimately show ?thesis using i by (simp add: xs nth_append list_update_append)
  qed
qed

section \<open>Draining the sources\<close>

text \<open>\<open>take_msg\<close> takes from \<open>src\<close>: it fails exactly on the empty source.\<close>

definition takes_from ::
  "('q \<Rightarrow> 'm multiset) \<Rightarrow> source \<Rightarrow> (('q, 'm) sched \<Rightarrow> 'm option \<times> ('q, 'm) sched) \<Rightarrow> bool" where
  "takes_from contents src take_msg \<longleftrightarrow>
     (\<forall>s. sched_ok contents s \<longrightarrow> poll_effect contents src s (take_msg s)
        \<and> (fst (take_msg s) = None \<longleftrightarrow> held contents s src = 0))"

definition drained ::
  "('q \<Rightarrow> 'm multiset) \<Rightarrow> source \<Rightarrow> nat \<Rightarrow> 'm list \<Rightarrow> ('q, 'm) sched \<Rightarrow> bool \<times> 'm list \<times> ('q, 'm) sched \<Rightarrow> bool" where
  "drained contents src n p s r \<longleftrightarrow> (case r of (took, p', s') \<Rightarrow>
     sched_ok contents s' \<and> mset p' + msgs contents s' = mset p + msgs contents s
     \<and> (took \<longleftrightarrow> 0 < n \<and> 0 < held contents s src)
     \<and> length p' = length p + min n (held contents s src)
     \<and> held contents s' = (held contents s)(src := held contents s src - n))"

lemma drainedD:
  assumes "drained contents src n p s (took, p', s')"
  shows "sched_ok contents s'" "mset p' + msgs contents s' = mset p + msgs contents s"
    "took \<longleftrightarrow> 0 < n \<and> 0 < held contents s src" "length p' = length p + min n (held contents s src)"
    "held contents s' = (held contents s)(src := held contents s src - n)"
  using assms by (simp_all add: drained_def)

lemma drainInto_drained:
  assumes "takes_from contents src take_msg" "sched_ok contents s"
  shows "drained contents src n p s (drainInto p n take_msg s)"
  using assms(2)
proof (induction n arbitrary: p s)
  case (Suc n)
  obtain r s1 where t: "take_msg s = (r, s1)" by force
  have pe: "poll_effect contents src s (r, s1)" "r = None \<longleftrightarrow> held contents s src = 0"
    using assms(1) Suc.prems t by (auto simp: takes_from_def dest: spec [of _ s])
  show ?case
  proof (cases r)
    case None
    then show ?thesis using pe t by (auto simp: drained_def poll_effect_def)
  next
    case (Some m)
    have s1: "sched_ok contents s1" "msgs contents s = add_mset m (msgs contents s1)" "0 < held contents s src"
      "held contents s1 = (held contents s)(src := held contents s src - 1)"
      using pe(1) Some by (simp_all add: poll_effect_def)
    obtain took p' s' where d: "drainInto (p @ [m]) n take_msg s1 = (took, p', s')" by (metis prod_cases3)
    have "drained contents src n (p @ [m]) s1 (took, p', s')" using Suc.IH [OF s1(1), of "p @ [m]"] d by simp
    then show ?thesis using Some t d s1 by (auto simp: drained_def)
  qed
qed (simp add: drained_def)

context concurrent_queue
begin

lemma takes_from_sources:
  assumes "try_deq env = try_dequeue" "quiet_env env"
  shows "takes_from contents Node_queue (CmiTakeNodeQueue env)"
    "takes_from contents Node_prio_queue (CmiTakeNodePrioQueue env)"
    "takes_from contents Thread_queue (CmiTakeThreadQueue env)"
    "takes_from contents Thread_prio_queue CmiTakeThreadPrioQueue"
  unfolding takes_from_def
  using take_node_effect [OF _ assms(1)] take_node_prio_effect(1,3) [OF _ assms(2)]
    take_thread_effect [OF _ assms(1)] take_thread_prio_effect by blast+

lemma size_effect:
  assumes "sched_ok contents s" "MPSCQueue_size (thread_q s) = (n, tq)"
  shows "sched_ok contents (s\<lparr>thread_q := tq\<rparr>)" "held contents (s\<lparr>thread_q := tq\<rparr>) = held contents s"
    "msgs contents (s\<lparr>thread_q := tq\<rparr>) = msgs contents s" "n = 0 \<longleftrightarrow> held contents s Thread_queue = 0"
proof -
  obtain k a1 where av: "available True (thread_q s) = (k, a1)" by force
  have ok: "counts_ok True (thread_q s)" using assms(1) by (simp add: sched_ok_def)
  note a = available_counts [OF ok av]
  have tq: "tq = a1" "n = (if k > 0 then nat k else 0)"
    using assms(2) av by (auto simp: MPSCQueue_size_def ac_size_def)
  show "sched_ok contents (s\<lparr>thread_q := tq\<rparr>)" "held contents (s\<lparr>thread_q := tq\<rparr>) = held contents s"
    "msgs contents (s\<lparr>thread_q := tq\<rparr>) = msgs contents s"
    using assms(1) a tq by (auto simp: sched_ok_def held_def msgs_def fun_eq_iff split: source.split)
  show "n = 0 \<longleftrightarrow> held contents s Thread_queue = 0"
    using a(3) tq(2) by (auto simp: held_def)
qed

lemma fillPool_effect:
  assumes "try_deq env = try_dequeue" "quiet_env env" "sched_ok contents s" "fillPool env p s = (took, p', s')"
  shows "sched_ok contents s'" "mset p' + msgs contents s' = mset p + msgs contents s"
    "\<not> took \<Longrightarrow> msgs contents s = {#}" "p' = [] \<Longrightarrow> \<not> took \<and> p = []"
proof -
  note tf = takes_from_sources [OF assms(1,2)]
  define s1 where "s1 = (if my_rank env mod backend_poll_thread env = 0 \<or> thread_must_poll env
                then snd (backend_progress env s) else s)"
  have "queues s1 = queues s" using assms(2) by (simp add: s1_def quiet_env_def)
  note q1 = queues_ok [OF this, of contents]
  obtain t1 p1 s2 where d1: "drainInto p 1 (CmiTakeNodeQueue env) s1 = (t1, p1, s2)" by (metis prod_cases3)
  have e1: "drained contents Node_queue 1 p s1 (t1, p1, s2)"
    using drainInto_drained [OF tf(1), of s1 1 p] q1(1) assms(3) d1 by simp
  obtain t2 p2 s3 where d2: "drainInto p1 1 (CmiTakeNodePrioQueue env) s2 = (t2, p2, s3)" by (metis prod_cases3)
  have e2: "drained contents Node_prio_queue 1 p1 s2 (t2, p2, s3)"
    using drainInto_drained [OF tf(2), of s2 1 p1] e1 d2 by (simp add: drained_def)
  obtain n tq where sz: "MPSCQueue_size (thread_q s3) = (n, tq)" by force
  have ok3: "sched_ok contents s3" using e2 by (simp add: drained_def)
  note z = size_effect [OF ok3 sz]
  obtain t3 p3 s4 where d3: "drainInto p2 n (CmiTakeThreadQueue env) (s3\<lparr>thread_q := tq\<rparr>) = (t3, p3, s4)"
    by (metis prod_cases3)
  have e3: "drained contents Thread_queue n p2 (s3\<lparr>thread_q := tq\<rparr>) (t3, p3, s4)"
    using drainInto_drained [OF tf(3) z(1), of n p2] d3 by simp
  let ?k = "nat (QueueSize (Some (sched_q s4)))"
  obtain t4 p4 s5 where d4: "drainInto p3 ?k CmiTakeThreadPrioQueue s4 = (t4, p4, s5)" by (metis prod_cases3)
  have ok4: "sched_ok contents s4" using e3 by (simp add: drained_def)
  have e4: "drained contents Thread_prio_queue ?k p3 s4 (t4, p4, s5)"
    using drainInto_drained [OF tf(4) ok4, of ?k p3] d4 by simp
  have k: "?k = held contents s4 Thread_prio_queue"
    using ok4 by (simp add: sched_ok_def pq_inv_def QueueSize_def held_def)
  have "CmiSchedulerPollIpc env s = (False, s)"
    using assms(2) by (simp add: CmiSchedulerPollIpc_def quiet_env_def)
  then have f: "took = (t1 \<or> t2 \<or> t3 \<or> t4)" "p' = p4" "s' = s5"
    using assms(4) d1 d2 d3 d4 sz by (simp_all add: fillPool_def Let_def flip: s1_def)
  note D1 = drainedD [OF e1] and D2 = drainedD [OF e2] and D3 = drainedD [OF e3] and D4 = drainedD [OF e4]
  show "sched_ok contents s'" using D4(1) f(3) by simp
  show "mset p' + msgs contents s' = mset p + msgs contents s"
    unfolding f(2,3) D4(2) D3(2) z(3) D2(2) D1(2) q1(3) ..
  show "\<not> took \<and> p = []" if "p' = []"
  proof -
    have "length p4 = 0" using that f(2) by simp
    then have l: "length p3 = 0" "min ?k (held contents s4 Thread_prio_queue) = 0" using D4(4) by simp_all
    then have l2: "length p2 = 0" "min n (held contents (s3\<lparr>thread_q := tq\<rparr>) Thread_queue) = 0"
      using D3(4) by simp_all
    then have l1: "length p1 = 0" "min 1 (held contents s2 Node_prio_queue) = 0" using D2(4) by simp_all
    then have l0: "length p = 0" "min 1 (held contents s1 Node_queue) = 0" using D1(4) by simp_all
    have "\<not> t1" "\<not> t2" "\<not> t3" "\<not> t4"
      unfolding D1(3) D2(3) D3(3) D4(3) using l0(2) l1(2) l2(2) l(2) by linarith+
    then show ?thesis using l0(1) f(1) by simp
  qed
  show "msgs contents s = {#}" if "\<not> took"
  proof -
    have t: "\<not> t1" "\<not> t2" "\<not> t3" "\<not> t4" using that f(1) by simp_all
    have h1: "held contents s1 Node_queue = 0" using t(1) D1(3) by simp
    have h2: "held contents s2 Node_prio_queue = 0" using t(2) D2(3) by simp
    have h3: "held contents s3 Thread_queue = 0" using t(3) D3(3) z(2,4) by simp
    have h4: "held contents s4 Thread_prio_queue = 0" using t(4) D4(3) k by simp
    have "held contents s src = 0" for src
      using h1 h2 h3 h4 D1(5) D2(5) D3(5) z(2) q1(2) by (cases src) simp_all
    then show ?thesis using total_held_msgs [of contents s] by (simp add: total_held_def)
  qed
qed

lemma randomized_iteration_effect:
  assumes "try_deq env = try_dequeue" "quiet_env env" "sched_ok contents s"
    and "randomized_iteration rng env st s = (w, took, st', s')"
  shows "sched_ok contents s'
    \<and> (case w of None \<Rightarrow> pool st = [] \<and> pool st' = [] \<and> \<not> took \<and> msgs contents s = {#} \<and> msgs contents s' = {#}
        | Some m \<Rightarrow> mset (pool st) + msgs contents s = add_mset m (mset (pool st') + msgs contents s'))"
proof -
  let ?s0 = "raise_condition env CcdSCHEDLOOP s"
  have "queues ?s0 = queues s" using assms(2) by (simp add: quiet_env_def)
  note q0 = queues_ok [OF this, of contents]
  obtain tk p s1 where f: "fillPool env (pool st) ?s0 = (tk, p, s1)" by (metis prod_cases3)
  note fe = fillPool_effect [OF assms(1,2) _ f] 
  have ok: "sched_ok contents ?s0" using q0(1) assms(3) by simp
  show ?thesis
  proof (cases "p = []")
    case True
    then have "\<not> tk" "pool st = []" using fe(4) [OF ok] by simp_all
    moreover from this have "msgs contents s = {#}" "msgs contents s1 = {#}"
      using fe(2,3) [OF ok] q0(3) True by simp_all
    ultimately show ?thesis using True f assms(4) fe(1) [OF ok] by (auto simp: randomized_iteration_def)
  next
    case False
    obtain msg st2 where d: "drawFromPool rng (st\<lparr>pool := p\<rparr>) = (msg, st2)" by force
    have "mset p = add_mset msg (mset (pool st2))"
      using swap_remove_mset [OF draw_index_less [OF False]] d
      by (auto simp: drawFromPool_def Let_def split: prod.splits)
    then have "mset (pool st) + msgs contents s = add_mset msg (mset (pool st2) + msgs contents s1)"
      using fe(2) [OF ok] q0(3) by simp
    moreover have "queues (handle_msg env msg (CmiSchedulerReleaseIdle env s1)) = queues s1"
      using assms(2) ReleaseIdle_queues [OF assms(2)] by (simp add: quiet_env_def)
    note queues_ok [OF this, of contents]
    ultimately show ?thesis using False f d assms(4) fe(1) [OF ok]
      by (auto simp: randomized_iteration_def)
  qed
qed

lemma randomized_poll_drains:
  assumes "try_deq env = try_dequeue" "quiet_env env" "sched_ok contents s"
    and "length (pool st) + size (msgs contents s) < fuel"
  shows "\<exists>ms st' s'. CsdSchedulePollRandomized fuel rng env st s = Some (ms, st', s')
    \<and> mset ms = mset (pool st) + msgs contents s \<and> pool st' = [] \<and> msgs contents s' = {#}"
  using assms(3,4)
proof (induction fuel arbitrary: st s)
  case (Suc fuel)
  obtain w took st1 s1 where i: "randomized_iteration rng env st s = (w, took, st1, s1)" by (metis prod_cases4)
  note e = randomized_iteration_effect [OF assms(1,2) Suc.prems(1) i]
  show ?case
  proof (cases w)
    case None
    then show ?thesis using e i queues_ok(3) [OF SetIdle_queues [OF assms(2), of s1], of contents] by simp
  next
    case (Some m)
    let ?s2 = "csd_periodic env s1"
    have "queues ?s2 = queues s1" using assms(2) by (simp add: quiet_env_def)
    note q = queues_ok [OF this, of contents]
    have sum: "mset (pool st) + msgs contents s = add_mset m (mset (pool st1) + msgs contents ?s2)"
      and ok: "sched_ok contents ?s2" using e Some q by simp_all
    have "length (pool st) + size (msgs contents s) = Suc (length (pool st1) + size (msgs contents ?s2))"
      using arg_cong [OF sum, of size] by simp
    then obtain ms st' s' where "CsdSchedulePollRandomized fuel rng env st1 ?s2 = Some (ms, st', s')"
      "mset ms = mset (pool st1) + msgs contents ?s2" "pool st' = []" "msgs contents s' = {#}"
      using Suc.IH [OF ok, of st1] Suc.prems(2) by auto
    then show ?thesis using i Some sum by simp
  qed
qed simp

end

section \<open>Properties\<close>

text \<open>
  C12. The randomized \<open>CsdSchedulePoll\<close> loses nothing: in a quiet environment (handlers, callbacks and
  network progress add no messages, there is no inbox, and the locks it tries are free), and with a dequeue
  that fails only on an empty queue, it ends, has run exactly the messages of the pool and of the four queues, each once, whatever
  the generator returns, and leaves the pool and the queues empty.
\<close>

theorem randomized_poll_runs_every_message:
  assumes "concurrent_queue enqueue (try_deq env) contents" "quiet_env env" "sched_ok contents s"
    and "length (pool st) + size (msgs contents s) < fuel"
  shows "\<exists>ms st' s'. CsdSchedulePollRandomized fuel rng env st s = Some (ms, st', s')
    \<and> mset ms = mset (pool st) + msgs contents s \<and> pool st' = [] \<and> msgs contents s' = {#}"
  by (rule concurrent_queue.randomized_poll_drains [OF assms(1) refl assms(2-4)])

theorem randomized_poll_runs_every_message_witness:
  "\<exists>ms st' s'. CsdSchedulePollRandomized 8 (\<lambda>r. (r, r + 1)) sample_env \<lparr>pool = [4], rng_state = 77\<rparr> sample_sched
       = Some (ms, st', s') \<and> mset ms = {#4, 1, 2, 7, 1, 8, 9#}"
proof -
  have m: "msgs mset sample_sched = {#1, 2, 7, 1, 8, 9#}"
    by (simp add: msgs_def sample_sched_def queue_init_inv)
      (simp add: sample_queue_def entries_def all_levels_def)
  have "concurrent_queue mutex_push (try_deq sample_env) mset"
    using fifo.concurrent_queue_axioms by (simp add: sample_env_def)
  from randomized_poll_runs_every_message [OF this quiet_sample_env sample_sched_ok,
      of "\<lparr>pool = [4], rng_state = 77\<rparr>" 8 "\<lambda>r. (r, r + 1)"] m
  show ?thesis by auto
qed

text \<open>
  The PEs of a run draw from differently seeded generators: the seeds of two PE numbers
  below \<open>2 ^ 64\<close> are different, for every base seed, because the seed mixing is injective.
\<close>

theorem pe_seeds_differ:
  assumes "0 \<le> pe1" "pe1 < 2 ^ 64" "0 \<le> pe2" "pe2 < 2 ^ 64" "pe1 \<noteq> pe2"
  shows "pe_seed base pe1 \<noteq> pe_seed base pe2"
proof
  assume "pe_seed base pe1 = pe_seed base pe2"
  then have "base XOR (base XOR mixSeed (of_int pe1)) = base XOR (base XOR mixSeed (of_int pe2))"
    by (simp add: pe_seed_def)
  then have "mixSeed (of_int pe1) = mixSeed (of_int pe2)" by (simp add: xor.assoc [symmetric])
  then have "(of_int pe1 :: u64) = of_int pe2" by (rule mixSeed_inj)
  then have "uint (of_int pe1 :: u64) = uint (of_int pe2 :: u64)" by simp
  then show False using assms by (simp add: uint_word_of_int)
qed

theorem pe_seeds_differ_witness: "pe_seed 42 0 \<noteq> pe_seed 42 1"
  by (rule pe_seeds_differ) simp_all

end
