(* ===== verification/Sched_Old.thy ===== *)
theory Sched_Old
  imports Scheduler
begin

text \<open>
  The original scheduler loop (\<^verbatim>\<open>src/src/scheduler_old.cpp\<close>, \<^verbatim>\<open>+old-scheduler\<close>): a fixed chain
  over the node queue, the thread queue, the node priority queue and the PE's priority queue,
  with two counters of consecutive messages that give the PE's own work its turn. State and
  environment are those of the registered loop; the task queue is compiled out. The branches of
  the chain are one definition each; both loops call them in the order of the code.
\<close>

section \<open>The branches of the chain\<close>

definition BACKEND_POLL_FREQ_DEFAULT :: int where
  "BACKEND_POLL_FREQ_DEFAULT = 64"

definition poll_period :: "('q, 'm) sched_env \<Rightarrow> int" where
  "poll_period env =
     (let p = BACKEND_POLL_FREQ_DEFAULT div backend_poll_freq env in if p < 1 then 1 else p)"

text \<open>
  The test of the node-queue branch. Both \<open>empty()\<close> calls may refresh a queue's credit; the
  thread queue is asked only when the streak is used up.
\<close>

definition old_node_turn ::
  "('q, 'm) sched_env \<Rightarrow> int \<Rightarrow> ('q, 'm) sched \<Rightarrow> bool \<times> ('q, 'm) sched" where
  "old_node_turn env nq_streak s =
     (let (ne, nq) = MPMCQueue_empty (node_q s); s1 = s\<lparr>node_q := nq\<rparr>
      in if ne then (False, s1)
         else if nq_streak < node_queue_max env then (True, s1)
         else (let (te, tq) = MPSCQueue_empty (thread_q s1); s2 = s1\<lparr>thread_q := tq\<rparr>
               in (te \<and> QueueEmpty (Some (sched_q s2)), s2)))"

definition old_node_branch ::
  "('q, 'm) sched_env \<Rightarrow> int \<Rightarrow> ('q, 'm) sched \<Rightarrow> (source \<times> 'm) option \<times> int \<times> ('q, 'm) sched" where
  "old_node_branch env nq_streak s =
     (let (result, nq) = MPMCQueue_pop (try_deq env) (node_q s);
          (w, s1) = runTaken env Node_queue (result, s\<lparr>node_q := nq\<rparr>)
      in (w, if result = None then nq_streak else nq_streak + 1, s1))"

definition old_thread_branch ::
  "('q, 'm) sched_env \<Rightarrow> int \<Rightarrow> ('q, 'm) sched \<Rightarrow> (source \<times> 'm) option \<times> int \<times> ('q, 'm) sched" where
  "old_thread_branch env tq_streak s =
     (if tq_streak < thread_queue_max env \<or> QueueEmpty (Some (sched_q s))
      then (let (result, tq) = MPSCQueue_pop (try_deq env) (thread_q s);
                (w, s1) = runTaken env Thread_queue (result, s\<lparr>thread_q := tq\<rparr>)
            in (w, if result = None then tq_streak else tq_streak + 1, s1))
      else (let (w, s1) = runTaken env Thread_prio_queue
                            (QueueTop (Some (sched_q s)), s\<lparr>sched_q := queue_pop (sched_q s)\<rparr>)
            in (w, 0, s1)))"

text \<open>The PE's own priority queue, or nothing: \<open>True\<close> is the branch of an idle processor.\<close>

definition old_local_or_idle ::
  "('q, 'm) sched_env \<Rightarrow> ('q, 'm) sched \<Rightarrow> (source \<times> 'm) option \<times> bool \<times> ('q, 'm) sched" where
  "old_local_or_idle env s =
     (if \<not> QueueEmpty (Some (sched_q s))
      then (let (w, s1) = runTaken env Thread_prio_queue
                            (QueueTop (Some (sched_q s)), s\<lparr>sched_q := queue_pop (sched_q s)\<rparr>)
            in (w, False, s1))
      else (None, True, s))"

definition old_prio_branch ::
  "('q, 'm) sched_env \<Rightarrow> int \<Rightarrow> ('q, 'm) sched
     \<Rightarrow> (source \<times> 'm) option \<times> bool \<times> int \<times> ('q, 'm) sched" where
  "old_prio_branch env nq_streak s =
     (if (nq_streak < node_queue_max env \<or> QueueEmpty (Some (sched_q s))) \<and> node_len s > 0 \<and> try_lock env s
      then (if \<not> QueueEmpty (Some (node_prio s))
            then (let (w, s1) = runTaken env Node_prio_queue
                        (QueueTop (Some (node_prio s)),
                         s\<lparr>node_prio := queue_pop (node_prio s), node_len := node_len s - 1\<rparr>)
                  in (w, False, nq_streak + 1, s1))
            else (let (w, idle, s1) = old_local_or_idle env s in (w, idle, 0, s1)))
      else (let (w, idle, s1) = old_local_or_idle env s in (w, idle, 0, s1)))"

text \<open>One pass over the chain: the message run, whether the processor is idle, both streaks.\<close>

definition old_chain ::
  "('q, 'm) sched_env \<Rightarrow> int \<Rightarrow> int \<Rightarrow> ('q, 'm) sched
     \<Rightarrow> (source \<times> 'm) option \<times> bool \<times> int \<times> int \<times> ('q, 'm) sched" where
  "old_chain env tq_streak nq_streak s =
     (case old_node_turn env nq_streak s of
        (True, s1) \<Rightarrow>
          (let (w, nq, s2) = old_node_branch env nq_streak s1 in (w, False, tq_streak, nq, s2))
      | (False, s1) \<Rightarrow>
          (let (te, tq) = MPSCQueue_empty (thread_q s1); s2 = s1\<lparr>thread_q := tq\<rparr>
           in if \<not> te
              then (let (w, tqs, s3) = old_thread_branch env tq_streak s2 in (w, False, tqs, 0, s3))
              else (let (w, idle, nq, s3) = old_prio_branch env nq_streak s2 in (w, idle, 0, nq, s3))))"

section \<open>The loops\<close>

text \<open>The backend poll at the end of an iteration: every \<open>poll_period\<close>-th time.\<close>

definition old_progress ::
  "('q, 'm) sched_env \<Rightarrow> int \<Rightarrow> ('q, 'm) sched \<Rightarrow> int \<times> ('q, 'm) sched" where
  "old_progress env loop_counter s =
     (if my_rank env mod backend_poll_thread env = 0 \<or> thread_must_poll env
      then (if loop_counter = poll_period env - 1 then (0, snd (backend_progress env s))
            else (loop_counter + 1, s))
      else (loop_counter, s))"

fun CsdSchedulerOld ::
  "nat \<Rightarrow> ('q, 'm) sched_env \<Rightarrow> int \<Rightarrow> int \<Rightarrow> int \<Rightarrow> ('q, 'm) sched
     \<Rightarrow> ((source \<times> 'm) option list \<times> ('q, 'm) sched) option" where
  "CsdSchedulerOld 0 env loop_counter tq_streak nq_streak s = None"
| "CsdSchedulerOld (Suc fuel) env loop_counter tq_streak nq_streak s =
     (if stopFlag s then Some ([], s)
      else (let s1 = snd (CmiSchedulerPollIpc env (raise_condition env CcdSCHEDLOOP s));
                (w, idle, tq, nq, s2) = old_chain env tq_streak nq_streak s1;
                s3 = (if idle then CmiSchedulerSetIdle env s2 else s2);
                (lc, s4) = old_progress env loop_counter s3
            in map_option (\<lambda>(ms, s'). (w # ms, s'))
                 (CsdSchedulerOld fuel env lc tq nq (csd_periodic env s4))))"

fun CsdSchedulePollOld ::
  "nat \<Rightarrow> ('q, 'm) sched_env \<Rightarrow> int \<Rightarrow> int \<Rightarrow> ('q, 'm) sched
     \<Rightarrow> ((source \<times> 'm) list \<times> ('q, 'm) sched) option" where
  "CsdSchedulePollOld 0 env tq_streak nq_streak s = None"
| "CsdSchedulePollOld (Suc fuel) env tq_streak nq_streak s =
     (let s1 = snd (CmiSchedulerPollIpc env (raise_condition env CcdSCHEDLOOP (csd_periodic env s)));
          (w, idle, tq, nq, s2) = old_chain env tq_streak nq_streak s1
      in if idle then Some ([], snd (backend_progress env s2))
         else map_option (\<lambda>(ms, s'). ((case w of None \<Rightarrow> ms | Some e \<Rightarrow> e # ms), s'))
                (CsdSchedulePollOld fuel env tq nq s2))"

text \<open>
  The state of the chain in each of \<open>n\<close> iterations, with what it ran: the trace the fairness
  results are about.
\<close>

fun old_trace ::
  "nat \<Rightarrow> ('q, 'm) sched_env \<Rightarrow> int \<Rightarrow> int \<Rightarrow> int \<Rightarrow> ('q, 'm) sched
     \<Rightarrow> (('q, 'm) sched \<times> (source \<times> 'm) option) list" where
  "old_trace 0 env loop_counter tq_streak nq_streak s = []"
| "old_trace (Suc n) env loop_counter tq_streak nq_streak s =
     (let s1 = snd (CmiSchedulerPollIpc env (raise_condition env CcdSCHEDLOOP s));
          (w, idle, tq, nq, s2) = old_chain env tq_streak nq_streak s1;
          s3 = (if idle then CmiSchedulerSetIdle env s2 else s2);
          (lc, s4) = old_progress env loop_counter s3
      in (s1, w) # old_trace n env lc tq nq (csd_periodic env s4))"

section \<open>What the chain does to the queues\<close>

context concurrent_queue
begin

lemma node_empty_effect:
  assumes "sched_ok contents s" "MPMCQueue_empty (node_q s) = (e, nq)"
  shows "sched_ok contents (s\<lparr>node_q := nq\<rparr>)" "held contents (s\<lparr>node_q := nq\<rparr>) = held contents s"
    "msgs contents (s\<lparr>node_q := nq\<rparr>) = msgs contents s" "e \<longleftrightarrow> held contents s Node_queue = 0"
proof -
  have "counts_ok False (node_q s)" using assms(1) by (simp add: sched_ok_def)
  note e = ac_empty_size [OF this assms(2) [unfolded MPMCQueue_empty_def]]
  show "sched_ok contents (s\<lparr>node_q := nq\<rparr>)" "held contents (s\<lparr>node_q := nq\<rparr>) = held contents s"
    "msgs contents (s\<lparr>node_q := nq\<rparr>) = msgs contents s" "e \<longleftrightarrow> held contents s Node_queue = 0"
    using assms(1) e by (auto simp: sched_ok_def held_def msgs_def fun_eq_iff split: source.split)
qed

lemma thread_empty_effect:
  assumes "sched_ok contents s" "MPSCQueue_empty (thread_q s) = (e, tq)"
  shows "sched_ok contents (s\<lparr>thread_q := tq\<rparr>)" "held contents (s\<lparr>thread_q := tq\<rparr>) = held contents s"
    "msgs contents (s\<lparr>thread_q := tq\<rparr>) = msgs contents s" "e \<longleftrightarrow> held contents s Thread_queue = 0"
proof -
  have "counts_ok True (thread_q s)" using assms(1) by (simp add: sched_ok_def)
  note e = ac_empty_size [OF this assms(2) [unfolded MPSCQueue_empty_def]]
  show "sched_ok contents (s\<lparr>thread_q := tq\<rparr>)" "held contents (s\<lparr>thread_q := tq\<rparr>) = held contents s"
    "msgs contents (s\<lparr>thread_q := tq\<rparr>) = msgs contents s" "e \<longleftrightarrow> held contents s Thread_queue = 0"
    using assms(1) e by (auto simp: sched_ok_def held_def msgs_def fun_eq_iff split: source.split)
qed

lemma node_turn_effect:
  assumes "sched_ok contents s" "old_node_turn env nq s = (t, s1)"
  shows "sched_ok contents s1" "held contents s1 = held contents s" "msgs contents s1 = msgs contents s"
    "t \<longleftrightarrow> held contents s Node_queue \<noteq> 0 \<and> (nq < node_queue_max env
       \<or> held contents s Thread_queue = 0 \<and> held contents s Thread_prio_queue = 0)"
    "sched_q s1 = sched_q s"
proof -
  obtain ne q1 where n: "MPMCQueue_empty (node_q s) = (ne, q1)" by force
  note e = node_empty_effect [OF assms(1) n]
  obtain te q2 where t: "MPSCQueue_empty (thread_q (s\<lparr>node_q := q1\<rparr>)) = (te, q2)" by force
  note e2 = thread_empty_effect [OF e(1) t]
  have q: "QueueEmpty (Some (sched_q s)) \<longleftrightarrow> held contents s Thread_prio_queue = 0"
    using assms(1) by (simp add: sched_ok_def held_def QueueEmpty_def qsize_zero_iff)
  have eq: "old_node_turn env nq s = (if ne then (False, s\<lparr>node_q := q1\<rparr>)
      else if nq < node_queue_max env then (True, s\<lparr>node_q := q1\<rparr>)
      else (te \<and> QueueEmpty (Some (sched_q s)), s\<lparr>node_q := q1, thread_q := q2\<rparr>))"
    using n t by (simp add: old_node_turn_def)
  show "sched_ok contents s1" "held contents s1 = held contents s" "msgs contents s1 = msgs contents s"
    "t \<longleftrightarrow> held contents s Node_queue \<noteq> 0 \<and> (nq < node_queue_max env
       \<or> held contents s Thread_queue = 0 \<and> held contents s Thread_prio_queue = 0)"
    "sched_q s1 = sched_q s"
    using assms(2) e e2 q unfolding eq by (auto split: if_splits)
qed

lemma node_pop_effect:
  assumes "sched_ok contents s" "try_deq env = try_dequeue" "MPMCQueue_pop (try_deq env) (node_q s) = (r, nq)"
  shows "poll_effect contents Node_queue s (r, s\<lparr>node_q := nq\<rparr>)" "r = None \<longleftrightarrow> held contents s Node_queue = 0"
proof -
  have "counts_ok False (node_q s)" using assms(1) by (simp add: sched_ok_def)
  note a = ac_pop_size [OF this assms(3) [unfolded MPMCQueue_pop_def assms(2)]]
  show "poll_effect contents Node_queue s (r, s\<lparr>node_q := nq\<rparr>)"
    using assms(1) a
    by (cases r) (auto simp: poll_effect_def sched_ok_def held_def msgs_def fun_eq_iff split: source.split)
  show "r = None \<longleftrightarrow> held contents s Node_queue = 0" using a(2) by (simp add: held_def)
qed

lemma thread_pop_effect:
  fixes env :: "('q, 'm) sched_env"
  assumes "sched_ok contents s" "try_deq env = try_dequeue" "MPSCQueue_pop (try_deq env) (thread_q s) = (r, tq)"
  shows "poll_effect contents Thread_queue s (r, s\<lparr>thread_q := tq\<rparr>)" "r = None \<longleftrightarrow> held contents s Thread_queue = 0"
  using take_thread_effect [OF assms(1,2)] assms(3) by (simp_all add: CmiTakeThreadQueue_def)

end

text \<open>
  The two streaks bound the iterations the PE's own work can wait while the thread queue is never
  empty: each iteration that runs something else lowers this measure.
\<close>

definition wait_bound :: "('q, 'm) sched_env \<Rightarrow> int \<Rightarrow> int \<Rightarrow> int" where
  "wait_bound env tq nq =
     (thread_queue_max env - tq) * (node_queue_max env + 1) + (node_queue_max env - nq)"

definition streaks_ok :: "('q, 'm) sched_env \<Rightarrow> int \<Rightarrow> int \<Rightarrow> bool" where
  "streaks_ok env tq nq \<longleftrightarrow> 0 \<le> tq \<and> tq \<le> thread_queue_max env \<and> 0 \<le> nq \<and> nq \<le> node_queue_max env"

definition busy :: "('q \<Rightarrow> 'm multiset) \<Rightarrow> ('q, 'm) sched \<Rightarrow> bool" where
  "busy contents s \<longleftrightarrow> sched_ok contents s \<and> held contents s Thread_queue \<noteq> 0 \<and> held contents s Thread_prio_queue \<noteq> 0"

lemma runTaken_event: "runTaken env src (r, s) = (w, s') \<Longrightarrow> w = map_option (Pair src) r"
  by (cases r) (auto simp: runTaken_def)

lemma wait_bound_thread:
  assumes "streaks_ok env tq nq" "tq < thread_queue_max env"
  shows "wait_bound env (tq + 1) 0 < wait_bound env tq nq"
proof -
  have "(thread_queue_max env - tq) * (node_queue_max env + 1)
      = (thread_queue_max env - (tq + 1)) * (node_queue_max env + 1) + (node_queue_max env + 1)"
    by (simp add: algebra_simps)
  then show ?thesis using assms(1) by (simp add: wait_bound_def streaks_ok_def)
qed

context concurrent_queue
begin

lemma chain_progress:
  assumes "busy contents s" "try_deq env = try_dequeue" "streaks_ok env tq nq" "1 \<le> node_queue_max env"
    and "old_chain env tq nq s = (w, idle, tq', nq', s')"
  shows "(\<exists>m. w = Some (Thread_prio_queue, m))
    \<or> streaks_ok env tq' nq' \<and> wait_bound env tq' nq' < wait_bound env tq nq"
proof -
  have ok: "sched_ok contents s" and h: "held contents s Thread_queue \<noteq> 0" "held contents s Thread_prio_queue \<noteq> 0"
    using assms(1) by (simp_all add: busy_def)
  obtain t s1 where nt: "old_node_turn env nq s = (t, s1)" by force
  note n = node_turn_effect [OF ok nt]
  show ?thesis
  proof (cases t)
    case True
    then have lt: "nq < node_queue_max env" "held contents s1 Node_queue \<noteq> 0" using n h by auto
    obtain r q where pop: "MPMCQueue_pop (try_deq env) (node_q s1) = (r, q)" by force
    have "r \<noteq> None" using node_pop_effect(2) [OF n(1) assms(2) pop] lt(2) by simp
    then have "tq' = tq" "nq' = nq + 1"
      using assms(5) nt True pop by (auto simp: old_chain_def old_node_branch_def split: prod.splits)
    then show ?thesis using lt(1) assms(3) by (simp add: streaks_ok_def wait_bound_def)
  next
    case False
    obtain te q where e: "MPSCQueue_empty (thread_q s1) = (te, q)" by force
    note te = thread_empty_effect [OF n(1) e]
    let ?s2 = "s1\<lparr>thread_q := q\<rparr>"
    have "\<not> te" using te(4) n(2) h(1) by simp
    then have ch: "old_chain env tq nq s = (let (w, tqs, s3) = old_thread_branch env tq ?s2 in (w, False, tqs, 0, s3))"
      using nt False e by (simp add: old_chain_def)
    have ne: "\<not> QueueEmpty (Some (sched_q ?s2))" "pq_inv (sched_q ?s2)"
      using n(1) n(5) h(2) ok by (auto simp: sched_ok_def held_def QueueEmpty_def qsize_zero_iff)
    show ?thesis
    proof (cases "tq < thread_queue_max env")
      case True
      obtain r q' where pop: "MPSCQueue_pop (try_deq env) (thread_q ?s2) = (r, q')" by force
      have "r \<noteq> None" using thread_pop_effect(2) [OF te(1) assms(2) pop] te(2) n(2) h(1) by simp
      then have "tq' = tq + 1" "nq' = 0"
        using assms(5) pop True by (auto simp: ch old_thread_branch_def split: prod.splits)
      then show ?thesis using True assms(3,4) wait_bound_thread [OF assms(3) True] by (simp add: streaks_ok_def)
    next
      case False
      obtain m where "queue_top (sched_q ?s2) = Some m"
        using pq_take_effect(1) [OF ne(2)] ne(1) by (auto simp: QueueEmpty_def)
      then have "w = Some (Thread_prio_queue, m)"
        using assms(5) False ne(1)
        by (auto simp: ch old_thread_branch_def QueueTop_def runTaken_def split: prod.splits)
      then show ?thesis by blast
    qed
  qed
qed

lemma trace_reaches_local_work:
  assumes "try_deq env = try_dequeue" "streaks_ok env tq nq" "1 \<le> node_queue_max env"
    and "\<forall>(s', w) \<in> set (old_trace n env lc tq nq s). busy contents s'"
    and "wait_bound env tq nq < int n"
  shows "\<exists>s' m. (s', Some (Thread_prio_queue, m)) \<in> set (old_trace n env lc tq nq s)"
  using assms(2,4,5)
proof (induction n arbitrary: lc tq nq s)
  case 0
  have "0 \<le> wait_bound env tq nq" using 0(1) by (simp add: streaks_ok_def wait_bound_def)
  then show ?case using 0(3) by simp
next
  case (Suc n)
  let ?s1 = "snd (CmiSchedulerPollIpc env (raise_condition env CcdSCHEDLOOP s))"
  obtain w idle tq' nq' s2 where c: "old_chain env tq nq ?s1 = (w, idle, tq', nq', s2)" by (metis prod_cases5)
  obtain lc' s4 where p: "old_progress env lc (if idle then CmiSchedulerSetIdle env s2 else s2) = (lc', s4)" by force
  have tr: "old_trace (Suc n) env lc tq nq s = (?s1, w) # old_trace n env lc' tq' nq' (csd_periodic env s4)"
    using c p by simp
  have b: "busy contents ?s1" using Suc.prems(2) unfolding tr by simp
  show ?case
  proof (cases "\<exists>m. w = Some (Thread_prio_queue, m)")
    case True
    then show ?thesis unfolding tr by auto
  next
    case False
    then have "streaks_ok env tq' nq'" "wait_bound env tq' nq' < wait_bound env tq nq"
      using chain_progress [OF b assms(1) Suc.prems(1) assms(3) c] by auto
    then have "\<exists>s' m. (s', Some (Thread_prio_queue, m)) \<in> set (old_trace n env lc' tq' nq' (csd_periodic env s4))"
      using Suc.prems(2,3) unfolding tr by (intro Suc.IH) auto
    then show ?thesis unfolding tr by auto
  qed
qed

lemma local_or_idle_effect:
  assumes "sched_ok contents s" "quiet_env env" "old_local_or_idle env s = (w, idle, s')"
  shows "one_less contents s (w, s')" "idle \<longleftrightarrow> held contents s Thread_prio_queue = 0" "idle \<longleftrightarrow> w = None"
proof -
  have e: "old_local_or_idle env s = (let (w, s1) = pollThreadPrioQueue env s in (w, QueueEmpty (Some (sched_q s)), s1))"
    by (simp add: old_local_or_idle_def pollThreadPrioQueue_def CmiTakeThreadPrioQueue_def runTaken_def)
  have "QueueEmpty (Some (sched_q s)) \<longleftrightarrow> held contents s Thread_prio_queue = 0"
    using assms(1) by (simp add: sched_ok_def held_def QueueEmpty_def qsize_zero_iff)
  then show "one_less contents s (w, s')" "idle \<longleftrightarrow> held contents s Thread_prio_queue = 0" "idle \<longleftrightarrow> w = None"
    using poll_thread_prio_effect [OF assms(1,2)] assms(3) unfolding e by (auto split: prod.splits)
qed

lemma prio_branch_effect:
  assumes "sched_ok contents s" "quiet_env env" "old_prio_branch env nq s = (w, idle, nq', s')"
  shows "one_less contents s (w, s')" "idle \<longleftrightarrow> w = None"
    "idle \<Longrightarrow> held contents s Thread_prio_queue = 0 \<and> held contents s Node_prio_queue = 0"
proof -
  obtain w0 i0 s0 where l: "old_local_or_idle env s = (w0, i0, s0)" by (metis prod_cases3)
  note le = local_or_idle_effect [OF assms(1,2) l]
  have q: "pq_inv (node_prio s)" "pq_inv (sched_q s)" "node_len s = qsize (node_prio s)" "try_lock env s"
    "0 \<le> qsize (node_prio s)"
    using assms(1,2) by (simp_all add: sched_ok_def quiet_env_def pq_inv_def)
  let ?c = "(nq < node_queue_max env \<or> QueueEmpty (Some (sched_q s))) \<and> node_len s > 0"
  have br: "old_prio_branch env nq s = (if ?c then (let (w, s1) = pollNodePrioQueue env s in (w, False, nq + 1, s1))
      else (w0, i0, 0, s0))"
    using l q by (auto simp: old_prio_branch_def pollNodePrioQueue_def CmiTakeNodePrioQueue_def QueueEmpty_def)
  note pe = poll_node_prio_effect [OF assms(1,2)]
  have np: "held contents s Node_prio_queue = 0 \<longleftrightarrow> \<not> node_len s > 0"
    using q by (auto simp: held_def qsize_zero_iff)
  show "one_less contents s (w, s')" "idle \<longleftrightarrow> w = None"
    using assms(3) le(1,3) pe np unfolding br by (auto split: prod.splits if_splits)
  show "held contents s Thread_prio_queue = 0 \<and> held contents s Node_prio_queue = 0" if "idle"
  proof -
    have nc: "\<not> ?c" "i0" using assms(3) that unfolding br by (auto split: prod.splits if_splits)
    then have t: "held contents s Thread_prio_queue = 0" using le(2) by simp
    then have "QueueEmpty (Some (sched_q s))" using q(2) by (simp add: held_def QueueEmpty_def qsize_zero_iff)
    then show ?thesis using nc(1) t np by simp
  qed
qed

lemma thread_branch_effect:
  assumes "sched_ok contents s" "try_deq env = try_dequeue" "quiet_env env" "held contents s Thread_queue \<noteq> 0"
    and "old_thread_branch env tq s = (w, tq', s')"
  shows "one_less contents s (w, s')" "w \<noteq> None"
proof -
  obtain r q where pop: "MPSCQueue_pop (try_deq env) (thread_q s) = (r, q)" by force
  note pe = thread_pop_effect [OF assms(1,2) pop]
  note rt = runTaken_effect [OF assms(3) pe(1), of Thread_queue]
  have e: "QueueEmpty (Some (sched_q s)) \<longleftrightarrow> held contents s Thread_prio_queue = 0"
    using assms(1) by (simp add: sched_ok_def held_def QueueEmpty_def qsize_zero_iff)
  have "one_less contents s (w, s') \<and> w \<noteq> None"
  proof (cases "tq < thread_queue_max env \<or> QueueEmpty (Some (sched_q s))")
    case True
    obtain w1 s1 where "runTaken env Thread_queue (r, s\<lparr>thread_q := q\<rparr>) = (w1, s1)" by force
    then show ?thesis using True assms(4,5) pop pe(2) rt by (auto simp: old_thread_branch_def)
  next
    case False
    obtain w1 s1 where "pollThreadPrioQueue env s = (w1, s1)" by force
    then show ?thesis using False assms(5) poll_thread_prio_effect [OF assms(1,3)] e
      by (auto simp: old_thread_branch_def pollThreadPrioQueue_def CmiTakeThreadPrioQueue_def)
  qed
  then show "one_less contents s (w, s')" "w \<noteq> None" by simp_all
qed

lemma chain_effect:
  assumes "sched_ok contents s" "try_deq env = try_dequeue" "quiet_env env"
    and "old_chain env tq nq s = (w, idle, tq', nq', s')"
  shows "one_less contents s (w, s')" "idle \<longleftrightarrow> w = None" "idle \<Longrightarrow> total_held contents s = 0"
proof -
  obtain t s1 where nt: "old_node_turn env nq s = (t, s1)" by force
  note n = node_turn_effect [OF assms(1) nt]
  have from_s: "one_less contents s1 r \<Longrightarrow> one_less contents s r" for r
    using n(2,3) by (cases "fst r") (simp_all add: one_less_def)
  have "one_less contents s (w, s') \<and> (idle \<longleftrightarrow> w = None) \<and> (idle \<longrightarrow> total_held contents s = 0)"
  proof (cases t)
    case True
    obtain r q where pop: "MPMCQueue_pop (try_deq env) (node_q s1) = (r, q)" by force
    note pe = node_pop_effect [OF n(1) assms(2) pop]
    have "r \<noteq> None" using pe(2) n(2,4) True by simp
    then show ?thesis
      using runTaken_effect [OF assms(3) pe(1), of Node_queue] assms(4) nt True pop from_s
      by (auto simp: old_chain_def old_node_branch_def split: prod.splits)
  next
    case False
    obtain te q where e: "MPSCQueue_empty (thread_q s1) = (te, q)" by force
    note te = thread_empty_effect [OF n(1) e]
    let ?s2 = "s1\<lparr>thread_q := q\<rparr>"
    have from_2: "one_less contents ?s2 r \<Longrightarrow> one_less contents s r" for r
      using n(2,3) te(2,3) by (cases "fst r") (simp_all add: one_less_def)
    show ?thesis
    proof (cases te)
      case True
      obtain w1 i1 n1 s3 where pb: "old_prio_branch env nq ?s2 = (w1, i1, n1, s3)" by (metis prod_cases4)
      note b = prio_branch_effect [OF te(1) assms(3) pb]
      have r: "w = w1" "idle = i1" "s' = s3" using assms(4) nt False e True pb by (auto simp: old_chain_def)
      have "total_held contents s = 0" if i1
        using b(3) [OF that] te(2,4) n(2,4) True False by (auto simp: total_held_def)
      then show ?thesis using b(1,2) from_2 r by blast
    next
      case te': False
      obtain w1 t1 s3 where tb: "old_thread_branch env tq ?s2 = (w1, t1, s3)" by (metis prod_cases3)
      have "held contents ?s2 Thread_queue \<noteq> 0" using te(2,4) te' by simp
      note b = thread_branch_effect [OF te(1) assms(2,3) this tb]
      have "w = w1" "\<not> idle" "s' = s3" using assms(4) nt False e te' tb by (auto simp: old_chain_def)
      then show ?thesis using b from_2 by blast
    qed
  qed
  then show "one_less contents s (w, s')" "idle \<longleftrightarrow> w = None" "idle \<Longrightarrow> total_held contents s = 0" by simp_all
qed

lemma old_poll_drains:
  assumes "sched_ok contents s" "try_deq env = try_dequeue" "quiet_env env" "total_held contents s < fuel"
  shows "\<exists>ms s'. CsdSchedulePollOld fuel env tq nq s = Some (ms, s')
    \<and> mset (map snd ms) = msgs contents s \<and> msgs contents s' = {#}"
  using assms(1,4)
proof (induction fuel arbitrary: s tq nq)
  case (Suc fuel)
  let ?s1 = "raise_condition env CcdSCHEDLOOP (csd_periodic env s)"
  have "queues ?s1 = queues s" "CmiSchedulerPollIpc env ?s1 = (False, ?s1)"
    using assms(3) by (simp_all add: quiet_env_def CmiSchedulerPollIpc_def)
  note q = queues_ok [OF this(1), of contents] and ipc = this(2)
  obtain w idle tq' nq' s2 where c: "old_chain env tq nq ?s1 = (w, idle, tq', nq', s2)" by (metis prod_cases5)
  have ok1: "sched_ok contents ?s1" using q(1) Suc.prems(1) by simp
  note e = chain_effect [OF ok1 assms(2,3) c]
  show ?case
  proof (cases w)
    case None
    then have z: "msgs contents s = {#}" "msgs contents s2 = {#}"
      using e q(3) total_held_msgs [of contents ?s1] by (simp_all add: one_less_def)
    have "queues (snd (backend_progress env s2)) = queues s2" using assms(3) by (simp add: quiet_env_def)
    from queues_ok(3) [OF this, of contents] show ?thesis using None e(2) z c ipc by simp
  next
    case (Some ev)
    then have o: "sched_ok contents s2" "msgs contents s = add_mset (snd ev) (msgs contents s2)"
      using e(1) q(3) by (simp_all add: one_less_def)
    moreover from this obtain ms s' where "CsdSchedulePollOld fuel env tq' nq' s2 = Some (ms, s')"
      "mset (map snd ms) = msgs contents s2" "msgs contents s' = {#}"
      using Suc.IH [OF o(1), of tq' nq'] Suc.prems(2) by (auto simp: total_held_msgs)
    ultimately show ?thesis using Some e(2) c ipc by simp
  qed
qed simp

end

section \<open>Properties\<close>

text \<open>
  C13. The original \<open>CsdSchedulePoll\<close> runs every queued message and returns: in an environment
  that adds no messages it ends within one iteration per queued message plus one, whatever the
  streaks are, has run exactly the queued messages, each once, and leaves all queues empty.
\<close>

theorem old_poll_drains_all_queues:
  assumes "concurrent_queue enqueue (try_deq env) contents" "quiet_env env" "sched_ok contents s"
    and "total_held contents s < fuel"
  shows "\<exists>ms s'. CsdSchedulePollOld fuel env tq nq s = Some (ms, s')
    \<and> mset (map snd ms) = msgs contents s \<and> msgs contents s' = {#}"
  by (rule concurrent_queue.old_poll_drains [OF assms(1,3) refl assms(2,4)])

theorem old_poll_drains_all_queues_witness:
  "\<exists>ms s'. CsdSchedulePollOld 7 sample_env 0 0 sample_sched = Some (ms, s')
     \<and> mset (map snd ms) = {#1, 2, 7, 1, 8, 9#}"
proof -
  have m: "msgs mset sample_sched = {#1, 2, 7, 1, 8, 9#}"
    by (simp add: msgs_def sample_sched_def queue_init_inv)
      (simp add: sample_queue_def entries_def all_levels_def)
  have "concurrent_queue mutex_push (try_deq sample_env) mset"
    using fifo.concurrent_queue_axioms by (simp add: sample_env_def)
  from old_poll_drains_all_queues [OF this quiet_sample_env sample_sched_ok, of 7 0 0] m
  show ?thesis by (auto simp: total_held_msgs)
qed







end
