(* ===== verification/Args.thy ===== *)
theory Args
  imports Prelude
begin

text \<open>
  The command-line argument routines of \<^verbatim>\<open>src/convcore.cpp\<close>: the list of argument
  descriptions that is kept until it can be printed (\<^verbatim>\<open>CmiAddCLA\<close>, \<^verbatim>\<open>CmiPrintCLAs\<close>,
  \<^verbatim>\<open>CmiArgInit\<close>), the operations on a NULL-terminated \<^verbatim>\<open>argv\<close> array, and the getters for
  string, number, flag and integer options.

  An \<^verbatim>\<open>argv\<close> array is the list of its memory cells, a cell being NULL (\<^term>\<open>None\<close>) or a
  string; a read past the last cell is the error \<^verbatim>\<open>OutOfBounds\<close>, so the getters are shown
  never to leave the array.  \<^verbatim>\<open>sscanf\<close> is modelled for the two conversions the getters use,
  \<^verbatim>\<open>%i\<close> and the decimal \<^verbatim>\<open>%ld\<close> of \<^verbatim>\<open>SCNd64\<close>, after the C standard: a value that does not fit
  the destination makes the conversion undefined and is the error \<^verbatim>\<open>Undefined\<close>.  The
  floating-point conversion is a parameter.
\<close>

section \<open>Strings and conversions of the C library\<close>

type_synonym argv = "string option list"

datatype arg_error =
    OutOfBounds
  | ArgumentNotComplete
  | NoNumber string
  | CannotParse string string
  | Undefined string

definition isspace :: "char \<Rightarrow> bool" where
  "isspace c = (of_char c = (32::nat) \<or> of_char c \<in> {9..13::nat})"

definition digit_value :: "char \<Rightarrow> nat" where
  "digit_value c = (let n = of_char c :: nat in
     if 48 \<le> n \<and> n \<le> 57 then n - 48
     else if 97 \<le> n \<and> n \<le> 102 then n - 87
     else if 65 \<le> n \<and> n \<le> 70 then n - 55
     else 99)"

definition digits :: "nat \<Rightarrow> string \<Rightarrow> string" where
  "digits b = takeWhile (\<lambda>c. digit_value c < b)"

definition value_of :: "nat \<Rightarrow> string \<Rightarrow> nat" where
  "value_of b = foldl (\<lambda>v c. v * b + digit_value c) 0"

fun split_sign :: "string \<Rightarrow> int \<times> string" where
  "split_sign (c # cs) = (if c = CHR ''-'' then (-1, cs)
                          else if c = CHR ''+'' then (1, cs) else (1, c # cs))"
| "split_sign [] = (1, [])"

fun split_base :: "string \<Rightarrow> nat \<times> string" where
  "split_base (c # d # cs) =
     (if c = CHR ''0'' then if d = CHR ''x'' \<or> d = CHR ''X'' then (16, cs) else (8, c # d # cs)
      else (10, c # d # cs))"
| "split_base [c] = (if c = CHR ''0'' then (8, [c]) else (10, [c]))"
| "split_base [] = (10, [])"

datatype scanned = NoMatch | Value int | OutOfRange

definition convert :: "nat \<Rightarrow> int \<Rightarrow> nat \<Rightarrow> string \<Rightarrow> scanned" where
  "convert w sg b s = (let ds = digits b s; v = sg * int (value_of b ds) in
     if ds = [] then NoMatch
     else if - (2 ^ (w - 1)) \<le> v \<and> v < 2 ^ (w - 1) then Value v
     else OutOfRange)"

definition sscanf_i :: "string \<Rightarrow> scanned" where
  "sscanf_i s = (let (sg, t) = split_sign (dropWhile isspace s); (b, u) = split_base t
                 in convert 32 sg b u)"

definition sscanf_ld :: "string \<Rightarrow> scanned" where
  "sscanf_ld s = (let (sg, t) = split_sign (dropWhile isspace s) in convert 64 sg 10 t)"

section \<open>The list of argument descriptions\<close>

record cla =
  cla_arg :: string
  cla_param :: string
  cla_desc :: string

datatype out_line = Banner | Row cla | GroupLine string

record cla_state =
  usageChecked :: bool
  printUsage :: bool
  CLAlist :: "cla list"
  CLAlistMax :: nat
  printed :: "out_line list"

definition CmiAddCLA :: "nat \<Rightarrow> string \<Rightarrow> string \<Rightarrow> string option \<Rightarrow> cla_state \<Rightarrow> cla_state" where
  "CmiAddCLA pe a param desc s =
     (if pe \<noteq> 0 then s
      else case desc of
        None \<Rightarrow> s
      | Some d \<Rightarrow>
          let c = \<lparr>cla_arg = a, cla_param = param, cla_desc = d\<rparr> in
          if usageChecked s
          then if printUsage s then s\<lparr>printed := printed s @ [Row c]\<rparr> else s
          else let len = length (CLAlist s) + 1;
                   mx = (if len > CLAlistMax s then 16 + 2 * len else CLAlistMax s)
               in s\<lparr>CLAlist := CLAlist s @ [c], CLAlistMax := mx\<rparr>)"

definition CmiPrintCLAs :: "nat \<Rightarrow> cla_state \<Rightarrow> cla_state" where
  "CmiPrintCLAs pe s =
     (if pe \<noteq> 0 then s
      else s\<lparr>printed := printed s @
             [Banner, Row \<lparr>cla_arg = ''Option:'', cla_param = ''Parameter:'', cla_desc = ''Description:''\<rparr>]
             @ map Row (CLAlist s)\<rparr>)"

definition usage_request :: "string \<Rightarrow> bool" where
  "usage_request a \<longleftrightarrow> a = ''-?'' \<or> a = ''-h'' \<or> a = ''--help''"

section \<open>Arrays of arguments\<close>

definition cell :: "argv \<Rightarrow> nat \<Rightarrow> arg_error + string option" where
  "cell a i = (if i < length a then Inr (a ! i) else Inl OutOfBounds)"

function arg_init_loop :: "nat \<Rightarrow> argv \<Rightarrow> nat \<Rightarrow> cla_state \<Rightarrow> arg_error + cla_state" where
  "arg_init_loop pe a i s =
     (if i < length a then
        case a ! i of
          None \<Rightarrow> Inr s
        | Some x \<Rightarrow> arg_init_loop pe a (i + 1)
            (if usage_request x then CmiPrintCLAs pe (s\<lparr>printUsage := True\<rparr>) else s)
      else Inl OutOfBounds)"
  by pat_completeness auto
termination by (relation "measure (\<lambda>(pe, a, i, s). length a - i)") auto

definition CmiArgInit :: "nat \<Rightarrow> argv \<Rightarrow> cla_state \<Rightarrow> arg_error + cla_state" where
  "CmiArgInit pe a s =
     (case arg_init_loop pe a 0 s of
        Inl e \<Rightarrow> Inl e
      | Inr s1 \<Rightarrow>
          let s2 = (if pe = 0 then s1\<lparr>CLAlist := [], CLAlistMax := 0\<rparr> else s1)
          in Inr (s2\<lparr>usageChecked := True\<rparr>))"

definition CmiArgGivingUsage :: "nat \<Rightarrow> cla_state \<Rightarrow> bool" where
  "CmiArgGivingUsage pe s \<longleftrightarrow> pe = 0 \<and> printUsage s"

definition CmiArgGroup :: "nat \<Rightarrow> string \<Rightarrow> string option \<Rightarrow> cla_state \<Rightarrow> cla_state" where
  "CmiArgGroup pe parentName groupName s =
     (if CmiArgGivingUsage pe s
      then s\<lparr>printed := printed s @
             [GroupLine (case groupName of None \<Rightarrow> parentName | Some g \<Rightarrow> g)]\<rparr>
      else s)"

function argc_loop :: "argv \<Rightarrow> nat \<Rightarrow> arg_error + nat" where
  "argc_loop a i =
     (if i < length a then if a ! i = None then Inr i else argc_loop a (i + 1)
      else Inl OutOfBounds)"
  by pat_completeness auto
termination by (relation "measure (\<lambda>(a, i). length a - i)") auto

definition CmiGetArgc :: "argv option \<Rightarrow> arg_error + nat" where
  "CmiGetArgc a = (case a of None \<Rightarrow> Inr 0 | Some v \<Rightarrow> argc_loop v 0)"

definition CmiCopyArgs :: "argv \<Rightarrow> arg_error + argv" where
  "CmiCopyArgs a =
     (case CmiGetArgc (Some a) of
        Inl e \<Rightarrow> Inl e
      | Inr argc \<Rightarrow> Inr (map (\<lambda>i. a ! i) [0..<argc + 1]))"

function delete_loop :: "argv \<Rightarrow> nat \<Rightarrow> nat \<Rightarrow> arg_error + argv" where
  "delete_loop a i k =
     (if i + k < length a then
        let v = a ! (i + k); a' = a[i := v]
        in if v = None then Inr a' else delete_loop a' (i + 1) k
      else Inl OutOfBounds)"
  by pat_completeness auto
termination by (relation "measure (\<lambda>(a, i, k). length a - i)") auto

text \<open>\<^verbatim>\<open>CmiDeleteArgs(&argv[i], k)\<close>: \<^verbatim>\<open>i\<close> is the offset of the pointer in the array.\<close>

definition CmiDeleteArgs :: "argv \<Rightarrow> nat \<Rightarrow> nat \<Rightarrow> arg_error + argv" where
  "CmiDeleteArgs a i k = delete_loop a i k"

declare arg_init_loop.simps [simp del] argc_loop.simps [simp del] delete_loop.simps [simp del]

section \<open>The getters\<close>

text \<open>A getter returns \<^term>\<open>None\<close> for 0 (not found), or the value stored through \<^verbatim>\<open>optDest\<close>.\<close>

function string_loop :: "argv \<Rightarrow> string \<Rightarrow> nat \<Rightarrow> arg_error + string option \<times> argv" where
  "string_loop a arg i =
     (if i < length a then
        case a ! i of
          None \<Rightarrow> Inr (None, a)
        | Some x \<Rightarrow>
            if x = arg then
              case cell a (i + 1) of
                Inl e \<Rightarrow> Inl e
              | Inr None \<Rightarrow> Inl ArgumentNotComplete
              | Inr (Some v) \<Rightarrow>
                  (case CmiDeleteArgs a i 2 of Inl e \<Rightarrow> Inl e | Inr a' \<Rightarrow> Inr (Some v, a'))
            else string_loop a arg (i + 1)
      else Inl OutOfBounds)"
  by pat_completeness auto
termination by (relation "measure (\<lambda>(a, arg, i). length a - i)") auto

definition CmiGetArgStringDesc ::
  "nat \<Rightarrow> argv \<Rightarrow> string \<Rightarrow> string option \<Rightarrow> cla_state \<Rightarrow> cla_state \<times> (arg_error + string option \<times> argv)" where
  "CmiGetArgStringDesc pe a arg desc s =
     (CmiAddCLA pe arg ''string'' desc s, string_loop a arg 0)"

definition CmiGetArgString ::
  "nat \<Rightarrow> argv \<Rightarrow> string \<Rightarrow> cla_state \<Rightarrow> cla_state \<times> (arg_error + string option \<times> argv)" where
  "CmiGetArgString pe a arg s = CmiGetArgStringDesc pe a arg (Some []) s"

definition CmiGetArgDoubleDesc ::
  "(string \<Rightarrow> 'd option) \<Rightarrow> nat \<Rightarrow> argv \<Rightarrow> string \<Rightarrow> string option \<Rightarrow> cla_state
     \<Rightarrow> cla_state \<times> (arg_error + 'd option \<times> argv)" where
  "CmiGetArgDoubleDesc sscanf_lg pe a arg desc s =
     (let s1 = CmiAddCLA pe arg ''number'' desc s;
          (s2, r) = CmiGetArgStringDesc pe a arg None s1
      in (s2, case r of
                Inl e \<Rightarrow> Inl e
              | Inr (None, a') \<Rightarrow> Inr (None, a')
              | Inr (Some number, a') \<Rightarrow> Inr (sscanf_lg number, a')))"

definition option_of :: "string \<Rightarrow> string \<Rightarrow> arg_error + string option \<Rightarrow> (arg_error + string option \<times> nat) option" where
  "option_of arg x following =
     (if take (length arg) x = arg then
        case drop (length arg) x of
          [] \<Rightarrow> Some (case following of Inl e \<Rightarrow> Inl e | Inr opt \<Rightarrow> Inr (opt, 2))
        | c # cs \<Rightarrow>
            if c = CHR ''='' then Some (Inr (Some cs, 1))
            else if c \<in> set ''-+0123456789'' then Some (Inr (Some (c # cs), 1))
            else None
      else None)"

function int_loop :: "(string \<Rightarrow> scanned) \<Rightarrow> argv \<Rightarrow> string \<Rightarrow> nat \<Rightarrow> arg_error + int option \<times> argv" where
  "int_loop scan a arg i =
     (if i < length a then
        case a ! i of
          None \<Rightarrow> Inr (None, a)
        | Some x \<Rightarrow>
            (case option_of arg x (cell a (i + 1)) of
               None \<Rightarrow> int_loop scan a arg (i + 1)
             | Some (Inl e) \<Rightarrow> Inl e
             | Some (Inr (None, nDel)) \<Rightarrow> Inl (NoNumber arg)
             | Some (Inr (Some opt, nDel)) \<Rightarrow>
                 (case scan opt of
                    NoMatch \<Rightarrow> Inl (CannotParse arg opt)
                  | OutOfRange \<Rightarrow> Inl (Undefined opt)
                  | Value v \<Rightarrow>
                      (case CmiDeleteArgs a i nDel of
                         Inl e \<Rightarrow> Inl e
                       | Inr a' \<Rightarrow> Inr (Some v, a'))))
      else Inl OutOfBounds)"
  by pat_completeness auto
termination by (relation "measure (\<lambda>(scan, a, arg, i). length a - i)") auto

definition CmiGetArgIntDesc ::
  "nat \<Rightarrow> argv \<Rightarrow> string \<Rightarrow> string option \<Rightarrow> cla_state \<Rightarrow> cla_state \<times> (arg_error + int option \<times> argv)" where
  "CmiGetArgIntDesc pe a arg desc s =
     (CmiAddCLA pe arg ''integer'' desc s, int_loop sscanf_i a arg 0)"

definition CmiGetArgInt ::
  "nat \<Rightarrow> argv \<Rightarrow> string \<Rightarrow> cla_state \<Rightarrow> cla_state \<times> (arg_error + int option \<times> argv)" where
  "CmiGetArgInt pe a arg s = CmiGetArgIntDesc pe a arg (Some []) s"

definition CmiGetArgLongDesc ::
  "nat \<Rightarrow> argv \<Rightarrow> string \<Rightarrow> string option \<Rightarrow> cla_state \<Rightarrow> cla_state \<times> (arg_error + int option \<times> argv)" where
  "CmiGetArgLongDesc pe a arg desc s =
     (CmiAddCLA pe arg ''integer'' desc s, int_loop sscanf_ld a arg 0)"

definition CmiGetArgLong ::
  "nat \<Rightarrow> argv \<Rightarrow> string \<Rightarrow> cla_state \<Rightarrow> cla_state \<times> (arg_error + int option \<times> argv)" where
  "CmiGetArgLong pe a arg s = CmiGetArgLongDesc pe a arg (Some []) s"

function flag_loop :: "argv \<Rightarrow> string \<Rightarrow> nat \<Rightarrow> arg_error + bool \<times> argv" where
  "flag_loop a arg i =
     (if i < length a then
        case a ! i of
          None \<Rightarrow> Inr (False, a)
        | Some x \<Rightarrow>
            if x = arg then
              (case CmiDeleteArgs a i 1 of Inl e \<Rightarrow> Inl e | Inr a' \<Rightarrow> Inr (True, a'))
            else flag_loop a arg (i + 1)
      else Inl OutOfBounds)"
  by pat_completeness auto
termination by (relation "measure (\<lambda>(a, arg, i). length a - i)") auto

definition CmiGetArgFlagDesc ::
  "nat \<Rightarrow> argv \<Rightarrow> string \<Rightarrow> string option \<Rightarrow> cla_state \<Rightarrow> cla_state \<times> (arg_error + bool \<times> argv)" where
  "CmiGetArgFlagDesc pe a arg desc s = (CmiAddCLA pe arg [] desc s, flag_loop a arg 0)"

definition CmiGetArgFlag ::
  "nat \<Rightarrow> argv \<Rightarrow> string \<Rightarrow> cla_state \<Rightarrow> cla_state \<times> (arg_error + bool \<times> argv)" where
  "CmiGetArgFlag pe a arg s = CmiGetArgFlagDesc pe a arg (Some []) s"

text \<open>\<^verbatim>\<open>CmiDeprecateArgInt\<close> returns whether the warning is printed.\<close>

definition CmiDeprecateArgInt ::
  "nat \<Rightarrow> argv \<Rightarrow> string \<Rightarrow> string option \<Rightarrow> cla_state \<Rightarrow> cla_state \<times> (arg_error + bool \<times> argv)" where
  "CmiDeprecateArgInt pe a arg desc s =
     (let (s1, r) = CmiGetArgIntDesc pe a arg desc s
      in (s1, case r of Inl e \<Rightarrow> Inl e | Inr (found, a') \<Rightarrow> Inr (found \<noteq> None, a')))"

declare string_loop.simps [simp del] int_loop.simps [simp del] flag_loop.simps [simp del]

section \<open>The argument list an array stands for\<close>

definition args :: "argv \<Rightarrow> string list" where
  "args a = map the (takeWhile (\<lambda>x. x \<noteq> None) a)"

definition argv_ok :: "argv \<Rightarrow> bool" where
  "argv_ok a \<longleftrightarrow> None \<in> set a"


text \<open>Reference definitions on the argument list: what the getters promise.\<close>

definition keep :: "string \<Rightarrow> arg_error + 'v \<times> string list \<Rightarrow> arg_error + 'v \<times> string list" where
  "keep x r = (case r of Inl e \<Rightarrow> Inl e | Inr (v, xs) \<Rightarrow> Inr (v, x # xs))"

fun spec_string :: "string \<Rightarrow> string list \<Rightarrow> arg_error + string option \<times> string list" where
  "spec_string arg [] = Inr (None, [])"
| "spec_string arg (x # xs) =
     (if x = arg then case xs of [] \<Rightarrow> Inl ArgumentNotComplete | v # ys \<Rightarrow> Inr (Some v, ys)
      else keep x (spec_string arg xs))"

fun spec_flag :: "string \<Rightarrow> string list \<Rightarrow> arg_error + bool \<times> string list" where
  "spec_flag arg [] = Inr (False, [])"
| "spec_flag arg (x # xs) = (if x = arg then Inr (True, xs) else keep x (spec_flag arg xs))"

fun first_of :: "'a list \<Rightarrow> 'a option" where
  "first_of [] = None"
| "first_of (x # xs) = Some x"

fun spec_int :: "(string \<Rightarrow> scanned) \<Rightarrow> string \<Rightarrow> string list \<Rightarrow> arg_error + int option \<times> string list" where
  "spec_int scan arg [] = Inr (None, [])"
| "spec_int scan arg (x # xs) =
     (case option_of arg x (Inr (first_of xs)) of
        None \<Rightarrow> keep x (spec_int scan arg xs)
      | Some (Inl e) \<Rightarrow> Inl e
      | Some (Inr (None, n)) \<Rightarrow> Inl (NoNumber arg)
      | Some (Inr (Some opt, n)) \<Rightarrow>
          (case scan opt of
             NoMatch \<Rightarrow> Inl (CannotParse arg opt)
           | OutOfRange \<Rightarrow> Inl (Undefined opt)
           | Value v \<Rightarrow> Inr (Some v, drop n (x # xs))))"

definition refines :: "nat \<Rightarrow> arg_error + 'v \<times> argv \<Rightarrow> arg_error + 'v \<times> string list \<Rightarrow> bool" where
  "refines n r spec \<longleftrightarrow>
     (case r of
        Inl e \<Rightarrow> spec = Inl e
      | Inr (v, a') \<Rightarrow> spec = Inr (v, args a') \<and> argv_ok a' \<and> length a' = n)"

section \<open>Arrays as lists\<close>

text \<open>The array that holds the arguments \<^verbatim>\<open>xs\<close>, its NULL and the cells after it.\<close>

definition cells :: "string list \<Rightarrow> argv \<Rightarrow> argv" where
  "cells xs rest = map Some xs @ None # rest"

lemma args_cells [simp]: "args (cells xs rest) = xs"
proof -
  have "takeWhile (\<lambda>x. x \<noteq> None) (cells xs rest) = map Some xs"
    unfolding cells_def by (induction xs) auto
  then show ?thesis by (simp add: args_def comp_def)
qed

lemma argv_ok_cells [simp]: "argv_ok (cells xs rest)"
  by (simp add: argv_ok_def cells_def)

lemma length_cells [simp]: "length (cells xs rest) = length xs + 1 + length rest"
  by (simp add: cells_def)

lemma argv_ok_ex: "argv_ok a \<Longrightarrow> \<exists>xs rest. a = cells xs rest"
proof (induction a)
  case Nil
  then show ?case by (simp add: argv_ok_def)
next
  case (Cons c cs)
  show ?case
  proof (cases c)
    case None
    then have "c # cs = cells [] cs" by (simp add: cells_def)
    then show ?thesis by blast
  next
    case (Some x)
    then have "argv_ok cs" using Cons.prems by (simp add: argv_ok_def)
    then obtain xs rest where "cs = cells xs rest" using Cons.IH by blast
    then have "c # cs = cells (x # xs) rest" using Some by (simp add: cells_def)
    then show ?thesis by blast
  qed
qed

lemma argv_okE:
  assumes "argv_ok a"
  obtains rest where "a = cells (args a) rest"
  using argv_ok_ex [OF assms] args_cells that by metis

lemma cells_nth:
  assumes "i = length pre"
  shows "cells (pre @ x # xs) rest ! i = Some x"
    and "cells pre rest ! i = None"
    and "i < length (cells (pre @ xs) rest)"
    and "cell (cells (pre @ x # xs) rest) (i + 1) = Inr (first_of xs)"
  using assms by (cases xs; simp add: nth_append cell_def cells_def)+

lemmas loop_cells = cells_nth [OF refl]

lemma delete_loop_cells:
  assumes "length mid = k" and "i = length pre"
  shows "\<exists>rest'. delete_loop (map Some pre @ mid @ cells post rest) i k = Inr (cells (pre @ post) rest')
         \<and> length rest' = k + length rest"
  using assms
proof (induction post arbitrary: pre mid i)
  case Nil
  let ?a = "map Some pre @ mid @ cells [] rest"
  have v: "?a ! (i + k) = None" and l: "i + k < length ?a"
    using Nil by (simp_all add: nth_append cells_def)
  have d: "delete_loop ?a i k = Inr (?a[i := None])"
    using v l by (simp add: delete_loop.simps [of ?a i k])
  have "?a[i := None] = cells (pre @ []) (tl (mid @ [None]) @ rest)"
    using Nil by (cases mid) (simp_all add: list_update_append cells_def)
  then show ?case unfolding d using Nil by auto
next
  case (Cons x post)
  let ?a = "map Some pre @ mid @ cells (x # post) rest"
  let ?mid = "tl (mid @ [Some x])"
  have v: "?a ! (i + k) = Some x" and l: "i + k < length ?a"
    using Cons.prems by (simp_all add: nth_append cells_def)
  have u: "?a[i := Some x] = map Some (pre @ [x]) @ ?mid @ cells post rest"
    using Cons.prems by (cases mid) (simp_all add: list_update_append cells_def)
  have "delete_loop ?a i k = delete_loop (?a[i := Some x]) (i + 1) k"
    using v l by (simp add: delete_loop.simps [of ?a i k])
  moreover have "length ?mid = k" "i + 1 = length (pre @ [x])" using Cons.prems by simp_all
  note Cons.IH [OF this]
  ultimately show ?case unfolding u by simp
qed

lemma CmiDeleteArgs_cells:
  assumes "k \<le> length xs"
  shows "\<exists>rest'. CmiDeleteArgs (cells (pre @ xs) rest) (length pre) k = Inr (cells (pre @ drop k xs) rest')
           \<and> length (cells (pre @ drop k xs) rest') = length (cells (pre @ xs) rest)"
proof -
  have k: "length (map Some (take k xs)) = k" using assms by simp
  have "map Some xs = map Some (take k xs) @ map Some (drop k xs)" by (simp flip: map_append)
  then have "cells (pre @ xs) rest = map Some pre @ map Some (take k xs) @ cells (drop k xs) rest"
    by (simp add: cells_def)
  then obtain rest' where
    d: "CmiDeleteArgs (cells (pre @ xs) rest) (length pre) k = Inr (cells (pre @ drop k xs) rest')"
    and l: "length rest' = k + length rest"
    using delete_loop_cells [OF k refl, of pre "drop k xs" rest]
    unfolding CmiDeleteArgs_def by auto
  then show ?thesis using assms by auto
qed

section \<open>The getters refine their list definitions\<close>

lemma refines_Inl [simp]: "refines n (Inl e) spec \<longleftrightarrow> spec = Inl e"
  and refines_Inr [simp]:
    "refines n (Inr (v, a')) spec \<longleftrightarrow> spec = Inr (v, args a') \<and> argv_ok a' \<and> length a' = n"
  by (simp_all add: refines_def)

definition prepend :: "string list \<Rightarrow> arg_error + 'v \<times> string list \<Rightarrow> arg_error + 'v \<times> string list" where
  "prepend xs r = foldr keep xs r"

lemma prepend_simps [simp]:
  "prepend xs (Inl e) = Inl e"
  "prepend xs (Inr (v, ys)) = Inr (v, xs @ ys)"
  "prepend [] r = r"
  by (induction xs) (simp_all add: prepend_def keep_def)

lemma prepend_keep: "prepend xs (keep x r) = prepend (xs @ [x]) r"
  by (simp add: prepend_def)

lemma flag_loop_cells:
  "refines (length (cells (pre @ xs) rest)) (flag_loop (cells (pre @ xs) rest) arg (length pre))
     (prepend pre (spec_flag arg xs))"
proof (induction xs arbitrary: pre)
  case Nil
  then show ?case using loop_cells(2) [of pre rest] by (simp add: flag_loop.simps)
next
  case (Cons x xs)
  let ?a = "cells (pre @ x # xs) rest"
  note here = loop_cells(1) [of pre x xs rest] loop_cells(3) [of pre "x # xs" rest]
  show ?case
  proof (cases "x = arg")
    case True
    obtain rest' where "CmiDeleteArgs ?a (length pre) 1 = Inr (cells (pre @ xs) rest')"
        "length (cells (pre @ xs) rest') = length ?a"
      using CmiDeleteArgs_cells [of 1 "x # xs" pre rest] by auto
    then show ?thesis using here True by (subst flag_loop.simps) simp
  next
    case False
    then have "flag_loop ?a arg (length pre) = flag_loop ?a arg (length (pre @ [x]))"
      using here by (simp add: flag_loop.simps [of ?a arg "length pre"])
    then show ?thesis using Cons.IH [of "pre @ [x]"] False by (simp add: prepend_keep)
  qed
qed

lemma string_loop_cells:
  "refines (length (cells (pre @ xs) rest)) (string_loop (cells (pre @ xs) rest) arg (length pre))
     (prepend pre (spec_string arg xs))"
proof (induction xs arbitrary: pre)
  case Nil
  then show ?case using loop_cells(2) [of pre rest] by (simp add: string_loop.simps)
next
  case (Cons x xs)
  let ?a = "cells (pre @ x # xs) rest"
  note here = loop_cells(1,4) [of pre x xs rest] loop_cells(3) [of pre "x # xs" rest]
  show ?case
  proof (cases "x = arg")
    case True
    show ?thesis
    proof (cases xs)
      case Nil
      then show ?thesis using here True by (subst string_loop.simps) simp
    next
      case (Cons v ys)
      obtain rest' where "CmiDeleteArgs ?a (length pre) 2 = Inr (cells (pre @ ys) rest')"
          "length (cells (pre @ ys) rest') = length ?a"
        using CmiDeleteArgs_cells [of 2 "x # xs" pre rest] Cons by auto
      then show ?thesis using here True Cons by (subst string_loop.simps) simp
    qed
  next
    case False
    then have "string_loop ?a arg (length pre) = string_loop ?a arg (length (pre @ [x]))"
      using here by (simp add: string_loop.simps [of ?a arg "length pre"])
    then show ?thesis using Cons.IH [of "pre @ [x]"] False by (simp add: prepend_keep)
  qed
qed

lemma option_of_deletes:
  "option_of arg x (Inr (first_of xs)) = Some (Inr (Some opt, n)) \<Longrightarrow> n \<le> length (x # xs)"
  "option_of arg x (Inr f) \<noteq> Some (Inl e)"
  by (cases xs; auto simp: option_of_def split: if_splits list.splits)+

lemma int_loop_cells:
  "refines (length (cells (pre @ xs) rest)) (int_loop scan (cells (pre @ xs) rest) arg (length pre))
     (prepend pre (spec_int scan arg xs))"
proof (induction xs arbitrary: pre)
  case Nil
  then show ?case using loop_cells(2) [of pre rest] by (simp add: int_loop.simps)
next
  case (Cons x xs)
  let ?a = "cells (pre @ x # xs) rest"
  note here = loop_cells(1,4) [of pre x xs rest] loop_cells(3) [of pre "x # xs" rest]
  have step: "int_loop scan ?a arg (length pre) =
      (case option_of arg x (Inr (first_of xs)) of
               None \<Rightarrow> int_loop scan ?a arg (length (pre @ [x]))
             | Some (Inl e) \<Rightarrow> Inl e
             | Some (Inr (None, nDel)) \<Rightarrow> Inl (NoNumber arg)
             | Some (Inr (Some opt, nDel)) \<Rightarrow>
                 (case scan opt of
                    NoMatch \<Rightarrow> Inl (CannotParse arg opt)
                  | OutOfRange \<Rightarrow> Inl (Undefined opt)
                  | Value v \<Rightarrow>
                      (case CmiDeleteArgs ?a (length pre) nDel of
                         Inl e \<Rightarrow> Inl e
                       | Inr a' \<Rightarrow> Inr (Some v, a'))))"
    using here by (subst int_loop.simps) (simp cong: option.case_cong)
  consider (skip) "option_of arg x (Inr (first_of xs)) = None"
    | (bare) n where "option_of arg x (Inr (first_of xs)) = Some (Inr (None, n))"
    | (opt) opt n where "option_of arg x (Inr (first_of xs)) = Some (Inr (Some opt, n))"
    using option_of_deletes(2) by (metis old.sum.exhaust option.exhaust surj_pair)
  then show ?case
  proof cases
    case skip
    then show ?thesis using Cons.IH [of "pre @ [x]"] step by (simp add: prepend_keep)
  next
    case bare
    then show ?thesis using step by simp
  next
    case opt
    then obtain rest' where "CmiDeleteArgs ?a (length pre) n = Inr (cells (pre @ drop n (x # xs)) rest')"
        "length (cells (pre @ drop n (x # xs)) rest') = length ?a"
      using CmiDeleteArgs_cells [OF option_of_deletes(1) [OF opt], of pre rest] by auto
    then show ?thesis using step opt by (simp split: scanned.split)
  qed
qed

lemma getters_refine:
  assumes "argv_ok a"
  shows "refines (length a) (flag_loop a arg 0) (spec_flag arg (args a))"
    and "refines (length a) (string_loop a arg 0) (spec_string arg (args a))"
    and "refines (length a) (int_loop scan a arg 0) (spec_int scan arg (args a))"
proof -
  obtain rest where "a = cells (args a) rest" using argv_okE [OF assms] .
  then show "refines (length a) (flag_loop a arg 0) (spec_flag arg (args a))"
    and "refines (length a) (string_loop a arg 0) (spec_string arg (args a))"
    and "refines (length a) (int_loop scan a arg 0) (spec_int scan arg (args a))"
    using flag_loop_cells [of "[]" "args a" rest] string_loop_cells [of "[]" "args a" rest]
      int_loop_cells [of "[]" "args a" rest] by simp_all
qed

section \<open>Decimal numerals\<close>

definition digit_char :: "nat \<Rightarrow> char" where
  "digit_char n = char_of (48 + n)"

fun show_nat :: "nat \<Rightarrow> string" where
  "show_nat n = (if n < 10 then [digit_char n] else show_nat (n div 10) @ [digit_char (n mod 10)])"

definition show_int :: "int \<Rightarrow> string" where
  "show_int n = (if n < 0 then CHR ''-'' # show_nat (nat (- n)) else show_nat (nat n))"

declare show_nat.simps [simp del]

lemma of_digit_char: "n < 10 \<Longrightarrow> of_char (digit_char n) = (48 + n :: nat)"
  by (simp add: digit_char_def of_char_of)

lemma digit_value_char [simp]: "n < 10 \<Longrightarrow> digit_value (digit_char n) = n"
  by (simp add: digit_value_def of_digit_char)

lemma char_eq_code: "c = d \<longleftrightarrow> (of_char c :: nat) = of_char d"
  by simp

lemma digit_chars: "map digit_char [0..<10] = ''0123456789''"
  by code_simp

lemma digit_char_inject:
  assumes "n < 10"
  shows "digit_char n = CHR ''0'' \<longleftrightarrow> n = 0" and "\<not> isspace (digit_char n)"
    and "digit_char n \<noteq> CHR ''-''" and "digit_char n \<noteq> CHR ''+''" and "digit_char n \<noteq> CHR ''=''"
    and "digit_char n \<noteq> CHR ''x''" and "digit_char n \<noteq> CHR ''X''"
  unfolding char_eq_code isspace_def of_digit_char [OF assms] using assms by auto

lemma digit_char_mem: "n < 10 \<Longrightarrow> digit_char n \<in> set ''-+0123456789''"
proof -
  assume "n < 10"
  then have "digit_char n \<in> set (map digit_char [0..<10])" by simp
  then show ?thesis unfolding digit_chars by simp
qed

lemma show_nat_digits: "\<forall>c \<in> set (show_nat n). digit_value c < 10"
  by (induction n rule: show_nat.induct) (subst show_nat.simps, auto)

lemma value_of_snoc: "value_of b (xs @ [c]) = value_of b xs * b + digit_value c"
  by (simp add: value_of_def)

lemma value_of_show [simp]: "value_of 10 (show_nat n) = n"
proof (induction n rule: show_nat.induct)
  case (1 n)
  show ?case
  proof (cases "n < 10")
    case True
    then show ?thesis by (simp add: show_nat.simps [of n] value_of_def)
  next
    case False
    then show ?thesis using 1 by (simp add: show_nat.simps [of n] value_of_snoc)
  qed
qed

lemma show_nat_hd: "\<exists>d cs. show_nat n = digit_char d # cs \<and> d < 10 \<and> (d = 0 \<longrightarrow> n = 0)"
proof (induction n rule: show_nat.induct)
  case (1 n)
  show ?case
  proof (cases "n < 10")
    case True
    then show ?thesis by (intro exI [of _ n] exI [of _ "[]"]) (simp add: show_nat.simps [of n])
  next
    case False
    then obtain d cs where "show_nat (n div 10) = digit_char d # cs" "d < 10" "d = 0 \<longrightarrow> n div 10 = 0"
      using 1 by blast
    then show ?thesis using False by (auto simp: show_nat.simps [of n])
  qed
qed

lemma digits_show [simp]: "digits 10 (show_nat n) = show_nat n"
  using show_nat_digits [of n] by (simp add: digits_def takeWhile_eq_all_conv)

lemma split_base_show:
  "split_base (show_nat n) = (if n = 0 then (8, show_nat n) else (10, show_nat n))"
proof (cases "n = 0")
  case True
  then show ?thesis by (simp add: show_nat.simps [of 0] digit_char_inject)
next
  case False
  then obtain d cs where "show_nat n = digit_char d # cs" "d < 10" "d \<noteq> 0"
    using show_nat_hd [of n] by blast
  then show ?thesis using False by (cases cs) (simp_all add: digit_char_inject)
qed

lemma convert_show:
  assumes "sg * int n \<in> {- (2 ^ (w - 1)) ..< 2 ^ (w - 1)}" and "b = 10 \<or> n = 0 \<and> b = 8"
  shows "convert w sg b (show_nat n) = Value (sg * int n)"
proof -
  have ne: "show_nat n \<noteq> []" using show_nat_hd [of n] by auto
  have "digits b (show_nat n) = show_nat n \<and> value_of b (show_nat n) = n"
  proof (cases "b = 10")
    case False
    then show ?thesis
      using assms(2) by (simp add: show_nat.simps [of 0] digits_def value_of_def)
  qed simp
  then show ?thesis using assms(1) ne by (simp add: convert_def Let_def)
qed

lemma skip_sign_show:
  "split_sign (dropWhile isspace (show_int n)) = (if n < 0 then -1 else 1, show_nat (nat \<bar>n\<bar>))"
proof (cases "n < 0")
  case True
  then show ?thesis by (simp add: show_int_def isspace_def)
next
  case False
  obtain d cs where "show_nat (nat n) = digit_char d # cs" "d < 10"
    using show_nat_hd [of "nat n"] by blast
  then show ?thesis using False by (simp add: show_int_def digit_char_inject)
qed

lemma sscanf_i_show:
  "- (2 ^ 31) \<le> n \<Longrightarrow> n < 2 ^ 31 \<Longrightarrow> sscanf_i (show_int n) = Value n"
  using convert_show [of "if n < 0 then -1 else 1" "nat \<bar>n\<bar>" 32 "if n = 0 then 8 else 10"]
  by (auto simp: sscanf_i_def skip_sign_show split_base_show split: if_splits)

lemma sscanf_ld_show:
  "- (2 ^ 63) \<le> n \<Longrightarrow> n < 2 ^ 63 \<Longrightarrow> sscanf_ld (show_int n) = Value n"
  using convert_show [of "if n < 0 then -1 else 1" "nat \<bar>n\<bar>" 64 10]
  by (auto simp: sscanf_ld_def skip_sign_show split: if_splits)

section \<open>Counting, copying and the usage list\<close>

lemma argc_loop_cells: "argc_loop (cells (pre @ xs) rest) (length pre) = Inr (length (pre @ xs))"
proof (induction xs arbitrary: pre)
  case Nil
  then show ?case using loop_cells(2) [of pre rest] by (simp add: argc_loop.simps)
next
  case (Cons x xs)
  then show ?case
    using loop_cells(1) [of pre x xs rest] Cons.IH [of "pre @ [x]"]
    by (subst argc_loop.simps) simp
qed

lemma CmiCopyArgs_cells: "CmiCopyArgs (cells xs rest) = Inr (cells xs [])"
proof -
  have "CmiGetArgc (Some (cells xs rest)) = Inr (length xs)"
    using argc_loop_cells [of "[]" xs rest] by (simp add: CmiGetArgc_def)
  moreover have "map (\<lambda>i. cells xs rest ! i) [0..<length xs + 1] = cells xs []"
    by (rule nth_equalityI) (auto simp: cells_def nth_append simp del: upt_Suc)
  ultimately show ?thesis by (simp add: CmiCopyArgs_def)
qed

definition usage_table :: "cla list \<Rightarrow> out_line list" where
  "usage_table cs =
     [Banner, Row \<lparr>cla_arg = ''Option:'', cla_param = ''Parameter:'', cla_desc = ''Description:''\<rparr>]
     @ map Row cs"

lemma arg_init_loop_cells:
  "arg_init_loop 0 (cells (pre @ xs) rest) (length pre) s =
     Inr (s\<lparr>printUsage := printUsage s \<or> filter usage_request xs \<noteq> [],
             printed := printed s @ concat (replicate (length (filter usage_request xs)) (usage_table (CLAlist s)))\<rparr>)"
proof (induction xs arbitrary: pre s)
  case Nil
  then show ?case using loop_cells(2) [of pre rest] by (simp add: arg_init_loop.simps)
next
  case (Cons x xs)
  then show ?case
    using loop_cells(1) [of pre x xs rest] Cons.IH [of "pre @ [x]"]
    by (subst arg_init_loop.simps) (auto simp: CmiPrintCLAs_def usage_table_def)
qed

text \<open>Registering a list of described arguments, one \<^verbatim>\<open>CmiAddCLA\<close> after the other.\<close>

definition register_all :: "nat \<Rightarrow> cla list \<Rightarrow> cla_state \<Rightarrow> cla_state" where
  "register_all pe cs s =
     foldl (\<lambda>s c. CmiAddCLA pe (cla_arg c) (cla_param c) (Some (cla_desc c)) s) s cs"

lemma register_before:
  "\<not> usageChecked s \<Longrightarrow> \<exists>m. register_all 0 cs s = s\<lparr>CLAlist := CLAlist s @ cs, CLAlistMax := m\<rparr>
     \<and> (length (CLAlist s) \<le> CLAlistMax s \<longrightarrow> length (CLAlist s @ cs) \<le> m)"
proof (induction cs arbitrary: s)
  case Nil
  then show ?case by (intro exI [of _ "CLAlistMax s"]) (simp add: register_all_def)
next
  case (Cons c cs)
  let ?s = "CmiAddCLA 0 (cla_arg c) (cla_param c) (Some (cla_desc c)) s"
  have s: "\<not> usageChecked ?s" "CLAlist ?s = CLAlist s @ [c]"
    "?s\<lparr>CLAlist := l, CLAlistMax := m\<rparr> = s\<lparr>CLAlist := l, CLAlistMax := m\<rparr>"
    "length (CLAlist ?s) \<le> CLAlistMax ?s" for l m
    using Cons.prems by (auto simp: CmiAddCLA_def Let_def)
  have "register_all 0 (c # cs) s = register_all 0 cs ?s" by (simp add: register_all_def)
  then show ?case using Cons.IH [OF s(1)] s by auto
qed

lemma register_after:
  "usageChecked s \<Longrightarrow>
     register_all 0 cs s = s\<lparr>printed := printed s @ (if printUsage s then map Row cs else [])\<rparr>"
  by (induction cs arbitrary: s) (auto simp: register_all_def CmiAddCLA_def)

section \<open>Properties\<close>

text \<open>C15. On a NULL-terminated array every getter computes its list definition: it returns the
  same value or the same abort, removes exactly the option it found and keeps the other arguments in
  order, leaves the array NULL-terminated and of the same size, and never reads past it; a
  copied array has the same arguments.\<close>

theorem getters_refine_lists:
  assumes "argv_ok a"
  shows "refines (length a) (snd (CmiGetArgStringDesc pe a arg desc s)) (spec_string arg (args a))
       \<and> refines (length a) (snd (CmiGetArgIntDesc pe a arg desc s)) (spec_int sscanf_i arg (args a))
       \<and> refines (length a) (snd (CmiGetArgLongDesc pe a arg desc s)) (spec_int sscanf_ld arg (args a))
       \<and> refines (length a) (snd (CmiGetArgFlagDesc pe a arg desc s)) (spec_flag arg (args a))
       \<and> CmiGetArgc (Some a) = Inr (length (args a))
       \<and> (\<exists>a'. CmiCopyArgs a = Inr a' \<and> args a' = args a \<and> argv_ok a')"
proof -
  obtain rest where a: "a = cells (args a) rest" using argv_okE [OF assms] .
  have "CmiGetArgc (Some a) = Inr (length (args a))"
    using argc_loop_cells [of "[]" "args a" rest] a by (simp add: CmiGetArgc_def)
  moreover have "CmiCopyArgs a = Inr (cells (args a) [])"
    using CmiCopyArgs_cells [of "args a" rest] a by simp
  ultimately show ?thesis
    using getters_refine [OF assms]
    by (simp add: CmiGetArgStringDesc_def CmiGetArgIntDesc_def CmiGetArgLongDesc_def
        CmiGetArgFlagDesc_def)
qed

definition sample_argv :: argv where
  "sample_argv = [Some ''a.out'', Some ''foo'', Some ''-name'', Some ''bob'', Some ''bar'', None]"

definition cla_start :: cla_state where
  "cla_start = \<lparr>usageChecked = False, printUsage = False, CLAlist = [], CLAlistMax = 0, printed = []\<rparr>"

lemma spec_int_skip:
  "\<forall>y \<in> set pre. take (length arg) y \<noteq> arg \<Longrightarrow> spec_int scan arg (pre @ xs) = prepend pre (spec_int scan arg xs)"
  by (induction pre) (auto simp: option_of_def prepend_def)

theorem getters_refine_lists_witness:
  "argv_ok sample_argv
   \<and> refines 6 (snd (CmiGetArgStringDesc 0 sample_argv ''-name'' None cla_start))
       (Inr (Some ''bob'', [''a.out'', ''foo'', ''bar'']))"
proof -
  have "argv_ok sample_argv" by (simp add: argv_ok_def sample_argv_def)
  moreover have "spec_string ''-name'' (args sample_argv) = Inr (Some ''bob'', [''a.out'', ''foo'', ''bar''])"
    "length sample_argv = 6"
    by (simp_all add: sample_argv_def args_def keep_def)
  ultimately show ?thesis
    using getters_refine_lists [of sample_argv 0 "''-name''" None cla_start] by simp
qed

text \<open>C16. An integer option is read back from its decimal numeral, in each of the three forms the
  command line allows (\<^verbatim>\<open>-p 27\<close>, \<^verbatim>\<open>-p=27\<close>, \<^verbatim>\<open>-p27\<close>), for every \<^verbatim>\<open>int\<close> and every \<^verbatim>\<open>CmiInt8\<close>, and
  only that option is removed.\<close>

theorem int_option_round_trip:
  assumes "argv_ok a" and "args a = pre @ form @ post"
    and "\<forall>y \<in> set pre. take (length arg) y \<noteq> arg"
    and "form \<in> {[arg, show_int n], [arg @ ''='' @ show_int n], [arg @ show_int n]}"
    and "- (2 ^ (w - 1)) \<le> n \<and> n < 2 ^ (w - 1)"
    and "w = (32 :: nat) \<and> get = CmiGetArgIntDesc \<or> w = 64 \<and> get = CmiGetArgLongDesc"
  shows "\<exists>a'. snd (get pe a arg desc s) = Inr (Some n, a') \<and> args a' = pre @ post \<and> argv_ok a'"
proof -
  obtain scan where get: "snd (get pe a arg desc s) = int_loop scan a arg 0"
    and scan: "scan (show_int n) = Value n"
    using assms(5,6) sscanf_i_show sscanf_ld_show
    by (auto simp: CmiGetArgIntDesc_def CmiGetArgLongDesc_def)
  obtain c cs where c: "show_int n = c # cs" "c \<in> set ''-+0123456789''" "c \<noteq> CHR ''=''"
    using show_nat_hd [of "nat n"] digit_char_mem digit_char_inject(5)
    by (cases "n < 0") (fastforce simp: show_int_def)+
  have "spec_int scan arg (form @ post) = Inr (Some n, post)"
    using assms(4) scan c by (auto simp: option_of_def)
  then have "spec_int scan arg (args a) = Inr (Some n, pre @ post)"
    using assms(2) spec_int_skip [OF assms(3)] by simp
  then show ?thesis
    using getters_refine(3) [OF assms(1), of scan arg] get by (auto simp: refines_def split: sum.splits prod.splits)
qed

theorem int_option_round_trip_witness:
  "\<exists>a'. snd (CmiGetArgIntDesc 0 [Some ''a.out'', Some (''+pe='' @ show_int (-27)), None] ''+pe'' None cla_start)
          = Inr (Some (-27), a') \<and> args a' = [''a.out''] @ [] \<and> argv_ok a'"
  by (rule int_option_round_trip [where w = 32 and form = "[''+pe'' @ ''='' @ show_int (-27)]"])
    (simp_all add: args_def argv_ok_def)

text \<open>The first argument that can carry an integer option, and the value it carries, if any.\<close>

definition can_carry :: "string \<Rightarrow> string \<Rightarrow> bool" where
  "can_carry arg x \<longleftrightarrow> option_of arg x (Inr None) \<noteq> None"

definition carried :: "string \<Rightarrow> string \<Rightarrow> string list \<Rightarrow> string option" where
  "carried arg x xs = (case option_of arg x (Inr (first_of xs)) of Some (Inr (v, n)) \<Rightarrow> v | _ \<Rightarrow> None)"

lemma can_carry_following: "option_of arg x (Inr f) = None \<longleftrightarrow> \<not> can_carry arg x"
  by (auto simp: can_carry_def option_of_def split: list.splits if_splits)

definition int_failure :: "(string \<Rightarrow> scanned) \<Rightarrow> string \<Rightarrow> string option \<Rightarrow> arg_error option" where
  "int_failure scan arg v = (case v of
     None \<Rightarrow> Some (NoNumber arg)
   | Some t \<Rightarrow> (case scan t of NoMatch \<Rightarrow> Some (CannotParse arg t) | OutOfRange \<Rightarrow> Some (Undefined t) | Value i \<Rightarrow> None))"

lemma spec_int_error:
  "spec_int scan arg xs = Inl e \<longleftrightarrow>
     (\<exists>x post. dropWhile (\<lambda>x. \<not> can_carry arg x) xs = x # post \<and> int_failure scan arg (carried arg x post) = Some e)"
proof (induction xs)
  case Nil
  then show ?case by simp
next
  case (Cons x xs)
  show ?case
  proof (cases "can_carry arg x")
    case False
    then have "spec_int scan arg (x # xs) = keep x (spec_int scan arg xs)"
      using can_carry_following [of arg x] by simp
    then show ?thesis using Cons False by (auto simp: keep_def split: sum.splits)
  next
    case True
    then obtain r where r: "option_of arg x (Inr (first_of xs)) = Some (Inr r)"
      using can_carry_following [of arg x "first_of xs"] option_of_deletes(2)
      by (metis old.sum.exhaust option.exhaust)
    show ?thesis using True r
      by (cases r; cases "fst r") (auto simp: carried_def int_failure_def split: scanned.splits)
  qed
qed

text \<open>C17. What makes the integer getter fail. It aborts for a missing number exactly when the first argument
  that can carry the option has no value, and for an unreadable one exactly when the value it carries is not
  a number; when the value is a number outside the range of \<open>int\<close>, what \<open>sscanf\<close> stores is undefined; it
  never reads past the array, and in every other case it returns.\<close>

theorem int_getter_aborts_iff:
  assumes "argv_ok a"
  shows "snd (CmiGetArgIntDesc pe a arg desc s) = Inl e \<longleftrightarrow>
           (\<exists>x post. dropWhile (\<lambda>x. \<not> can_carry arg x) (args a) = x # post
              \<and> (carried arg x post = None \<and> e = NoNumber arg
                 \<or> (\<exists>v. carried arg x post = Some v \<and> sscanf_i v = NoMatch \<and> e = CannotParse arg v)
                 \<or> (\<exists>v. carried arg x post = Some v \<and> sscanf_i v = OutOfRange \<and> e = Undefined v)))"
proof -
  have "int_loop sscanf_i a arg 0 = Inl e \<longleftrightarrow> spec_int sscanf_i arg (args a) = Inl e"
    using getters_refine(3) [OF assms, of sscanf_i arg] by (auto simp: refines_def split: sum.splits)
  moreover have "int_failure sscanf_i arg c = Some e \<longleftrightarrow> c = None \<and> e = NoNumber arg
      \<or> (\<exists>v. c = Some v \<and> sscanf_i v = NoMatch \<and> e = CannotParse arg v)
      \<or> (\<exists>v. c = Some v \<and> sscanf_i v = OutOfRange \<and> e = Undefined v)" for c
    by (auto simp: int_failure_def split: option.splits scanned.splits)
  ultimately show ?thesis by (simp add: CmiGetArgIntDesc_def spec_int_error)
qed

theorem int_getter_aborts_iff_witness:
  "argv_ok [Some ''a.out'', Some ''+pe'', Some ''four'', None]
   \<and> snd (CmiGetArgIntDesc 0 [Some ''a.out'', Some ''+pe'', Some ''four'', None] ''+pe'' None cla_start)
       = Inl (CannotParse ''+pe'' ''four'')"
proof -
  let ?a = "[Some ''a.out'', Some ''+pe'', Some ''four'', None]"
  have ok: "argv_ok ?a" by (simp add: argv_ok_def)
  have "dropWhile (\<lambda>x. \<not> can_carry ''+pe'' x) (args ?a) = ''+pe'' # [''four'']"
    by (simp add: args_def can_carry_def option_of_def)
  moreover have "carried ''+pe'' ''+pe'' [''four''] = Some ''four''"
    by (simp add: carried_def option_of_def)
  moreover have "sscanf_i ''four'' = NoMatch"
    by (simp add: sscanf_i_def convert_def digits_def digit_value_def isspace_def)
  ultimately show ?thesis
    using int_getter_aborts_iff [OF ok, of 0 "''+pe''" None cla_start] ok by auto
qed

text \<open>The usage text is complete: the descriptions that processing element 0 registers before
  the command line is inspected are kept and printed once for every usage request found there,
  those registered later are printed at once if there was a request, and nothing is printed
  otherwise.\<close>

theorem usage_is_complete:
  assumes "argv_ok a"
  shows "\<exists>s. CmiArgInit 0 a (register_all 0 before cla_start) = Inr s
     \<and> printed (register_all 0 after s) =
         concat (replicate (length (filter usage_request (args a))) (usage_table before))
         @ (if filter usage_request (args a) \<noteq> [] then map Row after else [])"
proof -
  obtain rest where a: "a = cells (args a) rest" using argv_okE [OF assms(1)] .
  obtain m where "register_all 0 before cla_start = cla_start\<lparr>CLAlist := before, CLAlistMax := m\<rparr>"
    using register_before [of cla_start before] by (auto simp: cla_start_def)
  then have "CmiArgInit 0 a (register_all 0 before cla_start) =
      Inr (cla_start\<lparr>CLAlist := [], CLAlistMax := 0, usageChecked := True,
        printUsage := filter usage_request (args a) \<noteq> [],
        printed := concat (replicate (length (filter usage_request (args a))) (usage_table before))\<rparr>)"
    using arg_init_loop_cells [of "[]" "args a" rest] a
    by (simp add: CmiArgInit_def cla_start_def Let_def)
  then show ?thesis by (simp add: register_after)
qed

theorem usage_is_complete_witness:
  "argv_ok [Some ''a.out'', Some ''-h'', None]
   \<and> (\<exists>s. CmiArgInit 0 [Some ''a.out'', Some ''-h'', None]
            (register_all 0 [\<lparr>cla_arg = ''+pe'', cla_param = ''integer'', cla_desc = []\<rparr>] cla_start) = Inr s
        \<and> length (printed (register_all 0 [] s)) = 3)"
proof -
  let ?a = "[Some ''a.out'', Some ''-h'', None]"
  have ok: "argv_ok ?a" by (simp add: argv_ok_def)
  have "filter usage_request (args ?a) = [''-h'']" by (simp add: args_def usage_request_def)
  then show ?thesis
    using usage_is_complete [OF ok, of "[\<lparr>cla_arg = ''+pe'', cla_param = ''integer'', cla_desc = []\<rparr>]" "[]"] ok
    by (auto simp: usage_table_def)
qed

end
