(* ===== verification/Machine.thy ===== *)
theory Machine
  imports Args "HOL-Library.Signed_Division"
begin

text \<open>
  The numbering of processes and processing elements that \<^verbatim>\<open>ConverseInit\<close> sets up
  (\<^verbatim>\<open>src/convcore.cpp\<close>): the run-size options and their validation, the scheduler options of
  \<^verbatim>\<open>ConverseInit\<close> and of \<^verbatim>\<open>CmiSchedulerInitArgs\<close> (\<^verbatim>\<open>src/scheduler.cpp\<close>), and the division of
  the run into partitions with the translation from local to global numbers.

  Numbers are unbounded integers; where the code multiplies two option values the result is
  checked against the range of \<^verbatim>\<open>int\<close>.  Divisions by zero, accesses outside the two partition
  arrays and reads of unset variables are error values of their own, and a loop that does not
  end is the value \<^term>\<open>None\<close>.
\<close>

section \<open>Errors and the state of the parse\<close>

datatype init_error =
    ArgError arg_error
  | RunSizeError string
  | PartitionAbort string
  | SchedulerConflict
  | DivisionByZero
  | BadIndex
  | UnsetVariable
  | SignedOverflow

type_synonym parse = "argv \<times> cla_state"

definition get_int :: "nat \<Rightarrow> string \<Rightarrow> string option \<Rightarrow> parse \<Rightarrow> init_error + int option \<times> parse" where
  "get_int pe arg desc p =
     (case CmiGetArgIntDesc pe (fst p) arg desc (snd p) of
        (c, Inl e) \<Rightarrow> Inl (ArgError e)
      | (c, Inr (v, a)) \<Rightarrow> Inr (v, (a, c)))"

definition get_long :: "nat \<Rightarrow> string \<Rightarrow> string option \<Rightarrow> parse \<Rightarrow> init_error + int option \<times> parse" where
  "get_long pe arg desc p =
     (case CmiGetArgLongDesc pe (fst p) arg desc (snd p) of
        (c, Inl e) \<Rightarrow> Inl (ArgError e)
      | (c, Inr (v, a)) \<Rightarrow> Inr (v, (a, c)))"

definition get_flag :: "nat \<Rightarrow> string \<Rightarrow> string option \<Rightarrow> parse \<Rightarrow> init_error + bool \<times> parse" where
  "get_flag pe arg desc p =
     (case CmiGetArgFlagDesc pe (fst p) arg desc (snd p) of
        (c, Inl e) \<Rightarrow> Inl (ArgError e)
      | (c, Inr (v, a)) \<Rightarrow> Inr (v, (a, c)))"

definition get_string :: "nat \<Rightarrow> string \<Rightarrow> string option \<Rightarrow> parse \<Rightarrow> init_error + string option \<times> parse" where
  "get_string pe arg desc p =
     (case CmiGetArgStringDesc pe (fst p) arg desc (snd p) of
        (c, Inl e) \<Rightarrow> Inl (ArgError e)
      | (c, Inr (v, a)) \<Rightarrow> Inr (v, (a, c)))"

definition or_else :: "'a option \<Rightarrow> 'a \<Rightarrow> 'a" where
  "or_else v d = (case v of None \<Rightarrow> d | Some x \<Rightarrow> x)"

section \<open>Run size\<close>

record run_size_args =
  plusPeSet :: bool
  plusPSet :: bool
  plusPPNSet :: bool
  totalPes :: int
  pesPerProcess :: int

definition run_size_options :: "nat \<Rightarrow> parse \<Rightarrow> init_error + run_size_args \<times> parse" where
  "run_size_options pe p =
     bindE (get_int pe ''+pe'' (Some []) p) (\<lambda>(pe_opt, p1).
     bindE (get_int pe ''+p'' (Some []) p1) (\<lambda>(p_opt, p2).
     bindE (get_int pe ''+ppn'' (Some []) p2) (\<lambda>(ppn_opt, p3).
       Inr (\<lparr>plusPeSet = pe_opt \<noteq> None, plusPSet = p_opt \<noteq> None, plusPPNSet = ppn_opt \<noteq> None,
             totalPes = or_else pe_opt 0,
             pesPerProcess = or_else ppn_opt (or_else p_opt 0)\<rparr>, p3))))"

definition sizeArgError :: "run_size_args \<Rightarrow> int \<Rightarrow> string option" where
  "sizeArgError r numnodes =
     (if of_bool (plusPeSet r) + of_bool (plusPSet r) + of_bool (plusPPNSet r) > (1::int)
      then Some ''only one of +pe, +ppn and +p may be specified''
      else if plusPeSet r \<and> totalPes r < 1 then Some ''+pe must be at least 1''
      else if (plusPPNSet r \<or> plusPSet r) \<and> pesPerProcess r < 1 then Some ''+ppn/+p must be at least 1''
      else if plusPeSet r \<and> totalPes r < numnodes
      then Some ''Number of PEs must be greater than or equal to number of nodes''
      else if plusPeSet r \<and> totalPes r mod numnodes \<noteq> 0
      then Some ''Number of PEs must be a multiple of number of nodes''
      else None)"

definition int_mult :: "int \<Rightarrow> int \<Rightarrow> init_error + int" where
  "int_mult a b = (if - (2 ^ 31) \<le> a * b \<and> a * b < 2 ^ 31 then Inr (a * b) else Inl SignedOverflow)"

text \<open>The pair of \<^verbatim>\<open>Cmi_npes\<close> and \<^verbatim>\<open>Cmi_mynodesize\<close>.\<close>

definition derive_run_size :: "run_size_args \<Rightarrow> int \<Rightarrow> init_error + int \<times> int" where
  "derive_run_size r numnodes =
     (case sizeArgError r numnodes of
        Some e \<Rightarrow> Inl (RunSizeError e)
      | None \<Rightarrow>
          if plusPeSet r then Inr (totalPes r, totalPes r div numnodes)
          else if plusPPNSet r \<or> plusPSet r
          then bindE (int_mult (pesPerProcess r) numnodes) (\<lambda>n. Inr (n, pesPerProcess r))
          else Inr (numnodes, 1))"

section \<open>Scheduler options\<close>

record sched_options =
  opt_backend_poll_freq :: int
  opt_thread_queue_max :: int
  opt_node_queue_max :: int
  opt_backend_poll_thread :: int

definition at_least_one :: "int \<Rightarrow> int" where
  "at_least_one v = (if v < 1 then 1 else v)"

definition scheduler_options :: "nat \<Rightarrow> int \<Rightarrow> parse \<Rightarrow> init_error + sched_options \<times> parse" where
  "scheduler_options pe poll_freq_default p =
     bindE (get_int pe ''+backend_poll_freq'' (Some []) p) (\<lambda>(f, p1).
     bindE (get_int pe ''+thread_queue_max''
       (Some ''old scheduler: after N consecutive thread-queue messages, run one from the priority queue'') p1)
       (\<lambda>(t, p2).
     bindE (get_int pe ''+node_queue_max''
       (Some ''after N consecutive node-queue messages, run one of the PE's own'') p2) (\<lambda>(n, p3).
     bindE (get_int pe ''+backend_poll_thread'' (Some []) p3) (\<lambda>(b, p4).
       Inr (\<lparr>opt_backend_poll_freq = at_least_one (or_else f poll_freq_default),
             opt_thread_queue_max = at_least_one (or_else t 16),
             opt_node_queue_max = at_least_one (or_else n 16),
             opt_backend_poll_thread = at_least_one (or_else b 1)\<rparr>, p4)))))"

record loop_options =
  useOldScheduler :: bool
  useRandomizedScheduler :: bool
  randomizedSeed :: u64
  randomizedSeedGiven :: bool

text \<open>\<^verbatim>\<open>clock\<close> is the microsecond count of the system clock.\<close>

definition CmiSchedulerInitArgs :: "nat \<Rightarrow> u64 \<Rightarrow> parse \<Rightarrow> init_error + loop_options \<times> parse" where
  "CmiSchedulerInitArgs pe clock p =
     bindE (get_flag pe ''+old-scheduler'' (Some ''Use the original hardcoded scheduler loop instead of the default registered-queue scheduler'') p) (\<lambda>(old, p1).
     bindE (get_flag pe ''+randomized_msgq'' (Some ''Run messages in uniformly random order from one pool fed by every message source (debugging; ignores priorities and FIFO order)'') p1) (\<lambda>(rnd, p2).
     bindE (get_long pe ''+randomized_seed'' (Some ''Base seed for +randomized_msgq (default: from the wall clock)'') p2) (\<lambda>(seed, p3).
       if rnd \<and> old then Inl SchedulerConflict
       else Inr (\<lparr>useOldScheduler = old, useRandomizedScheduler = rnd,
                  randomizedSeed = (case seed of Some v \<Rightarrow> word_of_int v | None \<Rightarrow> clock),
                  randomizedSeedGiven = (seed \<noteq> None)\<rparr>, p3))))"

datatype scheduler_kind = Old_scheduler | Randomized_scheduler | Registered_scheduler

definition CsdScheduler_kind :: "loop_options \<Rightarrow> scheduler_kind" where
  "CsdScheduler_kind o' = (if useOldScheduler o' then Old_scheduler
     else if useRandomizedScheduler o' then Randomized_scheduler else Registered_scheduler)"

section \<open>Partitions\<close>

datatype Partition_Type = PARTITION_SINGLETON | PARTITION_DEFAULT | PARTITION_MASTER | PARTITION_PREFIX

record PartitionInfo =
  ptype :: Partition_Type
  isTopoaware :: bool
  scheme :: int
  numPartitions :: int
  partitionSize :: "int list"
  partitionPrefix :: "int list"
  nodeMap :: "int list"
  myPartition :: int
  partsizes :: "string option"

record machine =
  Cmi_mynode :: int
  Cmi_numnodes :: int
  Cmi_npes :: int
  Cmi_mynodesize :: int
  Cmi_nodestart :: int
  mynode_global :: int
  numnodes_global :: int
  numpes_global :: int
  Cmi_nodestartGlobal :: int
  partitionInfo :: PartitionInfo

definition CmiNodeOf :: "machine \<Rightarrow> int \<Rightarrow> int" where
  "CmiNodeOf m pe = pe sdiv Cmi_mynodesize m"

definition CmiRankOf :: "machine \<Rightarrow> int \<Rightarrow> int" where
  "CmiRankOf m pe = pe smod Cmi_mynodesize m"

lemma sdiv_smod_nonneg:
  fixes a b :: int
  assumes "0 \<le> a" and "0 \<le> b"
  shows "a sdiv b = a div b" and "a smod b = a mod b"
  using assms by (auto simp: signed_divide_int_def signed_modulo_int_def sgn_if abs_if)

definition CmiNodeFirst :: "machine \<Rightarrow> int \<Rightarrow> int" where
  "CmiNodeFirst m node = node * Cmi_mynodesize m"

text \<open>The setters a program may call before the partitions are made; each returns an abort or the
  changed description.\<close>

definition CmiSetNumPartitions :: "int \<Rightarrow> PartitionInfo \<Rightarrow> PartitionInfo" where
  "CmiSetNumPartitions n i = i\<lparr>numPartitions := n\<rparr>"

definition CmiSetMasterPartition :: "int \<Rightarrow> PartitionInfo \<Rightarrow> init_error + PartitionInfo" where
  "CmiSetMasterPartition mynode i =
     (if mynode = 0 \<and> ptype i \<noteq> PARTITION_DEFAULT
      then Inl (PartitionAbort ''setMasterPartition used with incompatible option'')
      else Inr (i\<lparr>ptype := PARTITION_MASTER\<rparr>))"

definition CmiSetPartitionSizes :: "int \<Rightarrow> string \<Rightarrow> PartitionInfo \<Rightarrow> init_error + PartitionInfo" where
  "CmiSetPartitionSizes mynode sizes i =
     (if mynode = 0 \<and> ptype i \<noteq> PARTITION_DEFAULT
      then Inl (PartitionAbort ''setPartitionSizes used with incompatible option'')
      else Inr (i\<lparr>partsizes := Some sizes, ptype := PARTITION_PREFIX\<rparr>))"

definition CmiSetPartitionScheme :: "int \<Rightarrow> PartitionInfo \<Rightarrow> PartitionInfo" where
  "CmiSetPartitionScheme s i = i\<lparr>scheme := s, isTopoaware := True\<rparr>"

definition CmiSetCustomPartitioning :: "PartitionInfo \<Rightarrow> PartitionInfo" where
  "CmiSetCustomPartitioning i = i\<lparr>scheme := 100, isTopoaware := True\<rparr>"

text \<open>The option part of \<^verbatim>\<open>create_partition_map\<close>: the two arrays are allocated and zeroed with
  \<^verbatim>\<open>numPartitions\<close> elements, none when that number is not positive.\<close>

definition partition_options :: "nat \<Rightarrow> int \<Rightarrow> parse \<Rightarrow> init_error + PartitionInfo \<times> parse" where
  "partition_options pe mynode p =
     bindE (get_int pe ''+partitions'' (Some ''number of partitions'') p) (\<lambda>(n1, p1).
     bindE (case n1 of
              Some n \<Rightarrow> Inr (n, p1)
            | None \<Rightarrow> bindE (get_int pe ''+replicas'' (Some ''number of partitions'') p1)
                        (\<lambda>(n2, p2). Inr (or_else n2 1, p2))) (\<lambda>(n, p2).
     bindE (get_flag pe ''+master_partition'' (Some ''assign a process as master partition'') p2) (\<lambda>(master, p3).
     bindE (get_string pe ''+partition_sizes'' (Some ''size of partitions'') p3) (\<lambda>(sizes, p4).
     if sizes \<noteq> None \<and> mynode = 0 \<and> master
     then Inl (PartitionAbort ''+partition_sizes used with incompatible option, possibly +master_partition'')
     else
     bindE (get_flag pe ''+partition_topology'' (Some ''topology aware partitions'') p4) (\<lambda>(topo, p5).
     bindE (get_int pe ''+partition_topology_scheme'' (Some ''topology aware partitioning scheme'') p5) (\<lambda>(sch, p6).
     bindE (get_flag pe ''+use_custom_partition'' (Some ''custom partitioning scheme'') p6) (\<lambda>(custom, p7).
       Inr (\<lparr>ptype = (if sizes \<noteq> None then PARTITION_PREFIX
                      else if master then PARTITION_MASTER else PARTITION_DEFAULT),
             isTopoaware = (topo \<or> sch \<noteq> None \<or> custom),
             scheme = (if custom then 100 else or_else sch (if topo then 1 else 0)),
             numPartitions = n,
             partitionSize = replicate (nat n) 0,
             partitionPrefix = replicate (nat n) 0,
             nodeMap = [],
             myPartition = 0,
             partsizes = sizes\<rparr>, p7))))))))"

text \<open>The equal division that the default and the master layout share, from index \<^verbatim>\<open>k\<close> on.\<close>

definition uniform_fill :: "nat \<Rightarrow> nat \<Rightarrow> int list \<times> int list \<Rightarrow> int list \<times> int list" where
  "uniform_fill k n = fold (\<lambda>i (sz, pf).
     (sz[i := sz ! (i - 1)], pf[i := pf ! (i - 1) + sz ! (i - 1)])) [k..<n]"

definition default_layout :: "int \<Rightarrow> int \<Rightarrow> PartitionInfo \<Rightarrow> init_error + PartitionInfo" where
  "default_layout mynode numnodes i =
     (let n = numPartitions i in
      if n = 0 then Inl DivisionByZero
      else if numnodes mod n \<noteq> 0
      then Inl (PartitionAbort ''Number of partitions does not evenly divide number of processes'')
      else if n < 0 then Inl BadIndex
      else let s0 = numnodes div n;
               (sz, pf) = uniform_fill 1 (nat n)
                 ((partitionSize i)[0 := s0], (partitionPrefix i)[0 := 0])
           in if s0 = 0 then Inl DivisionByZero
              else Inr (i\<lparr>partitionSize := sz, partitionPrefix := pf, myPartition := mynode div s0\<rparr>))"

definition master_layout :: "int \<Rightarrow> int \<Rightarrow> PartitionInfo \<Rightarrow> init_error + PartitionInfo" where
  "master_layout mynode numnodes i =
     (let n = numPartitions i in
      if n - 1 = 0 then Inl DivisionByZero
      else if (numnodes - 1) mod (n - 1) \<noteq> 0
      then Inl (PartitionAbort ''Number of non-master partitions does not evenly divide number of processes minus one'')
      else if n < 2 then Inl BadIndex
      else let s1 = (numnodes - 1) div (n - 1);
               (sz, pf) = uniform_fill 2 (nat n)
                 ((partitionSize i)[0 := 1, 1 := s1], (partitionPrefix i)[0 := 0, 1 := 1])
           in if s1 = 0 then Inl DivisionByZero
              else Inr (i\<lparr>partitionSize := sz, partitionPrefix := pf,
                          myPartition := (if mynode = 0 then 0 else 1 + (mynode - 1) div s1)\<rparr>))"

section \<open>Partition sizes given as a list\<close>

text \<open>The \<^verbatim>\<open>sscanf\<close> formats of the size list are \<^verbatim>\<open>%d\<close> conversions separated by single characters.  The
  result is the list of the values converted, \<^term>\<open>None\<close> when one does not fit an \<^verbatim>\<open>int\<close>.\<close>

datatype directive = Conv | Lit char

definition scan_d :: "string \<Rightarrow> scanned \<times> string" where
  "scan_d s = (let (sg, t) = split_sign (dropWhile isspace s)
               in (convert 32 sg 10 t, drop (length (digits 10 t)) t))"

fun scan_format :: "directive list \<Rightarrow> string \<Rightarrow> int list option" where
  "scan_format [] s = Some []"
| "scan_format (Conv # fs) s =
     (case scan_d s of
        (NoMatch, r) \<Rightarrow> Some []
      | (OutOfRange, r) \<Rightarrow> None
      | (Value v, r) \<Rightarrow> map_option ((#) v) (scan_format fs r))"
| "scan_format (Lit c # fs) s =
     (case s of [] \<Rightarrow> Some [] | d # r \<Rightarrow> if c = d then scan_format fs r else Some [])"

fun split_on :: "char \<Rightarrow> string \<Rightarrow> string list" where
  "split_on c [] = [[]]"
| "split_on c (x # xs) = (if x = c then [] # split_on c xs
     else case split_on c xs of [] \<Rightarrow> [[x]] | t # ts \<Rightarrow> (x # t) # ts)"

definition strtok :: "string \<Rightarrow> string list" where
  "strtok s = filter (\<lambda>t. t \<noteq> []) (split_on (CHR '','') s)"

text \<open>The variables one token sets: \<^verbatim>\<open>start\<close>, \<^verbatim>\<open>end\<close>, \<^verbatim>\<open>stride\<close>, \<^verbatim>\<open>block\<close> and \<^verbatim>\<open>size\<close>, of which all but
  \<^verbatim>\<open>stride\<close> and \<^verbatim>\<open>block\<close> start unset.\<close>

record range =
  r_start :: "int option"
  r_end :: "int option"
  r_stride :: int
  r_block :: int
  r_size :: "int option"

definition nth_opt :: "'a list \<Rightarrow> nat \<Rightarrow> 'a option" where
  "nth_opt xs i = (if i < length xs then Some (xs ! i) else None)"

definition parse_token :: "string \<Rightarrow> init_error + range" where
  "parse_token token =
     (let hasdash = CHR ''-'' \<in> set token; hascolon = CHR '':'' \<in> set token;
          hasdot = CHR ''.'' \<in> set token;
          scan = (\<lambda>fs f. case scan_format fs token of None \<Rightarrow> Inl (ArgError (Undefined token)) | Some vs \<Rightarrow> Inr (f vs));
          checked = (\<lambda>r. if r_block r > r_stride r then r\<lparr>r_block := 1\<rparr> else r)
      in if hasdash then
           if hascolon then
             if hasdot then
               scan [Conv, Lit CHR ''-'', Conv, Lit CHR '':'', Conv, Lit CHR ''.'', Conv, Lit CHR ''#'', Conv]
                 (\<lambda>vs. checked \<lparr>r_start = nth_opt vs 0, r_end = nth_opt vs 1,
                    r_stride = or_else (nth_opt vs 2) 1, r_block = or_else (nth_opt vs 3) 1, r_size = nth_opt vs 4\<rparr>)
             else
               scan [Conv, Lit CHR ''-'', Conv, Lit CHR '':'', Conv, Lit CHR ''#'', Conv]
                 (\<lambda>vs. checked \<lparr>r_start = nth_opt vs 0, r_end = nth_opt vs 1,
                    r_stride = or_else (nth_opt vs 2) 1, r_block = 1, r_size = nth_opt vs 3\<rparr>)
           else
             scan [Conv, Lit CHR ''-'', Conv, Lit CHR ''#'', Conv]
               (\<lambda>vs. checked \<lparr>r_start = nth_opt vs 0, r_end = nth_opt vs 1,
                  r_stride = 1, r_block = 1, r_size = nth_opt vs 2\<rparr>)
         else
           scan [Conv, Lit CHR ''#'', Conv]
             (\<lambda>vs. checked \<lparr>r_start = nth_opt vs 0, r_end = nth_opt vs 0,
                r_stride = 1, r_block = 1, r_size = nth_opt vs 1\<rparr>))"

function fill_block :: "int \<Rightarrow> int \<Rightarrow> int \<Rightarrow> int \<Rightarrow> int \<Rightarrow> int list \<Rightarrow> init_error + int list" where
  "fill_block z endi i block j sz =
     (if j < block then
        if i + j > endi then Inr sz
        else if 0 \<le> i + j \<and> i + j < int (length sz)
        then fill_block z endi i block (j + 1) (sz[nat (i + j) := z])
        else Inl BadIndex
      else Inr sz)"
  by pat_completeness auto
termination by (relation "measure (\<lambda>(z, endi, i, block, j, sz). nat (block - j))") auto

declare fill_block.simps [simp del]

partial_function (option) fill_sizes ::
  "int \<Rightarrow> int \<Rightarrow> int \<Rightarrow> int \<Rightarrow> int \<Rightarrow> int list \<Rightarrow> (init_error + int list) option" where
  "fill_sizes z endi stride block i sz =
     (if i \<le> endi then
        case fill_block z endi i block 0 sz of
          Inl e \<Rightarrow> Some (Inl e)
        | Inr sz' \<Rightarrow> fill_sizes z endi stride block (i + stride) sz'
      else Some (Inr sz))"

declare fill_sizes.simps [code]

definition apply_token :: "string \<Rightarrow> int list \<Rightarrow> (init_error + int list) option" where
  "apply_token token sz =
     (case parse_token token of
        Inl e \<Rightarrow> Some (Inl e)
      | Inr r \<Rightarrow>
          (case (r_start r, r_end r) of
             (Some st, Some en) \<Rightarrow>
               if st \<le> en
               then (case r_size r of
                       None \<Rightarrow> Some (Inl UnsetVariable)
                     | Some z \<Rightarrow> fill_sizes z en (r_stride r) (r_block r) st sz)
               else Some (Inr sz)
           | _ \<Rightarrow> Some (Inl UnsetVariable)))"

fun apply_tokens :: "string list \<Rightarrow> int list \<Rightarrow> (init_error + int list) option" where
  "apply_tokens [] sz = Some (Inr sz)"
| "apply_tokens (t # ts) sz =
     (case apply_token t sz of
        None \<Rightarrow> None
      | Some (Inl e) \<Rightarrow> Some (Inl e)
      | Some (Inr sz') \<Rightarrow> apply_tokens ts sz')"

text \<open>The loop that turns the sizes into prefixes and finds the own partition, from index \<^verbatim>\<open>i\<close> on.\<close>

function prefix_loop :: "int \<Rightarrow> int list \<Rightarrow> nat \<Rightarrow> nat \<Rightarrow> int list \<Rightarrow> int \<Rightarrow> init_error + int list \<times> int" where
  "prefix_loop mynode sz n i pf my =
     (if i < n then
        if sz ! (i - 1) \<le> 0 then Inl (PartitionAbort ''Partition size has to be greater than zero.'')
        else let x = pf ! (i - 1) + sz ! (i - 1)
             in prefix_loop mynode sz n (i + 1) (pf[i := x])
                  (if x \<le> mynode \<and> mynode < x + sz ! i then int i else my)
      else if sz ! (i - 1) \<le> 0 then Inl (PartitionAbort ''Partition size has to be greater than zero.'')
      else Inr (pf, my))"
  by pat_completeness auto
termination by (relation "measure (\<lambda>(mynode, sz, n, i, pf, my). n - i)") auto

declare prefix_loop.simps [simp del]

definition prefix_layout :: "int \<Rightarrow> int \<Rightarrow> PartitionInfo \<Rightarrow> (init_error + PartitionInfo) option" where
  "prefix_layout mynode numnodes i =
     (case apply_tokens (strtok (or_else (partsizes i) [])) (partitionSize i) of
        None \<Rightarrow> None
      | Some (Inl e) \<Rightarrow> Some (Inl e)
      | Some (Inr sz) \<Rightarrow>
          if numPartitions i \<le> 0 then Some (Inl BadIndex)
          else Some (bindE (prefix_loop mynode sz (nat (numPartitions i)) 1 ((partitionPrefix i)[0 := 0]) 0)
                 (\<lambda>(pf, my). Inr (i\<lparr>partitionSize := sz, partitionPrefix := pf, myPartition := my\<rparr>))))"

definition partition_layout :: "int \<Rightarrow> int \<Rightarrow> PartitionInfo \<Rightarrow> (init_error + PartitionInfo) option" where
  "partition_layout mynode numnodes i =
     (case ptype i of
        PARTITION_DEFAULT \<Rightarrow> Some (default_layout mynode numnodes i)
      | PARTITION_MASTER \<Rightarrow> Some (master_layout mynode numnodes i)
      | PARTITION_PREFIX \<Rightarrow> prefix_layout mynode numnodes i
      | PARTITION_SINGLETON \<Rightarrow> Some (Inr i))"

definition int_nth :: "int list \<Rightarrow> int \<Rightarrow> init_error + int" where
  "int_nth xs i = (if 0 \<le> i \<and> i < int (length xs) then Inr (xs ! nat i) else Inl BadIndex)"

definition create_partition_map :: "nat \<Rightarrow> parse \<Rightarrow> machine \<Rightarrow> (init_error + machine \<times> parse) option" where
  "create_partition_map pe p m =
     (case partition_options pe (mynode_global m) p of
        Inl e \<Rightarrow> Some (Inl e)
      | Inr (i0, p') \<Rightarrow>
          map_option (\<lambda>r.
            bindE r (\<lambda>i.
            bindE (int_nth (partitionPrefix i) (myPartition i)) (\<lambda>x.
              if isTopoaware i then Inl (PartitionAbort ''Partition aware not implemented yet'')
              else Inr (m\<lparr>Cmi_mynode := Cmi_mynode m - x, partitionInfo := i\<rparr>, p'))))
          (partition_layout (mynode_global m) (numnodes_global m) i0))"

definition CmiCreatePartitions :: "nat \<Rightarrow> parse \<Rightarrow> machine \<Rightarrow> (init_error + machine \<times> parse) option" where
  "CmiCreatePartitions pe p m0 =
     (let m1 = m0\<lparr>numnodes_global := Cmi_numnodes m0, mynode_global := Cmi_mynode m0,
                  numpes_global := Cmi_npes m0,
                  Cmi_nodestartGlobal := Cmi_mynode m0 * Cmi_mynodesize m0\<rparr>
      in map_option (\<lambda>r.
           bindE r (\<lambda>(m2, p').
           bindE (int_nth (partitionSize (partitionInfo m2)) (myPartition (partitionInfo m2))) (\<lambda>nn.
             Inr (m2\<lparr>Cmi_numnodes := nn, Cmi_npes := nn * Cmi_mynodesize m2,
                     Cmi_nodestart := Cmi_mynode m2 * Cmi_mynodesize m2\<rparr>, p'))))
         (create_partition_map pe p m1))"

definition node_lToGTranslate :: "machine \<Rightarrow> int \<Rightarrow> int \<Rightarrow> init_error + int" where
  "node_lToGTranslate m node part =
     (let i = partitionInfo m;
          ranked = (\<lambda>r. bindE r (\<lambda>rank. if isTopoaware i then int_nth (nodeMap i) rank else Inr rank))
      in case ptype i of
           PARTITION_SINGLETON \<Rightarrow> Inr node
         | PARTITION_DEFAULT \<Rightarrow>
             ranked (bindE (int_nth (partitionSize i) 0) (\<lambda>s. Inr (part * s + node)))
         | PARTITION_MASTER \<Rightarrow>
             ranked (if part = 0 then Inr 0
                     else bindE (int_nth (partitionSize i) 1) (\<lambda>s. Inr (1 + (part - 1) * s + node)))
         | PARTITION_PREFIX \<Rightarrow>
             ranked (bindE (int_nth (partitionPrefix i) part) (\<lambda>x. Inr (x + node))))"

definition pe_lToGTranslate :: "machine \<Rightarrow> int \<Rightarrow> int \<Rightarrow> init_error + int" where
  "pe_lToGTranslate m pe part =
     (if ptype (partitionInfo m) = PARTITION_SINGLETON then Inr pe
      else bindE (int_nth (partitionSize (partitionInfo m)) part) (\<lambda>sz.
        if pe < sz * Cmi_mynodesize m
        then bindE (node_lToGTranslate m (CmiNodeOf m pe) part)
               (\<lambda>g. Inr (g * Cmi_mynodesize m + CmiRankOf m pe))
        else bindE (node_lToGTranslate m (pe - sz * Cmi_mynodesize m) part)
               (\<lambda>g. Inr (numpes_global m + g))))"

definition CmiNodeToGlobal :: "machine \<Rightarrow> int \<Rightarrow> init_error + int" where
  "CmiNodeToGlobal m node =
     (if numPartitions (partitionInfo m) = 1 then Inr node
      else node_lToGTranslate m node (myPartition (partitionInfo m)))"

definition CmiMyPeGlobal :: "machine \<Rightarrow> int \<Rightarrow> init_error + int" where
  "CmiMyPeGlobal m pe = pe_lToGTranslate m pe (myPartition (partitionInfo m))"

section \<open>The numbering part of ConverseInit\<close>

text \<open>The backend's answers, \<^verbatim>\<open>mynode\<close> and \<^verbatim>\<open>numnodes\<close>, are arguments; the backend's and the RDMA layer's
  own options are taken out of the command line by the function \<^verbatim>\<open>backend_init\<close>.\<close>

definition ConverseInit_machine ::
  "nat \<Rightarrow> int \<Rightarrow> int \<Rightarrow> (parse \<Rightarrow> init_error + parse) \<Rightarrow> int \<Rightarrow> u64 \<Rightarrow> parse
     \<Rightarrow> (init_error + (machine \<times> sched_options \<times> loop_options) \<times> parse) option" where
  "ConverseInit_machine pe mynode numnodes backend_init poll_freq_default clock p =
     (case
        bindE (get_flag pe ''+glibc_tuned_malloc'' (Some ''raise glibc's mmap/trim/top-pad malloc thresholds (glibc only)'') p) (\<lambda>(_, p1).
        bindE (get_flag pe ''++quiet'' (Some ''Omit non-error runtime messages'') p1) (\<lambda>(_, p2).
        bindE (get_flag pe ''+truecrash'' (Some ''Leave fatal signals uncaught: no stack trace, the original fault reaches the debugger or core dump'') p2) (\<lambda>(_, p3).
        bindE (run_size_options pe p3) (\<lambda>(r, p4).
        bindE (backend_init p4) (\<lambda>p5.
        bindE (derive_run_size r numnodes) (\<lambda>(npes, nodesize).
        bindE (scheduler_options pe poll_freq_default p5) (\<lambda>(so, p6).
        bindE (CmiSchedulerInitArgs pe clock p6) (\<lambda>(lo, p7).
          Inr (\<lparr>Cmi_mynode = mynode, Cmi_numnodes = numnodes, Cmi_npes = npes, Cmi_mynodesize = nodesize,
                Cmi_nodestart = mynode * nodesize, mynode_global = 0, numnodes_global = 0,
                numpes_global = 0, Cmi_nodestartGlobal = 0,
                partitionInfo = \<lparr>ptype = PARTITION_SINGLETON, isTopoaware = False, scheme = 0,
                  numPartitions = 0, partitionSize = [], partitionPrefix = [], nodeMap = [],
                  myPartition = 0, partsizes = None\<rparr>\<rparr>, so, lo, p7)))))))))
      of Inl e \<Rightarrow> Some (Inl e)
       | Inr (m, so, lo, p7) \<Rightarrow>
           map_option (\<lambda>r. bindE r (\<lambda>(m', p8). Inr ((m', so, lo), p8))) (CmiCreatePartitions pe p7 m))"

section \<open>Prefix sums\<close>

definition prefix_ok :: "nat \<Rightarrow> int list \<Rightarrow> int list \<Rightarrow> bool" where
  "prefix_ok n sz pf \<longleftrightarrow> (\<forall>j < n. pf ! j = sum_list (take j sz))"

lemma sum_take_Suc: "j < length sz \<Longrightarrow> sum_list (take (Suc j) sz) = sum_list (take j sz) + (sz ! j :: int)"
  by (simp add: take_Suc_conv_app_nth)

lemma sum_take_mono:
  assumes "\<forall>x \<in> set sz. (0::int) \<le> x" and "i \<le> j"
  shows "sum_list (take i sz) \<le> sum_list (take j sz)"
proof -
  have "sum_list (take j sz) = sum_list (take i sz) + sum_list (take (j - i) (drop i sz))"
    using assms(2) by (metis le_add_diff_inverse sum_list_append take_add)
  moreover have "0 \<le> sum_list (take (j - i) (drop i sz))"
    using assms(1) by (intro sum_list_nonneg) (meson in_set_dropD in_set_takeD)
  ultimately show ?thesis by simp
qed

lemma locate:
  assumes "0 \<le> g" and "g < sum_list (sz :: int list)"
  shows "\<exists>k < length sz. sum_list (take k sz) \<le> g \<and> g < sum_list (take (Suc k) sz)"
  using assms
proof (induction sz rule: rev_induct)
  case (snoc x xs)
  show ?case
  proof (cases "g < sum_list xs")
    case True
    then obtain k where "k < length xs" "sum_list (take k xs) \<le> g \<and> g < sum_list (take (Suc k) xs)"
      using snoc by blast
    then show ?thesis by (intro exI [of _ k]) simp
  next
    case False
    then show ?thesis using snoc.prems by (intro exI [of _ "length xs"]) simp
  qed
qed simp

lemma locate_unique:
  assumes pos: "\<forall>x \<in> set sz. (0::int) \<le> x" and "j < length sz" "k < length sz"
    and "0 \<le> x" "x < sz ! j" "0 \<le> y" "y < sz ! k"
    and "sum_list (take j sz) + x = sum_list (take k sz) + y"
  shows "j = k \<and> x = y"
proof -
  have "\<not> j < k"
    using sum_take_mono [OF pos, of "Suc j" k] sum_take_Suc [OF assms(2)] assms by auto
  moreover have "\<not> k < j"
    using sum_take_mono [OF pos, of "Suc k" j] sum_take_Suc [OF assms(3)] assms by auto
  ultimately show ?thesis using assms(8) by auto
qed

lemma prefix_ok_step:
  assumes "prefix_ok i sz pf" "0 < i" "i < length sz" "length pf = length sz"
    and "y = pf ! (i - 1) + sz ! (i - 1)"
  shows "prefix_ok (Suc i) (sz[i := x]) (pf[i := y])"
proof -
  have "y = sum_list (take i sz)"
    using assms sum_take_Suc [of "i - 1" sz] by (simp add: prefix_ok_def)
  then show ?thesis using assms
    by (auto simp: prefix_ok_def less_Suc_eq take_update_cancel nth_list_update)
qed

lemma uniform_fill_prefix:
  assumes "0 < k" "k \<le> n" "n \<le> length sz" "length pf = length sz" "prefix_ok k sz pf"
  shows "\<exists>sz' pf'. uniform_fill k n (sz, pf) = (sz', pf') \<and> length sz' = length sz \<and> length pf' = length sz
    \<and> (\<forall>j < k. sz' ! j = sz ! j) \<and> (\<forall>j. k \<le> j \<and> j < n \<longrightarrow> sz' ! j = sz ! (k - 1))
    \<and> prefix_ok n sz' pf'"
  using assms
proof (induction n)
  case (Suc n)
  show ?case
  proof (cases "k = Suc n")
    case True
    then show ?thesis using Suc.prems by (simp add: uniform_fill_def)
  next
    case False
    then obtain sz' pf' where u: "uniform_fill k n (sz, pf) = (sz', pf')" and l: "length sz' = length sz"
        "length pf' = length sz" and a: "\<forall>j < k. sz' ! j = sz ! j"
        and b: "\<forall>j. k \<le> j \<and> j < n \<longrightarrow> sz' ! j = sz ! (k - 1)" and c: "prefix_ok n sz' pf'"
      using Suc by auto
    have n: "0 < n" "n < length sz'" "length pf' = length sz'" and kn: "k \<le> n" using Suc.prems False l by auto
    have "uniform_fill k (Suc n) (sz, pf)
        = (sz'[n := sz' ! (n - 1)], pf'[n := pf' ! (n - 1) + sz' ! (n - 1)])"
      using u Suc.prems(1,2) False by (simp add: uniform_fill_def)
    moreover have "sz' ! (n - 1) = sz ! (k - 1)"
    proof (cases "n = k")
      case True
      then show ?thesis using a Suc.prems(1) by simp
    next
      case False
      then have "k \<le> n - 1 \<and> n - 1 < n" using kn n by auto
      then show ?thesis using b by blast
    qed
    moreover have "prefix_ok (Suc n) (sz'[n := sz' ! (n - 1)]) (pf'[n := pf' ! (n - 1) + sz' ! (n - 1)])"
      using prefix_ok_step [OF c n refl] .
    ultimately show ?thesis using l n kn a b by (auto simp: nth_list_update less_Suc_eq)
  qed
qed simp

section \<open>What a layout establishes\<close>

definition part_holds :: "int list \<Rightarrow> int \<Rightarrow> nat \<Rightarrow> bool" where
  "part_holds sz g j \<longleftrightarrow> sum_list (take j sz) \<le> g \<and> g < sum_list (take j sz) + sz ! j"

definition same_size_from :: "nat \<Rightarrow> int list \<Rightarrow> bool" where
  "same_size_from k sz \<longleftrightarrow> k < length sz \<and> (\<forall>j. k \<le> j \<and> j < length sz \<longrightarrow> sz ! j = sz ! k)"

definition layout_ok :: "int \<Rightarrow> int \<Rightarrow> PartitionInfo \<Rightarrow> bool" where
  "layout_ok mynode numnodes i \<longleftrightarrow>
     (let n = nat (numPartitions i); sz = partitionSize i; pf = partitionPrefix i in
      0 < numPartitions i \<and> length sz = n \<and> length pf = n
      \<and> (\<forall>x \<in> set sz. 0 < x) \<and> prefix_ok n sz pf \<and> sum_list sz = numnodes
      \<and> (ptype i = PARTITION_DEFAULT \<longrightarrow> same_size_from 0 sz)
      \<and> (ptype i = PARTITION_MASTER \<longrightarrow> sz ! 0 = 1 \<and> same_size_from 1 sz)
      \<and> 0 \<le> myPartition i \<and> myPartition i < numPartitions i
      \<and> part_holds sz mynode (nat (myPartition i)))"

lemma sum_uniform:
  assumes "same_size_from k sz" "k \<le> j" "j \<le> length sz"
  shows "sum_list (take j sz) = sum_list (take k sz) + int (j - k) * sz ! k"
  using assms(2,3)
proof (induction j)
  case (Suc j)
  show ?case
  proof (cases "k = Suc j")
    case False
    then have kj: "k \<le> j" "j < length sz" using Suc.prems by auto
    have "sz ! j = sz ! k" using assms(1) kj unfolding same_size_from_def by blast
    then have "sum_list (take (Suc j) sz) = sum_list (take k sz) + int (j - k) * sz ! k + sz ! k"
      using sum_take_Suc [OF kj(2)] Suc.IH kj by simp
    moreover have "int (Suc j - k) = int (j - k) + 1" using kj by simp
    ultimately show ?thesis by (simp add: distrib_right)
  qed simp
qed simp

lemma div_bounds:
  assumes "0 \<le> g" "0 < s" "g < n * (s :: int)"
  shows "0 \<le> g div s \<and> g div s < n \<and> (g div s) * s \<le> g \<and> g < (g div s) * s + s"
proof -
  have e: "g = (g div s) * s + g mod s" and m: "0 \<le> g mod s" "g mod s < s"
    using assms(2) by auto
  have "\<not> n \<le> g div s"
  proof
    assume "n \<le> g div s"
    then have "n * s \<le> (g div s) * s" using assms(2) by simp
    then show False using e m assms(3) by linarith
  qed
  moreover have "0 \<le> g div s" using assms by (simp add: pos_imp_zdiv_nonneg_iff)
  ultimately show ?thesis using e m by linarith
qed

lemma default_layout_ok:
  assumes "default_layout mynode numnodes i = Inr i'" and "0 \<le> mynode" "mynode < numnodes"
    and "ptype i = PARTITION_DEFAULT"
    and "partitionSize i = replicate (nat (numPartitions i)) 0"
    and "partitionPrefix i = replicate (nat (numPartitions i)) 0"
  shows "layout_ok mynode numnodes i'"
proof -
  define n where "n = nat (numPartitions i)"
  define s0 where "s0 = numnodes div numPartitions i"
  have pos: "0 < numPartitions i" and d: "numnodes mod numPartitions i = 0"
    using assms(1) by (auto simp: default_layout_def Let_def split: if_splits)
  then have n: "0 < n" "int n = numPartitions i" by (auto simp: n_def)
  have nn: "numnodes = int n * s0" using d n by (simp add: s0_def mult.commute mod_eq_0_iff_dvd)
  have "0 < int n * s0" using nn assms(2,3) by linarith
  then have s0: "0 < s0" using n by (simp add: zero_less_mult_iff)
  let ?sz = "(replicate n 0)[0 := s0]" and ?pf = "(replicate n 0)[0 := (0::int)]"
  have "prefix_ok 1 ?sz ?pf" using n by (simp add: prefix_ok_def)
  then obtain sz pf where u: "uniform_fill 1 n (?sz, ?pf) = (sz, pf)" and l: "length sz = n" "length pf = n"
    and h: "\<forall>j < 1. sz ! j = ?sz ! j" and t: "\<forall>j. 1 \<le> j \<and> j < n \<longrightarrow> sz ! j = ?sz ! (1 - 1)"
    and pk: "prefix_ok n sz pf"
    using uniform_fill_prefix [of 1 n ?sz ?pf] n by auto
  have z: "sz ! j = s0" if "j < n" for j using h t that n by (cases "j = 0") auto
  then have same: "same_size_from 0 sz" using l n by (simp add: same_size_from_def)
  have i': "i' = i\<lparr>partitionSize := sz, partitionPrefix := pf, myPartition := mynode div s0\<rparr>"
    using assms(1,5,6) pos d s0 u by (simp add: default_layout_def Let_def n_def s0_def)
  have my: "0 \<le> mynode div s0 \<and> mynode div s0 < int n
      \<and> (mynode div s0) * s0 \<le> mynode \<and> mynode < (mynode div s0) * s0 + s0"
    using div_bounds [OF assms(2) s0] assms(3) nn by simp
  define k where "k = nat (mynode div s0)"
  have k: "k < n" "int k = mynode div s0" using my by (auto simp: k_def)
  have "part_holds sz mynode k"
    using my k sum_uniform [OF same, of k] l z n by (simp add: part_holds_def)
  moreover have "sum_list sz = numnodes" using sum_uniform [OF same, of n] l z n nn by simp
  moreover have "\<forall>x \<in> set sz. 0 < x" using z s0 l by (auto simp: in_set_conv_nth)
  ultimately show ?thesis
    using l pk same my n assms(4) by (simp add: i' layout_ok_def Let_def k_def n_def)
qed

lemma master_layout_ok:
  assumes "master_layout mynode numnodes i = Inr i'" and "0 \<le> mynode" "mynode < numnodes"
    and "ptype i = PARTITION_MASTER"
    and "partitionSize i = replicate (nat (numPartitions i)) 0"
    and "partitionPrefix i = replicate (nat (numPartitions i)) 0"
  shows "layout_ok mynode numnodes i'"
proof -
  define n where "n = nat (numPartitions i)"
  define s1 where "s1 = (numnodes - 1) div (numPartitions i - 1)"
  have pos: "2 \<le> numPartitions i" and d: "(numnodes - 1) mod (numPartitions i - 1) = 0" and s1: "s1 \<noteq> 0"
    using assms(1) by (auto simp: master_layout_def Let_def s1_def split: if_splits prod.splits)
  then have n: "2 \<le> n" "int n = numPartitions i" by (auto simp: n_def)
  have nn: "numnodes - 1 = (int n - 1) * s1" using d n by (simp add: s1_def mult.commute mod_eq_0_iff_dvd)
  have "0 \<le> (int n - 1) * s1" using nn assms(2,3) by linarith
  then have s1: "0 < s1" using s1 n by (simp add: zero_le_mult_iff)
  let ?sz = "(replicate n 0)[0 := 1, 1 := s1]" and ?pf = "(replicate n 0)[0 := 0, 1 := (1::int)]"
  have "prefix_ok 2 ?sz ?pf"
    using n by (auto simp: prefix_ok_def less_Suc_eq numeral_2_eq_2 take_Suc_conv_app_nth)
  then obtain sz pf where u: "uniform_fill 2 n (?sz, ?pf) = (sz, pf)" and l: "length sz = n" "length pf = n"
    and h: "\<forall>j < 2. sz ! j = ?sz ! j" and t: "\<forall>j. 2 \<le> j \<and> j < n \<longrightarrow> sz ! j = ?sz ! (2 - 1)"
    and pk: "prefix_ok n sz pf"
    using uniform_fill_prefix [of 2 n ?sz ?pf] n by auto
  have z0: "sz ! 0 = 1" using h n by simp
  have z: "sz ! j = s1" if "1 \<le> j" "j < n" for j using h t that n by (cases "j = 1") auto
  then have same: "same_size_from 1 sz" using l n by (simp add: same_size_from_def)
  have sum1: "sum_list (take 1 sz) = 1" using z0 n l by (cases sz) auto
  let ?my = "if mynode = 0 then 0 else 1 + (mynode - 1) div s1"
  have i': "i' = i\<lparr>partitionSize := sz, partitionPrefix := pf, myPartition := ?my\<rparr>"
    using assms(1,5,6) pos d s1 u by (auto simp: master_layout_def Let_def n_def s1_def)
  have my: "0 \<le> ?my \<and> ?my < int n \<and> part_holds sz mynode (nat ?my)"
  proof (cases "mynode = 0")
    case True
    then show ?thesis using z0 n by (simp add: part_holds_def)
  next
    case False
    define k where "k = nat (1 + (mynode - 1) div s1)"
    have b: "0 \<le> (mynode - 1) div s1 \<and> (mynode - 1) div s1 < int n - 1
      \<and> ((mynode - 1) div s1) * s1 \<le> mynode - 1 \<and> mynode - 1 < ((mynode - 1) div s1) * s1 + s1"
      using div_bounds [of "mynode - 1" s1 "int n - 1"] assms(2,3) nn s1 False by simp
    then have k: "1 \<le> k" "k < n" "int (k - 1) = (mynode - 1) div s1" by (auto simp: k_def)
    have "part_holds sz mynode k"
      using b k sum_uniform [OF same, of k] l z [OF k(1,2)] z [of 1] n sum1 by (simp add: part_holds_def)
    then show ?thesis using False b by (simp add: k_def)
  qed
  moreover have "sum_list sz = numnodes"
    using sum_uniform [OF same, of n] l z [of 1] n nn sum1 by (simp add: of_nat_diff)
  moreover have "0 < sz ! j" if "j < n" for j using z0 z [of j] s1 that by (cases "j = 0") auto
  then have "\<forall>x \<in> set sz. 0 < x" using l by (auto simp: in_set_conv_nth)
  ultimately show ?thesis
    using l pk same n z0 assms(4) by (simp add: i' layout_ok_def Let_def n_def)
qed

lemma prefix_loop_result:
  assumes "prefix_loop mynode sz n i pf my = Inr (pf', my')"
    and "0 < i" "i \<le> n" "n = length sz" "length pf = length sz" "prefix_ok i sz pf"
  shows "length pf' = n \<and> prefix_ok n sz pf' \<and> (\<forall>j. i - 1 \<le> j \<and> j < n \<longrightarrow> 0 < sz ! j)
    \<and> (my' = my \<and> (\<forall>j. i \<le> j \<and> j < n \<longrightarrow> \<not> part_holds sz mynode j)
       \<or> (\<exists>j. i \<le> j \<and> j < n \<and> my' = int j \<and> part_holds sz mynode j))"
  using assms
proof (induction mynode sz n i pf my rule: prefix_loop.induct)
  case (1 mynode sz n i pf my)
  have here: "0 < sz ! (i - 1)"
    using "1.prems"(1) by (subst (asm) prefix_loop.simps) (auto split: if_splits simp: Let_def)
  show ?case
  proof (cases "i < n")
    case False
    then have "i = n" using "1.prems" by simp
    moreover have "pf' = pf" "my' = my"
      using "1.prems"(1) False here by (subst (asm) prefix_loop.simps; simp)+
    moreover have "j = n - 1" if "n - 1 \<le> j" "j < n" for j using that by linarith
    ultimately show ?thesis using "1.prems" here by auto
  next
    case True
    let ?x = "pf ! (i - 1) + sz ! (i - 1)"
    let ?my = "if ?x \<le> mynode \<and> mynode < ?x + sz ! i then int i else my"
    have x: "?x = sum_list (take i sz)"
      using "1.prems" sum_take_Suc [of "i - 1" sz] by (simp add: prefix_ok_def)
    have r: "prefix_loop mynode sz n (i + 1) (pf[i := ?x]) ?my = Inr (pf', my')"
      using "1.prems"(1) True here by (subst (asm) prefix_loop.simps) (simp add: Let_def)
    have p: "prefix_ok (i + 1) sz (pf[i := ?x])"
      using prefix_ok_step [OF "1.prems"(6,2), of ?x "sz ! i"] True "1.prems" by simp
    have ih: "length pf' = n \<and> prefix_ok n sz pf' \<and> (\<forall>j. i + 1 - 1 \<le> j \<and> j < n \<longrightarrow> 0 < sz ! j)
      \<and> (my' = ?my \<and> (\<forall>j. i + 1 \<le> j \<and> j < n \<longrightarrow> \<not> part_holds sz mynode j)
       \<or> (\<exists>j. i + 1 \<le> j \<and> j < n \<and> my' = int j \<and> part_holds sz mynode j))"
    proof (rule "1.IH" [OF True _ refl r])
      show "\<not> sz ! (i - 1) \<le> 0" using here by simp
    qed (use True "1.prems" p in simp_all)
    have pi: "part_holds sz mynode i \<longleftrightarrow> ?x \<le> mynode \<and> mynode < ?x + sz ! i"
      unfolding x part_holds_def ..
    have pos: "0 < sz ! j" if "i - 1 \<le> j" "j < n" for j
    proof (cases "j = i - 1")
      case False
      then have "i + 1 - 1 \<le> j" using that by simp
      then show ?thesis using ih that by blast
    qed (use here in simp)
    show ?thesis
    proof (cases "\<exists>j. i + 1 \<le> j \<and> j < n \<and> my' = int j \<and> part_holds sz mynode j")
      case ex: True
      then obtain j where "i + 1 \<le> j \<and> j < n \<and> my' = int j \<and> part_holds sz mynode j" ..
      then have "i \<le> j \<and> j < n \<and> my' = int j \<and> part_holds sz mynode j" by simp
      then show ?thesis using ih pos by blast
    next
      case False
      then have m: "my' = ?my" and none: "\<And>j. i + 1 \<le> j \<Longrightarrow> j < n \<Longrightarrow> \<not> part_holds sz mynode j"
        using ih by blast+
      show ?thesis
      proof (cases "part_holds sz mynode i")
        case True
        then have "my' = int i" using m pi by presburger
        then have "i \<le> i \<and> i < n \<and> my' = int i \<and> part_holds sz mynode i" using True \<open>i < n\<close> by simp
        then show ?thesis using ih pos by blast
      next
        case no: False
        have "\<not> part_holds sz mynode j" if "i \<le> j" "j < n" for j
          using no none [of j] that by (cases "j = i") auto
        moreover have "my' = my" using m no pi by presburger
        ultimately show ?thesis using ih pos by blast
      qed
    qed
  qed
qed

lemma fill_block_length: "fill_block z endi i block j sz = Inr sz' \<Longrightarrow> length sz' = length sz"
proof (induction z endi i block j sz rule: fill_block.induct)
  case (1 z endi i block j sz)
  from "1.prems" show ?case
    unfolding fill_block.simps [of z endi i block j sz] by (auto split: if_splits dest: "1.IH")
qed

lemma fill_sizes_length:
  assumes "fill_sizes z endi stride block i sz = Some (Inr sz')"
  shows "length sz' = length sz"
proof -
  have "\<forall>sz''. (Inr sz' :: init_error + int list) = Inr sz'' \<longrightarrow> length sz'' = length sz"
  proof (rule fill_sizes.raw_induct [of "\<lambda>z endi stride block i sz r. \<forall>sz'. r = Inr sz' \<longrightarrow> length sz' = length sz",
        OF _ assms])
    fix f z endi stride block i sz r
    assume ih: "\<And>z endi stride block i sz r. f z endi stride block i sz = Some r \<Longrightarrow>
        \<forall>sz'. r = Inr sz' \<longrightarrow> length sz' = length sz"
      and b: "(if i \<le> endi then
        case fill_block z endi i block 0 sz of
          Inl e \<Rightarrow> Some (Inl e)
        | Inr sz' \<Rightarrow> f z endi stride block (i + stride) sz'
      else Some (Inr sz)) = Some r"
    show "\<forall>sz'. r = Inr sz' \<longrightarrow> length sz' = length sz"
      using b fill_block_length [of z endi i block 0 sz]
      by (auto split: if_splits sum.splits dest!: ih)
  qed
  then show ?thesis by simp
qed

lemma apply_tokens_length: "apply_tokens ts sz = Some (Inr sz') \<Longrightarrow> length sz' = length sz"
proof (induction ts arbitrary: sz)
  case (Cons t ts)
  then obtain sz1 where a: "apply_token t sz = Some (Inr sz1)" "apply_tokens ts sz1 = Some (Inr sz')"
    by (auto split: option.splits sum.splits)
  then have "length sz1 = length sz"
    by (auto simp: apply_token_def split: sum.splits option.splits if_splits dest: fill_sizes_length)
  then show ?case using Cons.IH [OF a(2)] by simp
qed simp

lemma prefix_layout_ok:
  assumes "prefix_layout mynode numnodes i = Some (Inr i')" and "0 \<le> mynode" "mynode < numnodes"
    and "ptype i = PARTITION_PREFIX" "sum_list (partitionSize i') = numnodes"
    and "partitionSize i = replicate (nat (numPartitions i)) 0"
    and "partitionPrefix i = replicate (nat (numPartitions i)) 0"
  shows "layout_ok mynode numnodes i'"
proof -
  define n where "n = nat (numPartitions i)"
  obtain sz pf my where a: "apply_tokens (strtok (or_else (partsizes i) [])) (partitionSize i) = Some (Inr sz)"
      and l: "prefix_loop mynode sz n 1 ((partitionPrefix i)[0 := 0]) 0 = Inr (pf, my)"
      and i': "i' = i\<lparr>partitionSize := sz, partitionPrefix := pf, myPartition := my\<rparr>"
      and pos: "0 < numPartitions i"
    using assms(1) by (auto simp: prefix_layout_def bindE_def n_def split: option.splits sum.splits if_splits)
  have n: "0 < n" "int n = numPartitions i" using pos by (auto simp: n_def)
  have sz: "length sz = n" using apply_tokens_length [OF a] assms(6) by (simp add: n_def)
  have p1: "prefix_ok 1 sz ((partitionPrefix i)[0 := 0])" using assms(7) n by (simp add: prefix_ok_def n_def)
  have r: "length pf = n \<and> prefix_ok n sz pf \<and> (\<forall>j. 1 - 1 \<le> j \<and> j < n \<longrightarrow> 0 < sz ! j)
    \<and> (my = 0 \<and> (\<forall>j. 1 \<le> j \<and> j < n \<longrightarrow> \<not> part_holds sz mynode j)
       \<or> (\<exists>j. 1 \<le> j \<and> j < n \<and> my = int j \<and> part_holds sz mynode j))"
    using prefix_loop_result [OF l _ _ _ _ p1] n sz assms(7) by (simp add: n_def)
  have all: "\<forall>x \<in> set sz. 0 < x" using r sz by (auto simp: in_set_conv_nth)
  have "sum_list sz = numnodes" using assms(5) i' by simp
  then obtain k where k: "k < n" "part_holds sz mynode k"
    using locate [of mynode sz] assms(2,3) sz sum_take_Suc by (auto simp: part_holds_def)
  have "0 \<le> my \<and> my < int n \<and> part_holds sz mynode (nat my)"
  proof (cases "my = 0 \<and> (\<forall>j. 1 \<le> j \<and> j < n \<longrightarrow> \<not> part_holds sz mynode j)")
    case True
    then have "k = 0" using k by (metis less_one not_less)
    then show ?thesis using True k n by simp
  next
    case False
    then show ?thesis using r by auto
  qed
  then show ?thesis
    using r all sz n \<open>sum_list sz = numnodes\<close> assms(4) by (simp add: i' layout_ok_def Let_def n_def)
qed

definition zeroed :: "PartitionInfo \<Rightarrow> bool" where
  "zeroed i \<longleftrightarrow> partitionSize i = replicate (nat (numPartitions i)) 0
     \<and> partitionPrefix i = replicate (nat (numPartitions i)) 0 \<and> ptype i \<noteq> PARTITION_SINGLETON"

lemma layout_keeps:
  assumes "partition_layout mynode numnodes i = Some (Inr i')"
  shows "ptype i' = ptype i \<and> isTopoaware i' = isTopoaware i \<and> numPartitions i' = numPartitions i"
  using assms
  by (auto simp: partition_layout_def default_layout_def master_layout_def prefix_layout_def Let_def bindE_def
      split: Partition_Type.splits if_splits option.splits sum.splits prod.splits)

lemma partition_layout_ok:
  assumes "partition_layout mynode numnodes i = Some (Inr i')" and "0 \<le> mynode" "mynode < numnodes"
    and "zeroed i" and "ptype i = PARTITION_PREFIX \<longrightarrow> sum_list (partitionSize i') = numnodes"
  shows "layout_ok mynode numnodes i'"
proof (cases "ptype i")
  case PARTITION_DEFAULT
  then show ?thesis
    using assms default_layout_ok [of mynode numnodes i i'] by (simp add: partition_layout_def zeroed_def)
next
  case PARTITION_MASTER
  then show ?thesis
    using assms master_layout_ok [of mynode numnodes i i'] by (simp add: partition_layout_def zeroed_def)
next
  case PARTITION_PREFIX
  then show ?thesis
    using assms prefix_layout_ok [of mynode numnodes i i'] by (simp add: partition_layout_def zeroed_def)
next
  case PARTITION_SINGLETON
  then show ?thesis using assms by (simp add: zeroed_def)
qed

lemma partition_options_zeroed: "partition_options pe mynode p = Inr (i, p') \<Longrightarrow> zeroed i"
  unfolding partition_options_def by (elim bindE_pairE) (auto simp: zeroed_def split: if_splits elim!: bindE_pairE)

lemma node_translate:
  assumes "layout_ok mynode numnodes (partitionInfo m)" and "ptype (partitionInfo m) \<noteq> PARTITION_SINGLETON"
    and "\<not> isTopoaware (partitionInfo m)"
    and "0 \<le> part" "part < numPartitions (partitionInfo m)"
    and "0 \<le> node" "node < partitionSize (partitionInfo m) ! nat part"
  shows "node_lToGTranslate m node part = Inr (sum_list (take (nat part) (partitionSize (partitionInfo m))) + node)"
proof -
  define i where "i = partitionInfo m"
  define sz where "sz = partitionSize i"
  define k where "k = nat part"
  have n: "length sz = nat (numPartitions i)" "k < length sz" "int k = part"
    "length (partitionPrefix i) = length sz" "prefix_ok (length sz) sz (partitionPrefix i)"
    using assms(1,4,5) by (auto simp: layout_ok_def Let_def i_def sz_def k_def)
  show ?thesis
  proof (cases "ptype i")
    case PARTITION_DEFAULT
    then have "same_size_from 0 sz" using assms(1) by (simp add: layout_ok_def Let_def i_def sz_def)
    then have "sum_list (take k sz) = int k * sz ! 0" using sum_uniform [of 0 sz k] n by simp
    then show ?thesis using PARTITION_DEFAULT n assms(3)
      by (auto simp: node_lToGTranslate_def Let_def int_nth_def sz_def k_def i_def)
  next
    case PARTITION_MASTER
    then have s: "sz ! 0 = 1" "same_size_from 1 sz"
      using assms(1) by (simp_all add: layout_ok_def Let_def i_def sz_def)
    show ?thesis
    proof (cases "part = 0")
      case True
      then show ?thesis using PARTITION_MASTER s assms(3,6,7)
        by (simp add: node_lToGTranslate_def Let_def i_def sz_def)
    next
      case False
      then have k1: "1 \<le> k" using n by simp
      have "sum_list (take 1 sz) = 1" using s n by (cases sz) auto
      then have "sum_list (take k sz) = 1 + int (k - 1) * sz ! 1"
        using sum_uniform [OF s(2) k1] n by simp
      moreover have "int (k - 1) = part - 1" using k1 n by simp
      moreover have "1 < length sz" using s(2) by (simp add: same_size_from_def)
      then have "node_lToGTranslate m node part = Inr (1 + (part - 1) * sz ! 1 + node)"
        using PARTITION_MASTER False assms(3)
        by (simp add: node_lToGTranslate_def int_nth_def sz_def i_def)
      ultimately show ?thesis unfolding k_def sz_def i_def by simp
    qed
  next
    case PARTITION_PREFIX
    have "int_nth (partitionPrefix i) part = Inr (sum_list (take k sz))"
      using n assms(4) by (auto simp: int_nth_def prefix_ok_def k_def)
    then show ?thesis using PARTITION_PREFIX assms(3)
      by (simp add: node_lToGTranslate_def Let_def sz_def k_def i_def)
  next
    case PARTITION_SINGLETON
    then show ?thesis using assms(2) by (simp add: i_def)
  qed
qed

text \<open>The local number of a process or of a processing element within a partition.\<close>

definition local_node :: "machine \<Rightarrow> int \<times> int \<Rightarrow> bool" where
  "local_node m = (\<lambda>(part, node). 0 \<le> part \<and> part < numPartitions (partitionInfo m)
     \<and> 0 \<le> node \<and> node < partitionSize (partitionInfo m) ! nat part)"

definition local_pe :: "machine \<Rightarrow> int \<times> int \<Rightarrow> bool" where
  "local_pe m = (\<lambda>(part, pe). 0 \<le> part \<and> part < numPartitions (partitionInfo m)
     \<and> 0 \<le> pe \<and> pe < partitionSize (partitionInfo m) ! nat part * Cmi_mynodesize m)"

definition partitioned :: "machine \<Rightarrow> bool" where
  "partitioned m \<longleftrightarrow>
     layout_ok (mynode_global m) (numnodes_global m) (partitionInfo m)
     \<and> ptype (partitionInfo m) \<noteq> PARTITION_SINGLETON \<and> \<not> isTopoaware (partitionInfo m)
     \<and> 0 < Cmi_mynodesize m"

lemma node_numbering:
  assumes "partitioned m" and "0 \<le> g" "g < numnodes_global m"
  shows "\<exists>!l. local_node m l \<and> node_lToGTranslate m (snd l) (fst l) = Inr g"
proof -
  define sz where "sz = partitionSize (partitionInfo m)"
  have ok: "layout_ok (mynode_global m) (numnodes_global m) (partitionInfo m)"
    using assms(1) by (simp add: partitioned_def)
  have sz: "sum_list sz = numnodes_global m" "int (length sz) = numPartitions (partitionInfo m)"
      "\<forall>x \<in> set sz. 0 \<le> x"
    using ok by (auto simp: layout_ok_def Let_def sz_def less_imp_le)
  have tr: "node_lToGTranslate m (snd l) (fst l) = Inr (sum_list (take (nat (fst l)) sz) + snd l)"
    if "local_node m l" for l
    using node_translate [OF ok, of "fst l" "snd l"] assms(1) that
    by (auto simp: partitioned_def local_node_def sz_def split: prod.splits)
  obtain k where k: "k < length sz" "sum_list (take k sz) \<le> g" "g < sum_list (take (Suc k) sz)"
    using locate [of g sz] assms(2,3) sz by auto
  have l: "local_node m (int k, g - sum_list (take k sz))"
    using k sz sum_take_Suc [OF k(1)] by (simp add: local_node_def sz_def)
  show ?thesis
  proof (rule ex1I [of _ "(int k, g - sum_list (take k sz))"])
    show "local_node m (int k, g - sum_list (take k sz))
      \<and> node_lToGTranslate m (snd (int k, g - sum_list (take k sz))) (fst (int k, g - sum_list (take k sz))) = Inr g"
      using l tr [OF l] by simp
  next
    fix l'
    assume "local_node m l' \<and> node_lToGTranslate m (snd l') (fst l') = Inr g"
    then have a: "local_node m l'" "sum_list (take (nat (fst l')) sz) + snd l' = g" using tr by auto
    then have b: "nat (fst l') < length sz" "0 \<le> snd l'" "snd l' < sz ! nat (fst l')" "0 \<le> fst l'"
      using sz by (auto simp: local_node_def sz_def split: prod.splits)
    have "nat (fst l') = k \<and> snd l' = g - sum_list (take k sz)"
      using locate_unique [OF sz(3) b(1) k(1) b(2,3), of "g - sum_list (take k sz)"] a k
        sum_take_Suc [OF k(1)] by simp
    then show "l' = (int k, g - sum_list (take k sz))" using b(4) by (auto simp: prod_eq_iff)
  qed
qed

lemma pe_translate:
  assumes "partitioned m" and "local_pe m (part, pe)"
  shows "local_node m (part, pe div Cmi_mynodesize m)
    \<and> pe_lToGTranslate m pe part =
        bindE (node_lToGTranslate m (pe div Cmi_mynodesize m) part)
          (\<lambda>g. Inr (g * Cmi_mynodesize m + pe mod Cmi_mynodesize m))"
proof -
  have ns: "0 < Cmi_mynodesize m" using assms(1) by (simp add: partitioned_def)
  have "pe div Cmi_mynodesize m < partitionSize (partitionInfo m) ! nat part" "0 \<le> pe div Cmi_mynodesize m"
    using assms(2) div_bounds [OF _ ns, of pe] by (auto simp: local_pe_def)
  then show ?thesis using assms
    by (auto simp: local_pe_def local_node_def pe_lToGTranslate_def int_nth_def CmiNodeOf_def CmiRankOf_def
        sdiv_smod_nonneg partitioned_def layout_ok_def Let_def)
qed

lemma pe_numbering:
  assumes "partitioned m" and "0 \<le> g" "g < numnodes_global m * Cmi_mynodesize m"
  shows "\<exists>!l. local_pe m l \<and> pe_lToGTranslate m (snd l) (fst l) = Inr g"
proof -
  define ns where "ns = Cmi_mynodesize m"
  have ns: "0 < ns" using assms(1) by (simp add: partitioned_def ns_def)
  define q where "q = g div ns"
  have q: "0 \<le> q" "q < numnodes_global m" "g = q * ns + g mod ns"
    using div_bounds [OF assms(2) ns, of "numnodes_global m"] assms(3) by (auto simp: ns_def q_def)
  obtain l where l: "local_node m l" "node_lToGTranslate m (snd l) (fst l) = Inr q"
    and u: "\<And>l'. local_node m l' \<Longrightarrow> node_lToGTranslate m (snd l') (fst l') = Inr q \<Longrightarrow> l' = l"
    using node_numbering [OF assms(1) q(1,2)] by blast
  let ?pe = "snd l * ns + g mod ns"
  have gm: "0 \<le> g mod ns" "g mod ns < ns" using ns by auto
  have "snd l + 1 \<le> partitionSize (partitionInfo m) ! nat (fst l)"
    using l(1) by (auto simp: local_node_def split: prod.splits)
  then have "(snd l + 1) * ns \<le> partitionSize (partitionInfo m) ! nat (fst l) * ns"
    using ns by simp
  then have "?pe < partitionSize (partitionInfo m) ! nat (fst l) * ns"
    using gm(2) by (simp only: distrib_right mult_1)
  moreover have "0 \<le> ?pe"
    using l(1) gm(1) ns by (auto simp: local_node_def split: prod.splits intro!: add_nonneg_nonneg)
  ultimately have pe: "local_pe m (fst l, ?pe)"
    using l(1) by (auto simp: local_pe_def local_node_def ns_def split: prod.splits)
  have dm: "?pe div ns = snd l" "?pe mod ns = g mod ns" using ns gm by simp_all
  show ?thesis
  proof (rule ex1I [of _ "(fst l, ?pe)"])
    show "local_pe m (fst l, ?pe) \<and> pe_lToGTranslate m (snd (fst l, ?pe)) (fst (fst l, ?pe)) = Inr g"
      using pe pe_translate [OF assms(1) pe] l(2) dm q(3) by (simp add: ns_def)
  next
    fix l'
    assume a: "local_pe m l' \<and> pe_lToGTranslate m (snd l') (fst l') = Inr g"
    obtain part' pe' where l': "l' = (part', pe')" by (cases l')
    have t: "local_node m (part', pe' div ns)"
      "bindE (node_lToGTranslate m (pe' div ns) part') (\<lambda>h. Inr (h * ns + pe' mod ns)) = Inr g"
      using pe_translate [OF assms(1), of part' pe'] a l' by (simp_all add: ns_def)
    then obtain h where h: "node_lToGTranslate m (pe' div ns) part' = Inr h" "g = h * ns + pe' mod ns"
      by (auto simp: bindE_Inr)
    then have "h = q" "g mod ns = pe' mod ns" using ns by (simp_all add: q_def)
    then have "(part', pe' div ns) = l" using u [OF t(1)] h(1) by simp
    then have "part' = fst l" "pe' div ns = snd l" by auto
    moreover have "pe' = pe' div ns * ns + pe' mod ns" by simp
    ultimately show "l' = (fst l, ?pe)" using l' \<open>g mod ns = pe' mod ns\<close> by simp
  qed
qed

lemma CmiCreatePartitions_result:
  assumes "CmiCreatePartitions pe p m0 = Some (Inr (m, p'))"
    and "0 \<le> Cmi_mynode m0" "Cmi_mynode m0 < Cmi_numnodes m0" "0 < Cmi_mynodesize m0"
    and "ptype (partitionInfo m) = PARTITION_PREFIX \<longrightarrow> sum_list (partitionSize (partitionInfo m)) = Cmi_numnodes m0"
  shows "partitioned m \<and> numnodes_global m = Cmi_numnodes m0 \<and> mynode_global m = Cmi_mynode m0
    \<and> Cmi_mynodesize m = Cmi_mynodesize m0
    \<and> Cmi_mynode m = Cmi_mynode m0 - sum_list (take (nat (myPartition (partitionInfo m))) (partitionSize (partitionInfo m)))
    \<and> Cmi_numnodes m = partitionSize (partitionInfo m) ! nat (myPartition (partitionInfo m))
    \<and> Cmi_npes m = Cmi_numnodes m * Cmi_mynodesize m"
proof -
  let ?m1 = "m0\<lparr>numnodes_global := Cmi_numnodes m0, mynode_global := Cmi_mynode m0,
                  numpes_global := Cmi_npes m0,
                  Cmi_nodestartGlobal := Cmi_mynode m0 * Cmi_mynodesize m0\<rparr>"
  obtain m2 nn where c: "create_partition_map pe p ?m1 = Some (Inr (m2, p'))"
    and nn: "int_nth (partitionSize (partitionInfo m2)) (myPartition (partitionInfo m2)) = Inr nn"
    and m: "m = m2\<lparr>Cmi_numnodes := nn, Cmi_npes := nn * Cmi_mynodesize m2,
                     Cmi_nodestart := Cmi_mynode m2 * Cmi_mynodesize m2\<rparr>"
    using assms(1) by (auto simp: CmiCreatePartitions_def bindE_Inr Let_def)
  obtain i0 i x where o: "partition_options pe (Cmi_mynode m0) p = Inr (i0, p')"
    and lay: "partition_layout (Cmi_mynode m0) (Cmi_numnodes m0) i0 = Some (Inr i)"
    and x: "int_nth (partitionPrefix i) (myPartition i) = Inr x" and t: "\<not> isTopoaware i"
    and m2: "m2 = ?m1\<lparr>Cmi_mynode := Cmi_mynode m0 - x, partitionInfo := i\<rparr>"
    using c by (auto simp: create_partition_map_def bindE_Inr split: sum.splits if_splits)
  have z: "zeroed i0" using partition_options_zeroed [OF o] .
  have ok: "layout_ok (Cmi_mynode m0) (Cmi_numnodes m0) i"
    using partition_layout_ok [OF lay assms(2,3) z] assms(5) layout_keeps [OF lay] m m2 by simp
  have "x = sum_list (take (nat (myPartition i)) (partitionSize i))"
    using x ok by (auto simp: int_nth_def layout_ok_def Let_def prefix_ok_def split: if_splits)
  moreover have "nn = partitionSize i ! nat (myPartition i)"
    using nn m2 by (simp add: int_nth_def split: if_splits)
  ultimately show ?thesis
    using ok t z layout_keeps [OF lay] assms(4) by (simp add: m m2 partitioned_def zeroed_def)
qed

lemma fill_block_result:
  assumes "0 \<le> i" "endi < int (length sz)" "0 \<le> j"
  shows "\<exists>sz'. fill_block z endi i block j sz = Inr sz' \<and> length sz' = length sz
    \<and> (\<forall>k < length sz. sz' ! k = (if i + j \<le> int k \<and> int k \<le> endi \<and> int k < i + block then z else sz ! k))"
  using assms
proof (induction z endi i block j sz rule: fill_block.induct)
  case (1 z endi i block j sz)
  show ?case
  proof (cases "j < block \<and> i + j \<le> endi")
    case False
    then show ?thesis by (subst fill_block.simps) (use "1.prems" in auto)
  next
    case True
    then have e: "fill_block z endi i block j sz = fill_block z endi i block (j + 1) (sz[nat (i + j) := z])"
      using "1.prems" by (subst fill_block.simps) simp
    obtain sz' where "fill_block z endi i block (j + 1) (sz[nat (i + j) := z]) = Inr sz'"
      "length sz' = length sz"
      "\<forall>k < length sz. sz' ! k = (if i + (j + 1) \<le> int k \<and> int k \<le> endi \<and> int k < i + block then z
         else (sz[nat (i + j) := z]) ! k)"
      using "1.IH" True "1.prems" by auto
    moreover have "(sz[nat (i + j) := z]) ! k = (if int k = i + j then z else sz ! k)" if "k < length sz" for k
      using that "1.prems" by (auto simp: nth_list_update)
    ultimately show ?thesis using True unfolding e by auto
  qed
qed

section \<open>Properties\<close>

text \<open>C18. Once the partitions are made, and where their sizes cover all processes, the local numbers of all partitions number the whole run:
  every global process number and every global processing-element number is the translation of
  exactly one local number, and the process itself has a number inside its own partition that
  translates back to the number the backend gave it.  The condition on the sizes is one for sizes
  given as a list only, which must add up to the number of processes.\<close>

theorem partition_numbering:
  assumes "CmiCreatePartitions pe p m0 = Some (Inr (m, p'))"
    and "0 \<le> Cmi_mynode m0" "Cmi_mynode m0 < Cmi_numnodes m0" "0 < Cmi_mynodesize m0"
    and "ptype (partitionInfo m) = PARTITION_PREFIX \<longrightarrow> sum_list (partitionSize (partitionInfo m)) = Cmi_numnodes m0"
  shows "0 \<le> Cmi_mynode m \<and> Cmi_mynode m < Cmi_numnodes m
    \<and> Cmi_npes m = Cmi_numnodes m * Cmi_mynodesize m
    \<and> CmiNodeToGlobal m (Cmi_mynode m) = Inr (Cmi_mynode m0)
    \<and> (\<forall>g. 0 \<le> g \<and> g < Cmi_numnodes m0 \<longrightarrow>
         (\<exists>!l. local_node m l \<and> node_lToGTranslate m (snd l) (fst l) = Inr g))
    \<and> (\<forall>g. 0 \<le> g \<and> g < Cmi_numnodes m0 * Cmi_mynodesize m0 \<longrightarrow>
         (\<exists>!l. local_pe m l \<and> pe_lToGTranslate m (snd l) (fst l) = Inr g))"
proof -
  define i where "i = partitionInfo m"
  define k where "k = nat (myPartition i)"
  note r = CmiCreatePartitions_result [OF assms]
  have ok: "layout_ok (Cmi_mynode m0) (Cmi_numnodes m0) i"
    and nt: "ptype i \<noteq> PARTITION_SINGLETON" "\<not> isTopoaware i"
    using r by (auto simp: partitioned_def i_def)
  have my: "0 \<le> myPartition i" "myPartition i < numPartitions i" "part_holds (partitionSize i) (Cmi_mynode m0) k"
    using ok by (auto simp: layout_ok_def Let_def k_def)
  have own: "0 \<le> Cmi_mynode m" "Cmi_mynode m < partitionSize i ! k"
      "Cmi_mynode m = Cmi_mynode m0 - sum_list (take k (partitionSize i))"
    using my(3) r by (auto simp: part_holds_def i_def k_def)
  have "node_lToGTranslate m (Cmi_mynode m) (myPartition i) = Inr (Cmi_mynode m0)"
    using node_translate [of _ _ m "myPartition i" "Cmi_mynode m"] ok nt my own by (simp add: i_def k_def)
  moreover have "k = 0" if "numPartitions i = 1" using that my by (simp add: k_def)
  ultimately have "CmiNodeToGlobal m (Cmi_mynode m) = Inr (Cmi_mynode m0)"
    using own(3) by (auto simp: CmiNodeToGlobal_def i_def)
  then show ?thesis
    using r own node_numbering [of m] pe_numbering [of m] by (simp add: i_def k_def)
qed

definition sample_machine :: "int \<Rightarrow> int \<Rightarrow> int \<Rightarrow> machine" where
  "sample_machine mynode numnodes nodesize =
     \<lparr>Cmi_mynode = mynode, Cmi_numnodes = numnodes, Cmi_npes = numnodes * nodesize,
      Cmi_mynodesize = nodesize, Cmi_nodestart = mynode * nodesize, mynode_global = 0,
      numnodes_global = 0, numpes_global = 0, Cmi_nodestartGlobal = 0,
      partitionInfo = \<lparr>ptype = PARTITION_SINGLETON, isTopoaware = False, scheme = 0, numPartitions = 0,
        partitionSize = [], partitionPrefix = [], nodeMap = [], myPartition = 0, partsizes = None\<rparr>\<rparr>"

lemma sample_partitions:
  "map_option (map_sum id fst) (CmiCreatePartitions 0
     ([Some ''+partitions'', Some ''3'', Some ''+partition_sizes'', Some ''0-1#2,2#1'', None], cla_start)
     (sample_machine 3 5 2)) =
   Some (Inr \<lparr>Cmi_mynode = 1, Cmi_numnodes = 2, Cmi_npes = 4, Cmi_mynodesize = 2, Cmi_nodestart = 2,
     mynode_global = 3, numnodes_global = 5, numpes_global = 10, Cmi_nodestartGlobal = 6,
     partitionInfo = \<lparr>ptype = PARTITION_PREFIX, isTopoaware = False, scheme = 0, numPartitions = 3,
       partitionSize = [2, 2, 1], partitionPrefix = [0, 2, 4], nodeMap = [], myPartition = 1,
       partsizes = Some ''0-1#2,2#1''\<rparr>\<rparr>)"
  by code_simp

theorem partition_numbering_witness:
  "\<exists>m p'. CmiCreatePartitions 0
       ([Some ''+partitions'', Some ''3'', Some ''+partition_sizes'', Some ''0-1#2,2#1'', None], cla_start)
       (sample_machine 3 5 2) = Some (Inr (m, p'))
     \<and> (\<exists>!l. local_node m l \<and> node_lToGTranslate m (snd l) (fst l) = Inr 4)
     \<and> CmiNodeToGlobal m (Cmi_mynode m) = Inr 3"
proof -
  obtain m p' where c: "CmiCreatePartitions 0
      ([Some ''+partitions'', Some ''3'', Some ''+partition_sizes'', Some ''0-1#2,2#1'', None], cla_start)
      (sample_machine 3 5 2) = Some (Inr (m, p'))"
    and s: "sum_list (partitionSize (partitionInfo m)) = 5"
    using sample_partitions by (auto simp: map_option_case map_sum_def split: option.splits sum.splits)
  have "Cmi_mynode (sample_machine 3 5 2) = 3" "Cmi_numnodes (sample_machine 3 5 2) = 5"
    "Cmi_mynodesize (sample_machine 3 5 2) = 2" by (simp_all add: sample_machine_def)
  then show ?thesis using partition_numbering [OF c] c s by auto
qed

text \<open>With partition sizes that do not cover every process, a process beyond the last partition
  is silently put into partition 0 with a local number outside it: of three processes in two
  partitions of one process each, the third starts as process 2 of a partition of size 1.\<close>

theorem uncovered_process_is_misnumbered:
  "map_option (map_sum id (\<lambda>(m, p). (Cmi_mynode m, Cmi_numnodes m, myPartition (partitionInfo m))))
     (CmiCreatePartitions 0
       ([Some ''+partitions'', Some ''2'', Some ''+partition_sizes'', Some ''0#1,1#1'', None], cla_start)
       (sample_machine 2 3 1))
   = Some (Inr (2, 1, 0))"
  by code_simp

text \<open>The equal layouts are made exactly when the partitions divide the processes: the default
  layout needs a positive number of partitions that divides the number of processes, the master
  layout at least two partitions whose others divide the remaining processes, at least one each.
  One partition together with the master option is a division by zero, not an abort with a
  message.\<close>

theorem equal_layouts_succeed_iff:
  assumes "0 < numnodes"
  shows "((\<exists>i'. default_layout mynode numnodes i = Inr i') \<longleftrightarrow>
            0 < numPartitions i \<and> numPartitions i dvd numnodes)
    \<and> ((\<exists>i'. master_layout mynode numnodes i = Inr i') \<longleftrightarrow>
            2 \<le> numPartitions i \<and> (numPartitions i - 1) dvd (numnodes - 1) \<and> 1 < numnodes)
    \<and> (numPartitions i = 1 \<longrightarrow> master_layout mynode numnodes i = Inl DivisionByZero)
    \<and> (numPartitions i = 0 \<longrightarrow> default_layout mynode numnodes i = Inl DivisionByZero)"
proof -
  have d: "numnodes div n \<noteq> 0" if "0 < n" "n dvd numnodes" for n
    using that assms by (simp add: dvd_div_eq_0_iff)
  have "(numnodes - 1) div n = 0 \<longleftrightarrow> numnodes = 1" if "0 < n" "n dvd numnodes - 1" for n
    using that by (simp add: dvd_div_eq_0_iff)
  then show ?thesis using d assms
    by (auto simp: default_layout_def master_layout_def Let_def mod_eq_0_iff_dvd split: prod.splits if_splits)
qed

theorem equal_layouts_succeed_iff_witness:
  "0 < (4::int) \<and> (\<exists>i'. master_layout 3 4 (partitionInfo (sample_machine 3 4 1)\<lparr>numPartitions := 2\<rparr>) = Inr i')"
  using equal_layouts_succeed_iff [of 4 3 "partitionInfo (sample_machine 3 4 1)\<lparr>numPartitions := 2\<rparr>"]
  by simp

text \<open>A range of the size list ends and sets exactly the partitions it names: with a stride of at
  least one, a block of at most the stride and a range inside the array, the partitions of the
  range whose distance from its start is, modulo the stride, less than the block.\<close>

theorem size_range_result:
  assumes "1 \<le> stride" "block \<le> stride" "0 \<le> i" "endi < int (length sz)"
  shows "\<exists>sz'. fill_sizes z endi stride block i sz = Some (Inr sz') \<and> length sz' = length sz
    \<and> (\<forall>k < length sz. sz' ! k =
         (if i \<le> int k \<and> int k \<le> endi \<and> (int k - i) mod stride < block then z else sz ! k))"
  using assms(3,4)
proof (induction "nat (endi + 1 - i)" arbitrary: i sz rule: less_induct)
  case less
  show ?case
  proof (cases "i \<le> endi")
    case False
    then show ?thesis by (subst fill_sizes.simps) auto
  next
    case True
    obtain sz1 where b: "fill_block z endi i block 0 sz = Inr sz1" "length sz1 = length sz"
      "\<And>k. k < length sz \<Longrightarrow> sz1 ! k = (if i + 0 \<le> int k \<and> int k \<le> endi \<and> int k < i + block then z else sz ! k)"
      using fill_block_result [of i endi sz 0 z block] less.prems by auto
    have "nat (endi + 1 - (i + stride)) < nat (endi + 1 - i)" using True assms(1) by simp
    then obtain sz2 where c: "fill_sizes z endi stride block (i + stride) sz1 = Some (Inr sz2)"
      "length sz2 = length sz"
      "\<And>k. k < length sz \<Longrightarrow> sz2 ! k = (if i + stride \<le> int k \<and> int k \<le> endi
          \<and> (int k - (i + stride)) mod stride < block then z else sz1 ! k)"
      using less.hyps [of "i + stride" sz1] less.prems assms(1) b(2) by auto
    have m: "(x - (i + stride)) mod stride = (x - i) mod stride" for x
      by (metis diff_diff_eq minus_mod_self2)
    have n: "(x - i) mod stride = x - i" if "i \<le> x" "x < i + stride" for x
      using that by simp
    have "sz2 ! k = (if i \<le> int k \<and> int k \<le> endi \<and> (int k - i) mod stride < block then z else sz ! k)"
      if "k < length sz" for k
      using b(3) [OF that] c(3) [OF that] n [of "int k"] assms(1,2) unfolding m
      by (cases "i \<le> int k"; cases "int k < i + stride") auto
    then show ?thesis using b(1) c(1,2) True by (subst fill_sizes.simps) auto
  qed
qed

theorem size_range_result_witness:
  "\<exists>sz'. fill_sizes 7 6 3 2 1 [0,0,0,0,0,0,0] = Some (Inr sz') \<and> sz' ! 2 = 7 \<and> sz' ! 3 = 0"
proof -
  obtain sz' where f: "fill_sizes 7 6 3 2 1 [0,0,0,0,0,0,0] = Some (Inr sz')"
    and k: "\<forall>k < length [0,0,0,0,0,0,0::int]. sz' ! k =
       (if 1 \<le> int k \<and> int k \<le> 6 \<and> (int k - 1) mod 3 < 2 then 7 else [0,0,0,0,0,0,0] ! k)"
    using size_range_result [of 3 2 1 6 "[0,0,0,0,0,0,0]" 7] by auto
  show ?thesis using f k [rule_format, of 2] k [rule_format, of 3] by simp
qed

text \<open>C19. A run size that passes the validation is consistent: the number of processing elements is
  the number of processes times the processing elements of each, at least one, and every
  processing element has exactly one process and rank, from which its number is recovered.\<close>

theorem run_size_consistent:
  assumes "derive_run_size r numnodes = Inr (npes, nodesize)" and "0 < numnodes"
    and "Cmi_mynodesize m = nodesize"
  shows "npes = numnodes * nodesize \<and> 1 \<le> nodesize
    \<and> (plusPeSet r \<longrightarrow> npes = totalPes r)
    \<and> (\<forall>pe. 0 \<le> pe \<and> pe < npes \<longrightarrow>
         0 \<le> CmiNodeOf m pe \<and> CmiNodeOf m pe < numnodes \<and> 0 \<le> CmiRankOf m pe \<and> CmiRankOf m pe < nodesize
         \<and> CmiNodeFirst m (CmiNodeOf m pe) + CmiRankOf m pe = pe)
    \<and> (\<forall>node rank. 0 \<le> node \<and> 0 \<le> rank \<and> rank < nodesize \<longrightarrow>
         CmiNodeOf m (CmiNodeFirst m node + rank) = node \<and> CmiRankOf m (CmiNodeFirst m node + rank) = rank)"
proof -
  have a: "npes = numnodes * nodesize \<and> 1 \<le> nodesize \<and> (plusPeSet r \<longrightarrow> npes = totalPes r)"
  proof (cases "plusPeSet r")
    case True
    then have t: "totalPes r = npes" "nodesize = npes div numnodes" "1 \<le> npes" "numnodes \<le> npes" "npes mod numnodes = 0"
      using assms(1) by (auto simp: derive_run_size_def sizeArgError_def split: option.splits if_splits)
    then show ?thesis using assms(2) True
      by (auto simp: pos_imp_zdiv_pos_iff int_one_le_iff_zero_less)
  next
    case False
    then show ?thesis using assms(1)
      by (auto simp: derive_run_size_def sizeArgError_def int_mult_def bindE_Inr mult.commute
          split: option.splits if_splits)
  qed
  then have "0 \<le> pe div nodesize \<and> pe div nodesize < numnodes" if "0 \<le> pe" "pe < npes" for pe
    using div_bounds [of pe nodesize numnodes] that by simp
  moreover have "0 < nodesize" using a by simp
  ultimately have "(\<forall>pe. 0 \<le> pe \<and> pe < npes \<longrightarrow>
         0 \<le> CmiNodeOf m pe \<and> CmiNodeOf m pe < numnodes \<and> 0 \<le> CmiRankOf m pe \<and> CmiRankOf m pe < nodesize
         \<and> CmiNodeFirst m (CmiNodeOf m pe) + CmiRankOf m pe = pe)
    \<and> (\<forall>node rank. 0 \<le> node \<and> 0 \<le> rank \<and> rank < nodesize \<longrightarrow>
         CmiNodeOf m (CmiNodeFirst m node + rank) = node \<and> CmiRankOf m (CmiNodeFirst m node + rank) = rank)"
    using assms(3) by (simp add: CmiNodeOf_def CmiRankOf_def CmiNodeFirst_def sdiv_smod_nonneg)
  then show ?thesis using a by blast
qed

theorem run_size_consistent_witness:
  "derive_run_size \<lparr>plusPeSet = True, plusPSet = False, plusPPNSet = False, totalPes = 8, pesPerProcess = 0\<rparr> 2 = Inr (8, 4)
   \<and> CmiNodeFirst (sample_machine 0 2 4) (CmiNodeOf (sample_machine 0 2 4) 6) + CmiRankOf (sample_machine 0 2 4) 6 = 6"
proof -
  have d: "derive_run_size \<lparr>plusPeSet = True, plusPSet = False, plusPPNSet = False, totalPes = 8, pesPerProcess = 0\<rparr> 2 = Inr (8, 4)"
    by (simp add: derive_run_size_def sizeArgError_def)
  have m: "Cmi_mynodesize (sample_machine 0 2 4) = 4" by (simp add: sample_machine_def)
  have "\<forall>pe. 0 \<le> pe \<and> pe < 8 \<longrightarrow>
      CmiNodeFirst (sample_machine 0 2 4) (CmiNodeOf (sample_machine 0 2 4) pe) + CmiRankOf (sample_machine 0 2 4) pe = pe"
    using run_size_consistent [OF d zero_less_numeral m] by (intro allI impI) blast
  then show ?thesis using d by simp
qed

end
