(* ===== verification/Broadcast.thy ===== *)
theory Broadcast
  imports Prelude "HOL-Library.Multiset"
begin

text \<open>
  The broadcasts of \<^verbatim>\<open>src/collectives.cpp\<close>, built with the spanning tree (the build default), and
  the spanning-tree macros of \<^verbatim>\<open>include/converse.h\<close>.  A process is a node; processing elements
  (PEs) are numbered node by node.  An operation returns the list of the sends it makes, each a
  destination and a message; the network and the schedulers are the relation
  \<^verbatim>\<open>deliver_step\<close>, which takes any message in flight and runs its handler, so the results hold
  for every order of delivery.
\<close>

section \<open>Messages and the machine\<close>

record 'p bmsg =
  handlerId :: int
  bcastSwapHandlerId :: int
  collectiveMetaInfo :: u32
  messageSize :: int
  nokeep :: bool
  zcMsgType :: nat
  payload :: 'p

record cluster =
  c_nodes :: nat
  c_nodesize :: nat

definition nodeOf :: "cluster \<Rightarrow> nat \<Rightarrow> nat" where
  "nodeOf c pe = pe div c_nodesize c"

definition rankOf :: "cluster \<Rightarrow> nat \<Rightarrow> nat" where
  "rankOf c pe = pe mod c_nodesize c"

definition nodeFirst :: "cluster \<Rightarrow> nat \<Rightarrow> nat" where
  "nodeFirst c node = node * c_nodesize c"

definition numPes :: "cluster \<Rightarrow> nat" where
  "numPes c = c_nodes c * c_nodesize c"

definition CmiSetBcastRoot :: "'p bmsg \<Rightarrow> nat \<Rightarrow> 'p bmsg" where
  "CmiSetBcastRoot m root = m\<lparr>collectiveMetaInfo := of_nat root\<rparr>"

definition CmiGetBcastRoot :: "'p bmsg \<Rightarrow> nat" where
  "CmiGetBcastRoot m = unat (collectiveMetaInfo m)"

section \<open>Forwarding down the tree\<close>

definition CST_W :: nat where
  "CST_W = 4"

text \<open>The children of a node in the tree rooted at \<^verbatim>\<open>rootNode\<close>, in the order the loop visits them: the
  loop stops at the first relative number outside the machine.\<close>

fun forward_loop :: "nat \<Rightarrow> nat \<Rightarrow> nat \<Rightarrow> nat list \<Rightarrow> nat list" where
  "forward_loop numNodes rootNode rel [] = []"
| "forward_loop numNodes rootNode rel (i # is) =
     (let childRel = rel * CST_W + i + 1 in
      if childRel \<ge> numNodes then []
      else let childNode = childRel + rootNode
           in (if childNode \<ge> numNodes then childNode - numNodes else childNode)
                # forward_loop numNodes rootNode rel is)"

definition CmiSpanTreeForwardToNodes :: "nat \<Rightarrow> nat \<Rightarrow> nat \<Rightarrow> nat list" where
  "CmiSpanTreeForwardToNodes numNodes mynode rootNode =
     (let d = int mynode - int rootNode;
          rel = nat (if d < 0 then d + int numNodes else d)
      in forward_loop numNodes rootNode rel [0..<CST_W])"

definition CmiBcastSendToPeers :: "cluster \<Rightarrow> nat \<Rightarrow> 'p bmsg \<Rightarrow> (nat \<times> 'p bmsg) list" where
  "CmiBcastSendToPeers c mype m =
     (if c_nodesize c \<le> 1 then []
      else let first = nodeFirst c (nodeOf c mype);
               m' = m\<lparr>handlerId := bcastSwapHandlerId m\<rparr>
           in map (\<lambda>r. (first + r, m')) (filter (\<lambda>r. r \<noteq> rankOf c mype) [0..<c_nodesize c]))"

definition CmiBcastForward :: "cluster \<Rightarrow> nat \<Rightarrow> 'p bmsg \<Rightarrow> (nat \<times> 'p bmsg) list" where
  "CmiBcastForward c mype m =
     map (\<lambda>child. (nodeFirst c child, m))
       (CmiSpanTreeForwardToNodes (c_nodes c) (nodeOf c mype) (CmiGetBcastRoot m))
     @ CmiBcastSendToPeers c mype m"

definition CmiNodeBcastForward :: "cluster \<Rightarrow> nat \<Rightarrow> 'p bmsg \<Rightarrow> (nat \<times> 'p bmsg) list" where
  "CmiNodeBcastForward c mynode m =
     map (\<lambda>child. (child, m)) (CmiSpanTreeForwardToNodes (c_nodes c) mynode (CmiGetBcastRoot m))"

section \<open>Broadcasts\<close>

text \<open>Each returns its sends and the message as the caller gets it back.\<close>

definition CmiSyncBroadcast ::
  "cluster \<Rightarrow> int \<Rightarrow> nat \<Rightarrow> int \<Rightarrow> 'p bmsg \<Rightarrow> (nat \<times> 'p bmsg) list \<times> 'p bmsg" where
  "CmiSyncBroadcast c bcastHandler mype sz m =
     (let m1 = m\<lparr>messageSize := sz\<rparr>;
          m2 = CmiSetBcastRoot m1 (nodeOf c mype);
          m3 = m2\<lparr>bcastSwapHandlerId := handlerId m2\<rparr>;
          m4 = m3\<lparr>handlerId := bcastHandler\<rparr>;
          sends = CmiBcastForward c mype m4
      in (sends, m4\<lparr>handlerId := bcastSwapHandlerId m4\<rparr>))"

definition CmiSyncBroadcastAll ::
  "cluster \<Rightarrow> int \<Rightarrow> nat \<Rightarrow> int \<Rightarrow> 'p bmsg \<Rightarrow> (nat \<times> 'p bmsg) list \<times> 'p bmsg" where
  "CmiSyncBroadcastAll c bcastHandler mype sz m =
     (let m1 = m\<lparr>messageSize := sz\<rparr>;
          (sends, m2) = CmiSyncBroadcast c bcastHandler mype sz m1
      in ((mype, m1) # sends, m2))"

definition CmiSyncNodeBroadcast ::
  "cluster \<Rightarrow> int \<Rightarrow> nat \<Rightarrow> int \<Rightarrow> 'p bmsg \<Rightarrow> (nat \<times> 'p bmsg) list \<times> 'p bmsg" where
  "CmiSyncNodeBroadcast c nodeBcastHandler mynode sz m =
     (let m1 = m\<lparr>messageSize := sz\<rparr>;
          m2 = CmiSetBcastRoot m1 mynode;
          m3 = m2\<lparr>bcastSwapHandlerId := handlerId m2\<rparr>;
          m4 = m3\<lparr>handlerId := nodeBcastHandler\<rparr>;
          sends = CmiNodeBcastForward c mynode m4
      in (sends, m4\<lparr>handlerId := bcastSwapHandlerId m4\<rparr>))"

definition CmiSyncNodeBroadcastAll ::
  "cluster \<Rightarrow> int \<Rightarrow> nat \<Rightarrow> int \<Rightarrow> 'p bmsg \<Rightarrow> (nat \<times> 'p bmsg) list \<times> 'p bmsg" where
  "CmiSyncNodeBroadcastAll c nodeBcastHandler mynode sz m =
     (let m1 = m\<lparr>messageSize := sz\<rparr>;
          (sends, m2) = CmiSyncNodeBroadcast c nodeBcastHandler mynode sz m1
      in ((mynode, m1) # sends, m2))"

text \<open>The relay handlers: what they send, and the message they pass on to the user's handler.\<close>

definition CmiBcastHandler :: "cluster \<Rightarrow> nat \<Rightarrow> 'p bmsg \<Rightarrow> (nat \<times> 'p bmsg) list \<times> 'p bmsg" where
  "CmiBcastHandler c mype m = (CmiBcastForward c mype m, m\<lparr>handlerId := bcastSwapHandlerId m\<rparr>)"

definition CmiNodeBcastHandler :: "cluster \<Rightarrow> nat \<Rightarrow> 'p bmsg \<Rightarrow> (nat \<times> 'p bmsg) list \<times> 'p bmsg" where
  "CmiNodeBcastHandler c mynode m = (CmiNodeBcastForward c mynode m, m\<lparr>handlerId := bcastSwapHandlerId m\<rparr>)"

text \<open>A message that reaches its destination runs the relay handler or is a user's message.\<close>

definition dispatch_pe :: "cluster \<Rightarrow> int \<Rightarrow> nat \<times> 'p bmsg \<Rightarrow> (nat \<times> 'p bmsg) list \<times> 'p bmsg" where
  "dispatch_pe c bcastHandler x =
     (if handlerId (snd x) = bcastHandler then CmiBcastHandler c (fst x) (snd x) else ([], snd x))"

definition dispatch_node :: "cluster \<Rightarrow> int \<Rightarrow> nat \<times> 'p bmsg \<Rightarrow> (nat \<times> 'p bmsg) list \<times> 'p bmsg" where
  "dispatch_node c nodeBcastHandler x =
     (if handlerId (snd x) = nodeBcastHandler then CmiNodeBcastHandler c (fst x) (snd x) else ([], snd x))"

section \<open>Broadcast within a node\<close>

datatype 'p peer_push = Shared_pointer "'p bmsg" | Copy_of "'p bmsg"

text \<open>\<^verbatim>\<open>CmiForwardMsgToPeers\<close>: a nokeep message is pushed by pointer with one reference per peer, any
  other is copied for each.\<close>

definition CmiForwardMsgToPeers :: "cluster \<Rightarrow> nat \<Rightarrow> 'p bmsg \<Rightarrow> (nat \<times> 'p peer_push) list \<times> nat" where
  "CmiForwardMsgToPeers c myRank m =
     (let ranks = [0..<myRank] @ [myRank + 1..<c_nodesize c]
      in if nokeep m then (map (\<lambda>i. (i, Shared_pointer m)) ranks, length ranks)
         else (map (\<lambda>i. (i, Copy_of m)) ranks, 0))"

definition CMK_ZC_BCAST_RECV_MSG :: nat where
  "CMK_ZC_BCAST_RECV_MSG = 5"

text \<open>The pushes to the peers, the references taken, and the PE that gets the caller's buffer.\<close>

definition CmiWithinNodeBroadcast ::
  "cluster \<Rightarrow> nat \<Rightarrow> 'p bmsg \<Rightarrow> (nat \<times> 'p peer_push) list \<times> nat \<times> nat" where
  "CmiWithinNodeBroadcast c mype m =
     (let (pushes, refs) = (if zcMsgType m \<noteq> CMK_ZC_BCAST_RECV_MSG
                            then CmiForwardMsgToPeers c (rankOf c mype) m else ([], 0))
      in (pushes, refs, mype))"

section \<open>Delivery in any order\<close>

record ('d, 'm) flight =
  pool :: "('d \<times> 'm) multiset"
  delivered :: "('d \<times> 'm) multiset"

inductive deliver_step ::
  "('d \<times> 'm \<Rightarrow> ('d \<times> 'm) list \<times> 'm) \<Rightarrow> ('d, 'm) flight \<Rightarrow> ('d, 'm) flight \<Rightarrow> bool"
  for dispatch where
  deliver: "x \<in># pool f \<Longrightarrow> dispatch x = (sends, m) \<Longrightarrow>
    deliver_step dispatch f
      \<lparr>pool = pool f - {#x#} + mset sends, delivered = add_mset (fst x, m) (delivered f)\<rparr>"

inductive_cases deliver_stepE: "deliver_step dispatch f f'"

definition start :: "('d \<times> 'm) list \<Rightarrow> ('d, 'm) flight" where
  "start sends = \<lparr>pool = mset sends, delivered = {#}\<rparr>"

section \<open>Relayed delivery\<close>

definition outstanding :: "('d \<times> 'm \<Rightarrow> ('d \<times> 'm) multiset) \<Rightarrow> ('d, 'm) flight \<Rightarrow> ('d \<times> 'm) multiset" where
  "outstanding served f = (\<Sum>x\<in>#pool f. served x)"

text \<open>The contract of a relayed broadcast: \<^verbatim>\<open>served x\<close> is what a message in flight will deliver, itself
  or through the messages its handler sends on.\<close>

locale relay =
  fixes valid :: "'d \<times> 'm \<Rightarrow> bool"
    and dispatch :: "'d \<times> 'm \<Rightarrow> ('d \<times> 'm) list \<times> 'm"
    and served :: "'d \<times> 'm \<Rightarrow> ('d \<times> 'm) multiset"
  assumes sends_valid: "valid x \<Longrightarrow> dispatch x = (sends, m) \<Longrightarrow> y \<in> set sends \<Longrightarrow> valid y"
    and served_split: "valid x \<Longrightarrow> dispatch x = (sends, m) \<Longrightarrow>
      served x = add_mset (fst x, m) (\<Sum>y\<in>#mset sends. served y)"
begin

lemma step_account:
  assumes "deliver_step dispatch f f'" and "\<forall>x \<in># pool f. valid x"
  shows "(\<forall>x \<in># pool f'. valid x)
    \<and> delivered f' + outstanding served f' = delivered f + outstanding served f
    \<and> size (delivered f') = Suc (size (delivered f))"
proof -
  obtain x sends m where 1: "x \<in># pool f" "dispatch x = (sends, m)" "pool f' = pool f - {#x#} + mset sends"
      "delivered f' = add_mset (fst x, m) (delivered f)"
    using assms(1) by (auto elim: deliver_stepE)
  obtain P where P: "pool f = add_mset x P" using 1(1) by (meson multi_member_split)
  have v: "valid x" using assms(2) 1 by blast
  have "outstanding served f = add_mset (fst x, m) (outstanding served f')"
    using served_split [OF v 1(2)] 1(3) P by (simp add: outstanding_def ac_simps)
  moreover have "valid y" if "y \<in># pool f'" for y
    using that 1(3) P assms(2) sends_valid [OF v 1(2), of y] by auto
  ultimately show ?thesis using 1(4) by simp
qed

lemma run_account:
  assumes "(deliver_step dispatch ^^ n) (start sends) f" and "\<forall>x \<in> set sends. valid x"
  shows "(\<forall>x \<in># pool f. valid x)
    \<and> delivered f + outstanding served f = (\<Sum>x\<in>#mset sends. served x)
    \<and> size (delivered f) = n"
  using assms(1)
proof (induction n arbitrary: f)
  case 0
  then show ?case using assms(2) by (auto simp: start_def outstanding_def)
next
  case (Suc n)
  then obtain g where g: "(deliver_step dispatch ^^ n) (start sends) g" "deliver_step dispatch g f" by auto
  then show ?case using Suc.IH [OF g(1)] step_account [OF g(2)] by auto
qed

lemma outstanding_empty:
  assumes "\<forall>x \<in># pool f. valid x"
  shows "outstanding served f = {#} \<longleftrightarrow> pool f = {#}"
proof
  assume o: "outstanding served f = {#}"
  show "pool f = {#}"
  proof (rule ccontr)
    assume "pool f \<noteq> {#}"
    then obtain x where x: "x \<in># pool f" by auto
    obtain sends m where d: "dispatch x = (sends, m)" by fastforce
    have "(fst x, m) \<in># served x" using served_split [OF _ d] assms x by simp
    then have "(fst x, m) \<in># outstanding served f" using x by (auto simp: outstanding_def)
    then show False using o by simp
  qed
qed (simp add: outstanding_def)

lemma run_complete:
  assumes "(deliver_step dispatch ^^ n) (start sends) f" and "\<forall>x \<in> set sends. valid x"
    and "whole = (\<Sum>x\<in>#mset sends. served x)"
  shows "n \<le> size whole \<and> delivered f \<subseteq># whole
    \<and> (pool f = {#} \<longrightarrow> delivered f = whole)
    \<and> (n = size whole \<longrightarrow> pool f = {#})
    \<and> (pool f \<noteq> {#} \<longrightarrow> (\<exists>f'. deliver_step dispatch f f'))"
proof -
  note r = run_account [OF assms(1,2)]
  have t: "whole = delivered f + outstanding served f" using r assms(3) by simp
  have "size whole = size (delivered f) + size (outstanding served f)" by (simp only: t size_union)
  moreover have "size (delivered f) = n" using r by blast
  ultimately have s: "size whole = n + size (outstanding served f)" by simp
  have "\<exists>f'. deliver_step dispatch f f'" if ne: "pool f \<noteq> {#}"
  proof -
    obtain x where "x \<in># pool f" using ne by (meson multiset_nonemptyE)
    moreover obtain sends m where "dispatch x = (sends, m)" by fastforce
    ultimately show ?thesis using deliver [of x f dispatch sends m] by blast
  qed
  moreover have "outstanding served f = {#} \<longleftrightarrow> pool f = {#}" using outstanding_empty r by blast
  ultimately show ?thesis using s t by auto
qed

end

section \<open>The tree visits every node once\<close>

function subtree :: "nat \<Rightarrow> nat \<Rightarrow> nat list" where
  "subtree N r = (if r < N then r # concat (map (subtree N) (filter (\<lambda>k. k < N) [4 * r + 1..<4 * r + 5])) else [])"
  by pat_completeness auto
termination by (relation "measure (\<lambda>(N, r). N - r)") auto

declare subtree.simps [simp del]

lemma mset_concat_map: "mset (concat (map f xs)) = (\<Sum>x\<in>#mset xs. mset (f x))"
  by (induction xs) auto

lemma filter_upt: "filter (\<lambda>k. k < N) [a..<b] = [a..<min b N]" for N :: nat
proof (induction b)
  case (Suc b)
  then show ?case by (cases "b < N") (simp_all add: min_absorb1 min_absorb2)
qed simp

lemma subtree_levels: "mset (concat (map (subtree N) [a..<min (4 * a + 1) N])) = mset [a..<N]"
proof (induction "N - a" arbitrary: a rule: less_induct)
  case less
  show ?case
  proof (cases "a < N")
    case False
    then show ?thesis by simp
  next
    case True
    have "[a..<min (4 * a + 1) N] = a # [a + 1..<min (4 * a + 1) N]"
      using True by (simp add: upt_conv_Cons)
    moreover have "subtree N a = a # concat (map (subtree N) [4 * a + 1..<min (4 * a + 5) N])"
      using True by (simp add: subtree.simps [of N a] filter_upt)
    moreover have "[a + 1..<min (4 * (a + 1) + 1) N] = [a + 1..<min (4 * a + 1) N] @ [4 * a + 1..<min (4 * a + 5) N]"
    proof (cases "4 * a + 1 < N")
      case True
      define k where "k = min (4 * a + 5) N - (4 * a + 1)"
      have k: "min (4 * a + 5) N = 4 * a + 1 + k" "min (4 * a + 1) N = 4 * a + 1" "4 * (a + 1) + 1 = 4 * a + 5"
        using True by (auto simp: k_def)
      show ?thesis unfolding k using upt_add_eq_append [of "a + 1" "4 * a + 1" k] by simp
    qed (use True in \<open>auto simp: min_def\<close>)
    ultimately have "mset (concat (map (subtree N) [a..<min (4 * a + 1) N]))
        = add_mset a (mset (concat (map (subtree N) [a + 1..<min (4 * (a + 1) + 1) N])))"
      by simp
    moreover have "mset (concat (map (subtree N) [a + 1..<min (4 * (a + 1) + 1) N])) = mset [a + 1..<N]"
      using less [of "a + 1"] True by simp
    ultimately show ?thesis using True by (simp add: upt_conv_Cons)
  qed
qed

lemma subtree_root: "0 < N \<Longrightarrow> mset (subtree N 0) = mset [0..<N]"
  using subtree_levels [of N 0] by (simp add: min_def)

section \<open>The code's broadcasts are relays\<close>

definition relOf :: "nat \<Rightarrow> nat \<Rightarrow> nat \<Rightarrow> nat" where
  "relOf N root node = (if root \<le> node then node - root else node + N - root)"

definition nodeAt :: "nat \<Rightarrow> nat \<Rightarrow> nat \<Rightarrow> nat" where
  "nodeAt N root rel = (if rel + root < N then rel + root else rel + root - N)"

lemma relOf_nodeAt: "root < N \<Longrightarrow> rel < N \<Longrightarrow> relOf N root (nodeAt N root rel) = rel"
  and nodeAt_relOf: "root < N \<Longrightarrow> node < N \<Longrightarrow> nodeAt N root (relOf N root node) = node"
  and nodeAt_less: "root < N \<Longrightarrow> rel < N \<Longrightarrow> nodeAt N root rel < N"
  and relOf_less: "root < N \<Longrightarrow> node < N \<Longrightarrow> relOf N root node < N"
  by (auto simp: relOf_def nodeAt_def)

lemma forward_loop_children:
  "forward_loop N root rel [i..<CST_W] = map (nodeAt N root) (filter (\<lambda>k. k < N) [4 * rel + i + 1..<4 * rel + 5])"
proof (induction "CST_W - i" arbitrary: i)
  case 0
  then show ?case by (simp add: CST_W_def)
next
  case (Suc n)
  then have i: "i < 4" "[i..<CST_W] = i # [i + 1..<CST_W]" by (auto simp: CST_W_def upt_conv_Cons)
  have u: "[4 * rel + i + 1..<4 * rel + 5] = (4 * rel + i + 1) # [4 * rel + (i + 1) + 1..<4 * rel + 5]"
    using i(1) by (simp add: upt_conv_Cons)
  have ih: "forward_loop N root rel [i + 1..<CST_W]
      = map (nodeAt N root) (filter (\<lambda>k. k < N) [4 * rel + (i + 1) + 1..<4 * rel + 5])"
    using Suc by auto
  show ?case
  proof (cases "4 * rel + i + 1 < N")
    case True
    then show ?thesis unfolding u i(2) using ih by (simp add: CST_W_def nodeAt_def algebra_simps)
  next
    case False
    then have "filter (\<lambda>k. k < N) [4 * rel + i + 1..<4 * rel + 5] = []" by (simp add: filter_upt)
    then show ?thesis unfolding i(2) using False by (simp add: CST_W_def algebra_simps)
  qed
qed

lemma forward_children:
  assumes "root < N" "node < N"
  shows "CmiSpanTreeForwardToNodes N node root =
    map (nodeAt N root) (filter (\<lambda>k. k < N) [4 * relOf N root node + 1..<4 * relOf N root node + 5])"
proof -
  have "nat (if int node - int root < 0 then int node - int root + int N else int node - int root) = relOf N root node"
    using assms by (auto simp: relOf_def)
  then show ?thesis
    using forward_loop_children [of N root "relOf N root node" 0] by (simp add: CmiSpanTreeForwardToNodes_def Let_def)
qed

text \<open>All nodes below and including a node, in the tree rooted at \<^verbatim>\<open>root\<close>.\<close>

definition nodes_below :: "nat \<Rightarrow> nat \<Rightarrow> nat \<Rightarrow> nat list" where
  "nodes_below N root node = map (nodeAt N root) (subtree N (relOf N root node))"

lemma nodes_below_step:
  assumes "root < N" "node < N"
  shows "nodes_below N root node =
    node # concat (map (nodes_below N root) (CmiSpanTreeForwardToNodes N node root))"
proof -
  let ?kids = "filter (\<lambda>k. k < N) [4 * relOf N root node + 1..<4 * relOf N root node + 5]"
  have kids: "map (nodes_below N root) (CmiSpanTreeForwardToNodes N node root)
      = map (\<lambda>k. map (nodeAt N root) (subtree N k)) ?kids"
    using assms(1) by (auto simp: forward_children [OF assms] nodes_below_def relOf_nodeAt)
  show ?thesis
    unfolding kids using relOf_less [OF assms] nodeAt_relOf [OF assms]
    by (simp add: nodes_below_def subtree.simps [of N "relOf N root node"] map_concat comp_def)
qed

lemma nodes_below_root: "root < N \<Longrightarrow> mset (nodes_below N root root) = mset [0..<N]"
proof -
  assume r: "root < N"
  have "map (nodeAt N root) [0..<N - root] = [root..<N]"
    by (rule nth_equalityI) (use r in \<open>auto simp: nodeAt_def\<close>)
  moreover have "map (nodeAt N root) [N - root..<N] = [0..<root]"
    by (rule nth_equalityI) (use r in \<open>auto simp: nodeAt_def\<close>)
  moreover have "[0..<N] = [0..<N - root] @ [N - root..<N]"
    using upt_add_eq_append [of 0 "N - root" root] r by simp
  ultimately have "mset (map (nodeAt N root) [0..<N]) = mset ([0..<root] @ [root..<N])"
    by (simp add: union_commute)
  also have "[0..<root] @ [root..<N] = [0..<N]" using upt_add_eq_append [of 0 root "N - root"] r by simp
  finally show ?thesis using subtree_root [of N] r by (simp add: nodes_below_def relOf_def)
qed

text \<open>The PEs of a node.\<close>

definition node_pes :: "cluster \<Rightarrow> nat \<Rightarrow> nat list" where
  "node_pes c node = map (\<lambda>r. nodeFirst c node + r) [0..<c_nodesize c]"

lemma node_pes_all: "concat (map (node_pes c) [0..<N]) = [0..<N * c_nodesize c]"
proof (induction N)
  case (Suc N)
  have "node_pes c N = [N * c_nodesize c..<N * c_nodesize c + c_nodesize c]"
    by (rule nth_equalityI) (auto simp: node_pes_def nodeFirst_def)
  then show ?case using Suc upt_add_eq_append [of 0 "N * c_nodesize c" "c_nodesize c"]
    by (simp add: add.commute)
qed simp

lemma upt_split_one: "r < S \<Longrightarrow> mset [0..<S] = add_mset r (mset (filter (\<lambda>x. x \<noteq> r) [0..<S]))"
  by (induction S) (auto simp: less_Suc_eq)

lemma pe_number: "0 < c_nodesize c \<Longrightarrow> nodeFirst c (nodeOf c pe) + rankOf c pe = pe"
  by (simp add: nodeFirst_def nodeOf_def rankOf_def)

lemma nodeOf_first [simp]: "0 < c_nodesize c \<Longrightarrow> nodeOf c (nodeFirst c node) = node"
  and rankOf_first [simp]: "rankOf c (nodeFirst c node) = 0"
  by (simp_all add: nodeOf_def rankOf_def nodeFirst_def)

lemma nodeOf_less: "pe < numPes c \<Longrightarrow> nodeOf c pe < c_nodes c"
  by (simp add: nodeOf_def numPes_def less_mult_imp_div_less)

lemma peers_and_self:
  assumes "0 < c_nodesize c" and "um = m\<lparr>handlerId := bcastSwapHandlerId m\<rparr>"
  shows "add_mset (pe, um) (mset (CmiBcastSendToPeers c pe m)) = mset (map (\<lambda>p. (p, um)) (node_pes c (nodeOf c pe)))"
proof -
  have r: "rankOf c pe < c_nodesize c" using assms(1) by (simp add: rankOf_def)
  have "mset (map (\<lambda>p. (p, um)) (node_pes c (nodeOf c pe)))
      = image_mset (\<lambda>r. (nodeFirst c (nodeOf c pe) + r, um)) (mset [0..<c_nodesize c])"
    by (simp only: node_pes_def mset_map image_mset.compositionality comp_def)
  also have "\<dots> = add_mset (pe, um) (mset (map (\<lambda>r. (nodeFirst c (nodeOf c pe) + r, um))
        (filter (\<lambda>r. r \<noteq> rankOf c pe) [0..<c_nodesize c])))"
    unfolding upt_split_one [OF r] by (simp add: pe_number [OF assms(1)])
  also have "map (\<lambda>r. (nodeFirst c (nodeOf c pe) + r, um)) (filter (\<lambda>r. r \<noteq> rankOf c pe) [0..<c_nodesize c])
      = CmiBcastSendToPeers c pe m"
  proof (cases "c_nodesize c \<le> 1")
    case True
    then have one: "c_nodesize c = 1" using assms(1) by simp
    then have "rankOf c pe = 0" by (simp add: rankOf_def)
    with one show ?thesis by (simp add: CmiBcastSendToPeers_def)
  qed (simp add: CmiBcastSendToPeers_def Let_def assms(2))
  finally show ?thesis by simp
qed

definition to_user :: "'p bmsg \<Rightarrow> 'p bmsg" where
  "to_user m = m\<lparr>handlerId := bcastSwapHandlerId m\<rparr>"

definition relay_ok :: "cluster \<Rightarrow> int \<Rightarrow> 'p bmsg \<Rightarrow> bool" where
  "relay_ok c h m \<longleftrightarrow> handlerId m = h \<longrightarrow> CmiGetBcastRoot m < c_nodes c \<and> bcastSwapHandlerId m \<noteq> h"

definition valid_pe :: "cluster \<Rightarrow> int \<Rightarrow> nat \<times> 'p bmsg \<Rightarrow> bool" where
  "valid_pe c h x \<longleftrightarrow> 0 < c_nodesize c \<and> fst x < numPes c \<and> relay_ok c h (snd x)
     \<and> (handlerId (snd x) = h \<longrightarrow> rankOf c (fst x) = 0)"

definition served_pe :: "cluster \<Rightarrow> int \<Rightarrow> nat \<times> 'p bmsg \<Rightarrow> (nat \<times> 'p bmsg) multiset" where
  "served_pe c h x =
     (if handlerId (snd x) = h
      then mset (map (\<lambda>p. (p, to_user (snd x)))
             (concat (map (node_pes c) (nodes_below (c_nodes c) (CmiGetBcastRoot (snd x)) (nodeOf c (fst x))))))
      else {#x#})"

definition valid_node :: "cluster \<Rightarrow> int \<Rightarrow> nat \<times> 'p bmsg \<Rightarrow> bool" where
  "valid_node c h x \<longleftrightarrow> fst x < c_nodes c \<and> relay_ok c h (snd x)"

definition served_node :: "cluster \<Rightarrow> int \<Rightarrow> nat \<times> 'p bmsg \<Rightarrow> (nat \<times> 'p bmsg) multiset" where
  "served_node c h x =
     (if handlerId (snd x) = h
      then mset (map (\<lambda>n. (n, to_user (snd x))) (nodes_below (c_nodes c) (CmiGetBcastRoot (snd x)) (fst x)))
      else {#x#})"

lemma children_less:
  assumes "root < N" "node < N" "k \<in> set (CmiSpanTreeForwardToNodes N node root)"
  shows "k < N"
  using assms(3) nodeAt_less [OF assms(1)] by (auto simp: forward_children [OF assms(1,2)])

lemma sum_served_user:
  "\<forall>y \<in> set ys. handlerId (snd y) \<noteq> h \<Longrightarrow> (\<Sum>y\<in>#mset ys. served_pe c h y) = mset ys"
  by (induction ys) (auto simp: served_pe_def)

lemma sum_served_children:
  assumes "0 < c_nodesize c" "handlerId m = h"
  shows "(\<Sum>y\<in>#mset (map (\<lambda>k. (nodeFirst c k, m)) ks). served_pe c h y)
    = mset (map (\<lambda>p. (p, to_user m))
        (concat (map (node_pes c) (concat (map (nodes_below (c_nodes c) (CmiGetBcastRoot m)) ks)))))"
  by (induction ks) (auto simp: served_pe_def assms)

lemma served_forward:
  assumes "0 < c_nodesize c" "pe < numPes c" "handlerId m = h" "bcastSwapHandlerId m \<noteq> h" "CmiGetBcastRoot m < c_nodes c"
  shows "add_mset (pe, to_user m) (\<Sum>y\<in>#mset (CmiBcastForward c pe m). served_pe c h y)
    = mset (map (\<lambda>p. (p, to_user m))
        (concat (map (node_pes c) (nodes_below (c_nodes c) (CmiGetBcastRoot m) (nodeOf c pe)))))"
proof -
  have p: "(\<Sum>y\<in>#mset (CmiBcastSendToPeers c pe m). served_pe c h y) = mset (CmiBcastSendToPeers c pe m)"
    by (rule sum_served_user) (use assms(4) in \<open>auto simp: CmiBcastSendToPeers_def Let_def split: if_splits\<close>)
  have q: "add_mset (pe, to_user m) (mset (CmiBcastSendToPeers c pe m))
      = mset (map (\<lambda>p. (p, to_user m)) (node_pes c (nodeOf c pe)))"
    by (rule peers_and_self [OF assms(1)]) (simp add: to_user_def)
  show ?thesis
    unfolding nodes_below_step [OF assms(5) nodeOf_less [OF assms(2)]]
    using p q sum_served_children [OF assms(1,3)]
    by (simp add: CmiBcastForward_def add.commute del: mset_map)
qed

lemma node_served_forward:
  assumes "node < c_nodes c" "handlerId m = h" "CmiGetBcastRoot m < c_nodes c"
  shows "add_mset (node, to_user m) (\<Sum>y\<in>#mset (CmiNodeBcastForward c node m). served_node c h y)
    = mset (map (\<lambda>n. (n, to_user m)) (nodes_below (c_nodes c) (CmiGetBcastRoot m) node))"
proof -
  have "(\<Sum>y\<in>#mset (map (\<lambda>k. (k, m)) ks). served_node c h y)
    = mset (map (\<lambda>n. (n, to_user m)) (concat (map (nodes_below (c_nodes c) (CmiGetBcastRoot m)) ks)))" for ks
    by (induction ks) (auto simp: served_node_def assms(2))
  then show ?thesis
    unfolding nodes_below_step [OF assms(3,1)] by (simp add: CmiNodeBcastForward_def del: mset_map)
qed

lemma nodeFirst_less: "0 < c_nodesize c \<Longrightarrow> k < c_nodes c \<Longrightarrow> nodeFirst c k < numPes c"
  by (simp add: nodeFirst_def numPes_def)

lemma peer_less:
  assumes "0 < c_nodesize c" "pe < numPes c" "r < c_nodesize c"
  shows "nodeFirst c (nodeOf c pe) + r < numPes c"
proof -
  have "(nodeOf c pe + 1) * c_nodesize c \<le> c_nodes c * c_nodesize c"
    using nodeOf_less [OF assms(2)] by (intro mult_le_mono1) simp
  then show ?thesis using assms(3) by (simp add: nodeFirst_def numPes_def)
qed

lemma forward_valid:
  assumes "0 < c_nodesize c" "pe < numPes c" "handlerId m = h" "relay_ok c h m"
    and "y \<in> set (CmiBcastForward c pe m)"
  shows "valid_pe c h y"
proof -
  have r: "CmiGetBcastRoot m < c_nodes c" "bcastSwapHandlerId m \<noteq> h"
    using assms(3,4) by (auto simp: relay_ok_def)
  consider k where "k \<in> set (CmiSpanTreeForwardToNodes (c_nodes c) (nodeOf c pe) (CmiGetBcastRoot m))"
      "y = (nodeFirst c k, m)"
    | i where "i < c_nodesize c" "y = (nodeFirst c (nodeOf c pe) + i, m\<lparr>handlerId := bcastSwapHandlerId m\<rparr>)"
    using assms(5) by (auto simp: CmiBcastForward_def CmiBcastSendToPeers_def Let_def split: if_splits)
  then show ?thesis
  proof cases
    case 1
    then show ?thesis
      using children_less [OF r(1) nodeOf_less [OF assms(2)]] nodeFirst_less assms by (simp add: valid_pe_def)
  next
    case 2
    then show ?thesis using peer_less [OF assms(1,2)] r assms(1) by (simp add: valid_pe_def relay_ok_def)
  qed
qed

interpretation pe_relay: relay "valid_pe c h" "dispatch_pe c h" "served_pe c h"
proof (unfold_locales, goal_cases)
  case (1 x sends m y)
  show ?case
  proof (cases "handlerId (snd x) = h")
    case True
    then show ?thesis using 1 forward_valid [of c "fst x" "snd x" h y]
      by (auto simp: valid_pe_def dispatch_pe_def CmiBcastHandler_def)
  qed (use 1 in \<open>simp add: dispatch_pe_def\<close>)
next
  case (2 x sends m)
  show ?case
  proof (cases "handlerId (snd x) = h")
    case True
    then have "CmiGetBcastRoot (snd x) < c_nodes c" "bcastSwapHandlerId (snd x) \<noteq> h" "0 < c_nodesize c" "fst x < numPes c"
      using 2 by (auto simp: valid_pe_def relay_ok_def)
    then show ?thesis
      using served_forward [of c "fst x" "snd x" h] True 2(2)
      by (auto simp: dispatch_pe_def CmiBcastHandler_def served_pe_def to_user_def)
  qed (use 2 in \<open>auto simp: dispatch_pe_def served_pe_def\<close>)
qed

interpretation node_relay: relay "valid_node c h" "dispatch_node c h" "served_node c h"
proof (unfold_locales, goal_cases)
  case (1 x sends m y)
  show ?case
  proof (cases "handlerId (snd x) = h")
    case True
    then have "CmiGetBcastRoot (snd x) < c_nodes c" "fst x < c_nodes c"
      using 1 by (auto simp: valid_node_def relay_ok_def)
    from children_less [OF this] show ?thesis using 1 True
      by (auto simp: valid_node_def dispatch_node_def CmiNodeBcastHandler_def CmiNodeBcastForward_def)
  qed (use 1 in \<open>simp add: dispatch_node_def\<close>)
next
  case (2 x sends m)
  show ?case
  proof (cases "handlerId (snd x) = h")
    case True
    then have "CmiGetBcastRoot (snd x) < c_nodes c" "fst x < c_nodes c"
      using 2 by (auto simp: valid_node_def relay_ok_def)
    then show ?thesis
      using node_served_forward [of "fst x" c "snd x" h] True 2(2)
      by (auto simp: dispatch_node_def CmiNodeBcastHandler_def served_node_def to_user_def)
  qed (use 2 in \<open>auto simp: dispatch_node_def served_node_def\<close>)
qed

section \<open>Properties\<close>

lemma unat_of_node: "node < N \<Longrightarrow> N \<le> 2 ^ 31 \<Longrightarrow> unat (of_nat node :: u32) = node"
  by (simp add: unat_of_nat take_bit_nat_eq_self)

lemma all_but_source:
  assumes "add_mset (s, u) total' = mset (map (\<lambda>p. (p, u)) (xs :: nat list))" and "mset xs = mset [0..<n]" and "s < n"
  shows "total' = mset (map (\<lambda>p. (p, u)) (filter (\<lambda>p. p \<noteq> s) [0..<n]))"
proof -
  have "mset (map (\<lambda>p. (p, u)) xs) = image_mset (\<lambda>p. (p, u)) (add_mset s (mset (filter (\<lambda>p. p \<noteq> s) [0..<n])))"
    by (simp only: mset_map assms(2) upt_split_one [OF assms(3)])
  then have "add_mset (s, u) total' = add_mset (s, u) (image_mset (\<lambda>p. (p, u)) (mset (filter (\<lambda>p. p \<noteq> s) [0..<n])))"
    using assms(1) by (simp only: image_mset_add_mset)
  then show ?thesis by (simp only: add_mset_add_mset_same_iff mset_map)
qed

text \<open>C20. A broadcast reaches every other PE exactly once, in whatever order the messages in flight
  are delivered: at most one delivery per PE, never the sender, each with the user's handler
  and the sender's message; the relaying never gets stuck, and ends after as many deliveries as
  there are other PEs.\<close>

theorem broadcast_reaches_every_pe_once:
  assumes "CmiSyncBroadcast c h s sz m = (sends, m')"
    and "s < numPes c" "0 < c_nodesize c" "c_nodes c \<le> 2 ^ 31" "handlerId m \<noteq> h"
    and "(deliver_step (dispatch_pe c h) ^^ n) (start sends) f"
    and "others = mset (map (\<lambda>p. (p, m')) (filter (\<lambda>p. p \<noteq> s) [0..<numPes c]))"
  shows "handlerId m' = handlerId m \<and> payload m' = payload m
    \<and> n \<le> size others \<and> delivered f \<subseteq># others
    \<and> (pool f = {#} \<longrightarrow> delivered f = others)
    \<and> (n = size others \<longrightarrow> pool f = {#})
    \<and> (pool f \<noteq> {#} \<longrightarrow> (\<exists>f'. deliver_step (dispatch_pe c h) f f'))"
proof -
  define m4 where "m4 = m\<lparr>messageSize := sz, collectiveMetaInfo := of_nat (nodeOf c s),
    bcastSwapHandlerId := handlerId m, handlerId := h\<rparr>"
  have sends: "sends = CmiBcastForward c s m4" and m': "m' = to_user m4"
    using assms(1) by (auto simp: CmiSyncBroadcast_def Let_def CmiSetBcastRoot_def m4_def to_user_def)
  have root: "CmiGetBcastRoot m4 = nodeOf c s" "nodeOf c s < c_nodes c"
    using unat_of_node [of "nodeOf c s" "c_nodes c"] nodeOf_less [OF assms(2)] assms(4)
    by (simp_all add: CmiGetBcastRoot_def m4_def)
  have h4: "handlerId m4 = h" "bcastSwapHandlerId m4 \<noteq> h" using assms(5) by (simp_all add: m4_def)
  have v: "\<forall>x \<in> set sends. valid_pe c h x"
    using forward_valid [OF assms(3,2) h4(1)] root h4 by (auto simp: sends relay_ok_def)
  let ?below = "concat (map (node_pes c) (nodes_below (c_nodes c) (nodeOf c s) (nodeOf c s)))"
  have "mset ?below = mset (concat (map (node_pes c) [0..<c_nodes c]))"
    using nodes_below_root [OF root(2)] by (simp add: mset_concat_map)
  then have all: "mset ?below = mset [0..<numPes c]" by (simp only: node_pes_all numPes_def)
  have "add_mset (s, m') (\<Sum>x\<in>#mset sends. served_pe c h x) = mset (map (\<lambda>p. (p, m')) ?below)"
    using served_forward [OF assms(3,2) h4] root by (simp add: sends m')
  from all_but_source [OF this all assms(2)]
  have "others = (\<Sum>x\<in>#mset sends. served_pe c h x)" using assms(7) by simp
  from pe_relay.run_complete [OF assms(6) v this] show ?thesis
    by (simp add: m' to_user_def m4_def)
qed

definition sample_cluster :: cluster where
  "sample_cluster = \<lparr>c_nodes = 2, c_nodesize = 1\<rparr>"

definition sample_bmsg :: "nat bmsg" where
  "sample_bmsg = \<lparr>handlerId = 7, bcastSwapHandlerId = 0, collectiveMetaInfo = 0, messageSize = 0,
     nokeep = False, zcMsgType = 0, payload = 42\<rparr>"

lemma sample_sends:
  "CmiSyncBroadcast sample_cluster 1 1 64 sample_bmsg =
     ([(0, sample_bmsg\<lparr>messageSize := 64, collectiveMetaInfo := 1, bcastSwapHandlerId := 7, handlerId := 1\<rparr>)],
      sample_bmsg\<lparr>messageSize := 64, collectiveMetaInfo := 1, bcastSwapHandlerId := 7\<rparr>)"
  by (simp add: CmiSyncBroadcast_def Let_def CmiSetBcastRoot_def CmiBcastForward_def
      CmiSpanTreeForwardToNodes_def CmiBcastSendToPeers_def sample_cluster_def sample_bmsg_def nodeOf_def
      nodeFirst_def CmiGetBcastRoot_def CST_W_def upt_rec)

theorem broadcast_reaches_every_pe_once_witness:
  "\<exists>f. (deliver_step (dispatch_pe sample_cluster 1) ^^ 0) (start (fst (CmiSyncBroadcast sample_cluster 1 1 64 sample_bmsg))) f
     \<and> pool f \<noteq> {#} \<and> (\<exists>f'. deliver_step (dispatch_pe sample_cluster 1) f f')"
proof -
  let ?f = "start (fst (CmiSyncBroadcast sample_cluster 1 1 64 sample_bmsg))"
  have r: "(deliver_step (dispatch_pe sample_cluster 1) ^^ 0) ?f ?f" by simp
  have ne: "pool ?f \<noteq> {#}" unfolding sample_sends by (simp add: start_def)
  have "\<exists>f'. deliver_step (dispatch_pe sample_cluster 1) ?f f'"
    using broadcast_reaches_every_pe_once [OF prod.collapse [symmetric] _ _ _ _ r refl] ne
    by (simp add: sample_cluster_def sample_bmsg_def numPes_def)
  then show ?thesis using r ne by blast
qed

text \<open>C21. A broadcast to the nodes reaches every other node exactly once in any order of delivery.\<close>

theorem node_broadcast_reaches_every_node_once:
  assumes "CmiSyncNodeBroadcast c h s sz m = (sends, m')"
    and "s < c_nodes c" "c_nodes c \<le> 2 ^ 31" "handlerId m \<noteq> h"
    and "(deliver_step (dispatch_node c h) ^^ n) (start sends) f"
    and "others = mset (map (\<lambda>p. (p, m')) (filter (\<lambda>p. p \<noteq> s) [0..<c_nodes c]))"
  shows "handlerId m' = handlerId m \<and> payload m' = payload m
    \<and> n \<le> size others \<and> delivered f \<subseteq># others
    \<and> (pool f = {#} \<longrightarrow> delivered f = others)
    \<and> (n = size others \<longrightarrow> pool f = {#})
    \<and> (pool f \<noteq> {#} \<longrightarrow> (\<exists>f'. deliver_step (dispatch_node c h) f f'))"
proof -
  define m4 where "m4 = m\<lparr>messageSize := sz, collectiveMetaInfo := of_nat s,
    bcastSwapHandlerId := handlerId m, handlerId := h\<rparr>"
  have sends: "sends = CmiNodeBcastForward c s m4" and m': "m' = to_user m4"
    using assms(1) by (auto simp: CmiSyncNodeBroadcast_def Let_def CmiSetBcastRoot_def m4_def to_user_def)
  have root: "CmiGetBcastRoot m4 = s"
    using unat_of_node [of s "c_nodes c"] assms(2,3) by (simp add: CmiGetBcastRoot_def m4_def)
  have h4: "handlerId m4 = h" "bcastSwapHandlerId m4 \<noteq> h" using assms(4) by (simp_all add: m4_def)
  have v: "\<forall>x \<in> set sends. valid_node c h x"
    using children_less [of s "c_nodes c" s] root h4 assms(2)
    by (auto simp: sends CmiNodeBcastForward_def valid_node_def relay_ok_def)
  have "add_mset (s, m') (\<Sum>x\<in>#mset sends. served_node c h x) = mset (map (\<lambda>n. (n, m')) (nodes_below (c_nodes c) s s))"
    using node_served_forward [OF assms(2) h4(1)] root assms(2) by (simp add: sends m')
  from all_but_source [OF this nodes_below_root [OF assms(2)] assms(2)]
  have "others = (\<Sum>x\<in>#mset sends. served_node c h x)" using assms(6) by simp
  from node_relay.run_complete [OF assms(5) v this] show ?thesis
    by (simp add: m' to_user_def m4_def)
qed

theorem node_broadcast_reaches_every_node_once_witness:
  "\<exists>f. (deliver_step (dispatch_node sample_cluster 1) ^^ 0) (start (fst (CmiSyncNodeBroadcast sample_cluster 1 0 64 sample_bmsg))) f
     \<and> size (delivered f) \<le> 1 \<and> pool f \<noteq> {#} \<and> (\<exists>f'. deliver_step (dispatch_node sample_cluster 1) f f')"
proof -
  let ?f = "start (fst (CmiSyncNodeBroadcast sample_cluster 1 0 64 sample_bmsg))"
  have r: "(deliver_step (dispatch_node sample_cluster 1) ^^ 0) ?f ?f" by simp
  have ne: "pool ?f \<noteq> {#}" "delivered ?f = {#}"
    by (simp_all add: start_def CmiSyncNodeBroadcast_def Let_def CmiSetBcastRoot_def CmiNodeBcastForward_def
      CmiSpanTreeForwardToNodes_def sample_cluster_def sample_bmsg_def CmiGetBcastRoot_def CST_W_def upt_rec)
  have "\<exists>f'. deliver_step (dispatch_node sample_cluster 1) ?f f'"
    using node_broadcast_reaches_every_node_once [OF prod.collapse [symmetric] _ _ _ r refl] ne
    by (simp add: sample_cluster_def sample_bmsg_def)
  then show ?thesis using r ne by auto
qed

end
