(* ===== verification/Span_Tree.thy ===== *)
theory Span_Tree
  imports Broadcast
begin

text \<open>
  The spanning-tree macros of \<^verbatim>\<open>include/converse.h\<close>, which give the shape of the reductions: the
  parent, the number of children and the list of children of a node and of a PE.  The tree over
  the nodes and the tree over the ranks of a node have the arity of the broadcast tree; the
  first PE of a node stands in both.
\<close>

section \<open>The macros\<close>

definition CmiNodeSpanTreeParent :: "nat \<Rightarrow> int" where
  "CmiNodeSpanTreeParent n = (if n \<noteq> 0 then int ((n - 1) div CST_W) else - 1)"

text \<open>The loop shared by the two children macros: the numbers \<^verbatim>\<open>n * CST_W + i + 1\<close> below the bound.\<close>

definition tree_children :: "nat \<Rightarrow> nat \<Rightarrow> nat list" where
  "tree_children bound n = filter (\<lambda>x. x < bound) (map (\<lambda>i. n * CST_W + i + 1) [0..<CST_W])"

definition CmiNodeSpanTreeChildren :: "cluster \<Rightarrow> nat \<Rightarrow> nat list" where
  "CmiNodeSpanTreeChildren c n = tree_children (c_nodes c) n"

text \<open>The count shared by \<^verbatim>\<open>CmiNumNodeSpanTreeChildren\<close> and \<^verbatim>\<open>CST_C\<close>.\<close>

definition num_children :: "nat \<Rightarrow> nat \<Rightarrow> nat" where
  "num_children bound n =
     (if (n + 1) * CST_W < bound then CST_W
      else if n * CST_W + 1 \<ge> bound then 0
      else (bound - 1) - n * CST_W)"

definition CmiNumNodeSpanTreeChildren :: "cluster \<Rightarrow> nat \<Rightarrow> nat" where
  "CmiNumNodeSpanTreeChildren c n = num_children (c_nodes c) n"

definition CmiSpanTreeParent :: "cluster \<Rightarrow> nat \<Rightarrow> int" where
  "CmiSpanTreeParent c p =
     (if p \<noteq> 0
      then if rankOf c p \<noteq> 0
           then int (nodeFirst c (nodeOf c p) + (rankOf c p - 1) div CST_W)
           else CmiNodeSpanTreeParent (nodeOf c p) * int (c_nodesize c)
      else - 1)"

definition CST_C :: "cluster \<Rightarrow> nat \<Rightarrow> nat" where
  "CST_C c p = num_children (c_nodesize c) (rankOf c p)"

definition CmiNumSpanTreeChildren :: "cluster \<Rightarrow> nat \<Rightarrow> nat" where
  "CmiNumSpanTreeChildren c p =
     (if rankOf c p \<noteq> 0 then CST_C c p
      else CmiNumNodeSpanTreeChildren c (nodeOf c p) + CST_C c p)"

definition CmiSpanTreeChildren :: "cluster \<Rightarrow> nat \<Rightarrow> nat list" where
  "CmiSpanTreeChildren c p =
     (if rankOf c p = 0 then map (nodeFirst c) (tree_children (c_nodes c) (nodeOf c p)) else [])
     @ map (\<lambda>x. nodeFirst c (nodeOf c p) + x) (tree_children (c_nodesize c) (rankOf c p))"

section \<open>Children and parents agree\<close>

lemma tree_children_upt: "tree_children bound n = [4 * n + 1..<min (4 * n + 5) bound]"
proof -
  have "map (\<lambda>i. n * CST_W + i + 1) [0..<CST_W] = [4 * n + 1..<4 * n + 5]"
    by (rule nth_equalityI) (auto simp: CST_W_def)
  then show ?thesis by (simp add: tree_children_def filter_upt)
qed

lemma tree_children_iff: "k \<in> set (tree_children bound n) \<longleftrightarrow> k < bound \<and> k \<noteq> 0 \<and> (k - 1) div 4 = n"
  by (auto simp: tree_children_upt)

lemma tree_children_length: "length (tree_children bound n) = num_children bound n"
  by (auto simp: tree_children_upt num_children_def CST_W_def min_def)

lemma tree_children_distinct: "distinct (tree_children bound n)"
  by (simp add: tree_children_upt)

lemma nodeFirst_inj: "0 < c_nodesize c \<Longrightarrow> nodeFirst c a = nodeFirst c b \<longleftrightarrow> a = b"
  by (simp add: nodeFirst_def)

lemma pe_eq_iff:
  assumes "0 < c_nodesize c" "r < c_nodesize c"
  shows "q = nodeFirst c n + r \<longleftrightarrow> nodeOf c q = n \<and> rankOf c q = r"
proof
  assume "q = nodeFirst c n + r"
  then show "nodeOf c q = n \<and> rankOf c q = r" using assms by (simp add: nodeOf_def rankOf_def nodeFirst_def)
next
  assume "nodeOf c q = n \<and> rankOf c q = r"
  then show "q = nodeFirst c n + r" using pe_number [OF assms(1), of q] by simp
qed

lemma less_numPes_iff: "0 < c_nodesize c \<Longrightarrow> q < numPes c \<longleftrightarrow> nodeOf c q < c_nodes c"
  by (simp add: nodeOf_def numPes_def div_less_iff_less_mult)

lemma span_children_iff:
  assumes "0 < c_nodesize c" "p < numPes c"
  shows "q \<in> set (CmiSpanTreeChildren c p) \<longleftrightarrow> q < numPes c \<and> CmiSpanTreeParent c q = int p"
proof -
  let ?n = "nodeOf c p" and ?r = "rankOf c p" and ?m = "nodeOf c q" and ?s = "rankOf c q"
  have r: "?r < c_nodesize c" "?s < c_nodesize c" using assms(1) by (simp_all add: rankOf_def)
  have p0: "p = nodeFirst c ?n + ?r" "q = nodeFirst c ?m + ?s" using pe_number [OF assms(1)] by simp_all
  have first: "q \<in> nodeFirst c ` set (tree_children (c_nodes c) ?n)
      \<longleftrightarrow> ?s = 0 \<and> ?m < c_nodes c \<and> ?m \<noteq> 0 \<and> (?m - 1) div 4 = ?n"
    using pe_eq_iff [OF assms(1), of 0 q] assms(1) by (auto simp: tree_children_iff image_iff)
  have second: "q \<in> (\<lambda>x. nodeFirst c ?n + x) ` set (tree_children (c_nodesize c) ?r)
      \<longleftrightarrow> ?m = ?n \<and> ?s \<noteq> 0 \<and> (?s - 1) div 4 = ?r"
    using pe_eq_iff [OF assms(1), of _ q ?n] r(2) by (auto simp: tree_children_iff image_iff)
  have lt: "q < numPes c \<longleftrightarrow> ?m < c_nodes c" "?n < c_nodes c"
    using less_numPes_iff [OF assms(1)] assms(2) by simp_all
  show ?thesis
  proof (cases "?s = 0")
    case True
    have "CmiSpanTreeParent c q = int p \<longleftrightarrow> ?m \<noteq> 0 \<and> int (((?m - 1) div 4) * c_nodesize c) = int p"
      using True p0(2) assms(1) by (auto simp: CmiSpanTreeParent_def CmiNodeSpanTreeParent_def CST_W_def nodeFirst_def)
    also have "\<dots> \<longleftrightarrow> ?m \<noteq> 0 \<and> p = nodeFirst c ((?m - 1) div 4) + 0"
      unfolding of_nat_eq_iff by (auto simp: nodeFirst_def)
    also have "\<dots> \<longleftrightarrow> ?m \<noteq> 0 \<and> ?n = (?m - 1) div 4 \<and> ?r = 0"
      using pe_eq_iff [OF assms(1) assms(1)] by simp
    finally show ?thesis using first second True lt by (auto simp: CmiSpanTreeChildren_def)
  next
    case False
    then have rk: "(?s - 1) div 4 < c_nodesize c" using r(2) by (metis diff_le_self div_le_dividend le_less_trans)
    have "CmiSpanTreeParent c q = int p \<longleftrightarrow> p = nodeFirst c ?m + (?s - 1) div 4"
      using False p0(2) by (auto simp: CmiSpanTreeParent_def CST_W_def)
    also have "\<dots> \<longleftrightarrow> ?n = ?m \<and> ?r = (?s - 1) div 4" using pe_eq_iff [OF assms(1) rk] by simp
    finally show ?thesis using first second False lt by (auto simp: CmiSpanTreeChildren_def)
  qed
qed

lemma span_children_distinct:
  assumes "0 < c_nodesize c"
  shows "distinct (CmiSpanTreeChildren c p)"
proof -
  have "nodeFirst c k \<noteq> nodeFirst c (nodeOf c p) + x" if "x \<in> set (tree_children (c_nodesize c) r)" for k x r
    using that pe_eq_iff [OF assms, of x "nodeFirst c k" "nodeOf c p"] by (auto simp: tree_children_iff)
  then show ?thesis
    using tree_children_distinct nodeFirst_inj [OF assms]
    by (auto simp: CmiSpanTreeChildren_def distinct_map inj_on_def)
qed

lemma span_children_length: "length (CmiSpanTreeChildren c p) = CmiNumSpanTreeChildren c p"
  by (simp add: CmiSpanTreeChildren_def CmiNumSpanTreeChildren_def CST_C_def CmiNumNodeSpanTreeChildren_def
      tree_children_length)

lemma span_children_count:
  assumes "0 < c_nodesize c" "p < numPes c"
  shows "card {q. q < numPes c \<and> CmiSpanTreeParent c q = int p} = CmiNumSpanTreeChildren c p"
proof -
  have "{q. q < numPes c \<and> CmiSpanTreeParent c q = int p} = set (CmiSpanTreeChildren c p)"
    using span_children_iff [OF assms] by auto
  then show ?thesis using span_children_distinct [OF assms(1)] span_children_length
    by (simp add: distinct_card)
qed

lemma span_parent_less:
  assumes "0 < c_nodesize c" "q \<noteq> 0"
  shows "\<exists>p < q. CmiSpanTreeParent c q = int p"
proof (cases "rankOf c q = 0")
  case True
  then have q: "q = nodeFirst c (nodeOf c q)" using pe_number [OF assms(1), of q] by simp
  then have n: "nodeOf c q \<noteq> 0" using assms(2) by (metis mult_0 nodeFirst_def)
  then have "(nodeOf c q - 1) div 4 < nodeOf c q" by simp
  then have "nodeFirst c ((nodeOf c q - 1) div 4) < q" using q assms(1) by (metis mult_less_mono1 nodeFirst_def)
  moreover have "CmiSpanTreeParent c q = int (nodeFirst c ((nodeOf c q - 1) div 4))"
    using True assms(2) n by (simp add: CmiSpanTreeParent_def CmiNodeSpanTreeParent_def CST_W_def nodeFirst_def)
  ultimately show ?thesis by blast
next
  case False
  then have "nodeFirst c (nodeOf c q) + (rankOf c q - 1) div 4 < q"
    using pe_number [OF assms(1), of q] by (metis add_less_cancel_left diff_less div_le_dividend le_less_trans
        less_numeral_extra(1) not_gr_zero)
  moreover have "CmiSpanTreeParent c q = int (nodeFirst c (nodeOf c q) + (rankOf c q - 1) div 4)"
    using False assms(2) by (simp add: CmiSpanTreeParent_def CST_W_def)
  ultimately show ?thesis by blast
qed

section \<open>Properties\<close>

text \<open>C22. The macros describe one tree: a PE is listed among the children of \<^verbatim>\<open>p\<close>, without repetition,
  exactly if its parent is \<^verbatim>\<open>p\<close>; their number is the one the count macro gives; only PE 0 has no
  parent, and every other PE's parent has a smaller number.\<close>

theorem span_tree_macros_agree:
  assumes "0 < c_nodesize c" "p < numPes c"
  shows "(\<forall>q. q \<in> set (CmiSpanTreeChildren c p) \<longleftrightarrow> q < numPes c \<and> CmiSpanTreeParent c q = int p)
    \<and> distinct (CmiSpanTreeChildren c p)
    \<and> length (CmiSpanTreeChildren c p) = CmiNumSpanTreeChildren c p
    \<and> (CmiSpanTreeParent c p = - 1 \<longleftrightarrow> p = 0)
    \<and> (p \<noteq> 0 \<longrightarrow> 0 \<le> CmiSpanTreeParent c p \<and> CmiSpanTreeParent c p < int p)"
proof -
  have "CmiSpanTreeParent c 0 = - 1" by (simp add: CmiSpanTreeParent_def)
  moreover have "0 \<le> CmiSpanTreeParent c p \<and> CmiSpanTreeParent c p < int p" if "p \<noteq> 0"
    using span_parent_less [OF assms(1) that] by auto
  ultimately show ?thesis
    using span_children_iff [OF assms] span_children_distinct [OF assms(1)] span_children_length
    by (cases "p = 0") auto
qed

theorem span_tree_macros_agree_witness:
  "length (CmiSpanTreeChildren \<lparr>c_nodes = 7, c_nodesize = 3\<rparr> 0) = 6"
  using span_tree_macros_agree [of "\<lparr>c_nodes = 7, c_nodesize = 3\<rparr>" 0]
  by (simp add: numPes_def CmiNumSpanTreeChildren_def CST_C_def CmiNumNodeSpanTreeChildren_def num_children_def
      CST_W_def rankOf_def nodeOf_def)

end
