(* ===== verification/Reduction.thy ===== *)
theory Reduction
  imports Span_Tree
begin

text \<open>
  The reductions of \<^verbatim>\<open>src/collectives.cpp\<close>: the table of reductions in flight with its two id
  counters, the reductions over all PEs, over a list of PEs and over the nodes.  A PE's (or
  node's) table and counters are its state; an operation returns the new state and its effects,
  a message to the parent or the call of the final handler, or an abort.  The merge function is
  the caller's.  A whole reduction is the relation \<^verbatim>\<open>red_step\<close>: the participants contribute and
  the messages are delivered in any order.
\<close>

section \<open>Reduction ids\<close>

definition CmiMaxReductions :: nat where
  "CmiMaxReductions = 32"

definition CmiReductionID_globalOffset :: u32 where
  "CmiReductionID_globalOffset = 0"

definition CmiReductionID_requestOffset :: u32 where
  "CmiReductionID_requestOffset = 1"

definition CmiReductionID_multiplier :: u32 where
  "CmiReductionID_multiplier = 2"

definition CmiReductionsNumChildren :: nat where
  "CmiReductionsNumChildren = 4"

definition getNextID :: "u32 \<Rightarrow> u32 \<Rightarrow> u32 \<times> u32" where
  "getNextID ctr step = (ctr, ctr + step)"

definition CmiGetReductionIndex :: "u32 \<Rightarrow> nat" where
  "CmiGetReductionIndex i = unat (and i (of_nat CmiMaxReductions - 1))"

section \<open>Tables\<close>

record 'd rmsg =
  rm_handler :: int
  rm_redId :: u32
  rm_data :: 'd

type_synonym 'd merge = "int \<Rightarrow> 'd rmsg \<Rightarrow> 'd rmsg list \<Rightarrow> int \<times> 'd rmsg"

text \<open>The received messages are a list of length \<^verbatim>\<open>messagesReceived\<close> at the start of the array
  \<^verbatim>\<open>remotebuffer\<close>, which has room for \<^verbatim>\<open>red_slots\<close>.\<close>

record 'd reduction =
  ReductionID :: u32
  numChildren :: int
  red_parent :: int
  localContributed :: bool
  localbuffer :: "'d rmsg option"
  localbufferSize :: int
  remotebuffer :: "'d rmsg list"
  red_slots :: nat
  desthandler :: "int option"
  mergefn :: "'d merge option"

record 'd red_state =
  reduction_info :: "'d reduction option list"
  reduction_counter :: u32
  reduction_request_counter :: u32

datatype red_error =
    TooManyReductions u32 u32
  | NotInList nat
  | TooManyContributions
  | BufferOverrun
  | NullBuffer

datatype 'd red_effect =
    SendReduce int int "'d rmsg"
  | RunHandler int "'d rmsg"

definition CmiReductionsInit :: "'d red_state" where
  "CmiReductionsInit = \<lparr>reduction_info = replicate CmiMaxReductions None,
     reduction_counter = CmiReductionID_globalOffset,
     reduction_request_counter = CmiReductionID_requestOffset\<rparr>"

definition CmiSetRedID :: "'d rmsg \<Rightarrow> u32 \<Rightarrow> 'd rmsg" where
  "CmiSetRedID m i = m\<lparr>rm_redId := i\<rparr>"

definition CmiGetRedID :: "'d rmsg \<Rightarrow> u32" where
  "CmiGetRedID m = rm_redId m"

definition slot :: "u32 \<Rightarrow> 'd red_state \<Rightarrow> 'd reduction option" where
  "slot i st = reduction_info st ! CmiGetReductionIndex i"

definition set_slot :: "u32 \<Rightarrow> 'd reduction option \<Rightarrow> 'd red_state \<Rightarrow> 'd red_state" where
  "set_slot i r st = st\<lparr>reduction_info := (reduction_info st)[CmiGetReductionIndex i := r]\<rparr>"

definition CmiCheckReductionSlot :: "'d reduction option \<Rightarrow> u32 \<Rightarrow> red_error option" where
  "CmiCheckReductionSlot red i =
     (case red of
        None \<Rightarrow> None
      | Some r \<Rightarrow> if ReductionID r \<noteq> i then Some (TooManyReductions i (ReductionID r)) else None)"

definition CmiClearReduction :: "u32 \<Rightarrow> 'd red_state \<Rightarrow> 'd red_state" where
  "CmiClearReduction i st = set_slot i None st"

definition CmiGetNextReductionID :: "'d red_state \<Rightarrow> u32 \<times> 'd red_state" where
  "CmiGetNextReductionID st =
     (let (old, ctr) = getNextID (reduction_counter st) CmiReductionID_multiplier
      in (old, st\<lparr>reduction_counter := ctr\<rparr>))"

definition CmiGetGlobalReduction :: "'d red_state \<Rightarrow> u32 \<times> 'd red_state" where
  "CmiGetGlobalReduction st =
     (let (old, ctr) = getNextID (reduction_request_counter st) CmiReductionID_multiplier
      in (old, st\<lparr>reduction_request_counter := ctr\<rparr>))"

definition CmiResetGlobalReduceSeqID :: "'d red_state \<Rightarrow> 'd red_state" where
  "CmiResetGlobalReduceSeqID st = st\<lparr>reduction_counter := CmiReductionID_globalOffset\<rparr>"

definition new_reduction :: "u32 \<Rightarrow> int \<Rightarrow> int \<Rightarrow> nat \<Rightarrow> 'd reduction" where
  "new_reduction i kids par room =
     \<lparr>ReductionID = i, numChildren = kids, red_parent = par, localContributed = False,
      localbuffer = None, localbufferSize = 0, remotebuffer = [], red_slots = room,
      desthandler = None, mergefn = None\<rparr>"

definition CmiGetCreateReduction ::
  "cluster \<Rightarrow> nat \<Rightarrow> u32 \<Rightarrow> 'd red_state \<Rightarrow> red_error + 'd reduction \<times> 'd red_state" where
  "CmiGetCreateReduction c mype i st =
     (case CmiCheckReductionSlot (slot i st) i of
        Some e \<Rightarrow> Inl e
      | None \<Rightarrow>
          (case slot i st of
             Some red \<Rightarrow> Inr (red, st)
           | None \<Rightarrow>
               let kids = CmiNumSpanTreeChildren c mype;
                   room = (if kids > CmiReductionsNumChildren then kids else CmiReductionsNumChildren);
                   red = new_reduction i (int kids) (CmiSpanTreeParent c mype) room
               in Inr (red, set_slot i (Some red) st)))"

section \<open>Contributing and receiving\<close>

text \<open>\<^verbatim>\<open>CmiSendReduce\<close> and \<^verbatim>\<open>CmiSendNodeReduce\<close> differ in the handler of the message to the parent; the
  record passed in is the one of the table.\<close>

definition CmiSendReduce ::
  "int \<Rightarrow> 'd reduction \<Rightarrow> 'd red_state \<Rightarrow> red_error + 'd red_effect list \<times> 'd red_state" where
  "CmiSendReduce reduceHandler red st =
     (if \<not> localContributed red \<or> numChildren red \<noteq> int (length (remotebuffer red)) then Inr ([], st)
      else case (localbuffer red, desthandler red, mergefn red) of
        (Some l, Some h, Some f) \<Rightarrow>
          let (msg_size, merged) = (if numChildren red > 0
                then f (localbufferSize red) l (remotebuffer red) else (localbufferSize red, l));
              st' = CmiClearReduction (ReductionID red) st
          in if red_parent red \<noteq> - 1
             then Inr ([SendReduce (red_parent red) msg_size
                          (CmiSetRedID (merged\<lparr>rm_handler := reduceHandler\<rparr>) (ReductionID red))], st')
             else Inr ([RunHandler h merged], st')
      | _ \<Rightarrow> Inl NullBuffer)"

definition CmiInternalReduce ::
  "int \<Rightarrow> 'd rmsg \<Rightarrow> int \<Rightarrow> 'd merge \<Rightarrow> 'd reduction \<Rightarrow> 'd red_state
     \<Rightarrow> red_error + 'd red_effect list \<times> 'd red_state" where
  "CmiInternalReduce reduceHandler msg sz mergeFn red st =
     (let red' = red\<lparr>localContributed := True, localbuffer := Some msg, localbufferSize := sz,
                     desthandler := Some (rm_handler msg), mergefn := Some mergeFn\<rparr>
      in CmiSendReduce reduceHandler red' (set_slot (ReductionID red) (Some red') st))"

definition CmiReduce ::
  "cluster \<Rightarrow> int \<Rightarrow> nat \<Rightarrow> 'd rmsg \<Rightarrow> int \<Rightarrow> 'd merge \<Rightarrow> 'd red_state
     \<Rightarrow> red_error + 'd red_effect list \<times> 'd red_state" where
  "CmiReduce c reduceHandler mype msg sz mergeFn st =
     (let (i, st1) = CmiGetNextReductionID st
      in case CmiGetCreateReduction c mype i st1 of
           Inl e \<Rightarrow> Inl e
         | Inr (red, st2) \<Rightarrow> CmiInternalReduce reduceHandler msg sz mergeFn red st2)"

fun position :: "nat list \<Rightarrow> nat \<Rightarrow> nat" where
  "position [] x = 0"
| "position (y # ys) x = (if y = x then 0 else Suc (position ys x))"

definition list_children :: "nat \<Rightarrow> nat \<Rightarrow> int" where
  "list_children npes myPos =
     (let n = int npes - int myPos * 4 - 1;
          n1 = (if n > int CmiReductionsNumChildren then int CmiReductionsNumChildren else n)
      in if n1 < 0 then 0 else n1)"

definition list_parent :: "nat list \<Rightarrow> nat \<Rightarrow> int" where
  "list_parent pes myPos = (if myPos = 0 then - 1 else int (pes ! ((myPos - 1) div 4)))"

definition CmiListReduce ::
  "cluster \<Rightarrow> int \<Rightarrow> nat \<Rightarrow> nat list \<Rightarrow> 'd rmsg \<Rightarrow> int \<Rightarrow> 'd merge \<Rightarrow> u32 \<Rightarrow> 'd red_state
     \<Rightarrow> red_error + 'd red_effect list \<times> 'd red_state" where
  "CmiListReduce c reduceHandler mype pes msg sz mergeFn i st =
     (case CmiGetCreateReduction c mype i st of
        Inl e \<Rightarrow> Inl e
      | Inr (red, st1) \<Rightarrow>
          let myPos = position pes mype in
          if myPos = length pes then Inl (NotInList mype)
          else CmiInternalReduce reduceHandler msg sz mergeFn
                 (red\<lparr>numChildren := list_children (length pes) myPos, red_parent := list_parent pes myPos\<rparr>) st1)"

definition CmiReduceHandler ::
  "cluster \<Rightarrow> int \<Rightarrow> nat \<Rightarrow> 'd rmsg \<Rightarrow> 'd red_state \<Rightarrow> red_error + 'd red_effect list \<times> 'd red_state" where
  "CmiReduceHandler c reduceHandler mype msg st =
     (case CmiGetCreateReduction c mype (CmiGetRedID msg) st of
        Inl e \<Rightarrow> Inl e
      | Inr (red, st1) \<Rightarrow>
          if length (remotebuffer red) \<ge> red_slots red then Inl BufferOverrun
          else let red' = red\<lparr>remotebuffer := remotebuffer red @ [msg]\<rparr>
               in CmiSendReduce reduceHandler red' (set_slot (ReductionID red) (Some red') st1))"

section \<open>Reductions over the nodes\<close>

text \<open>The node operations run under the lock of the slot, so each is one step.\<close>

definition CmiGetNextNodeReductionID :: "'d red_state \<Rightarrow> u32 \<times> 'd red_state" where
  "CmiGetNextNodeReductionID st =
     (let (old, ctr) = getNextID (reduction_counter st) 1 in (old, st\<lparr>reduction_counter := ctr\<rparr>))"

definition CmiGetCreateNodeReduction ::
  "cluster \<Rightarrow> nat \<Rightarrow> u32 \<Rightarrow> 'd red_state \<Rightarrow> red_error + 'd reduction \<times> 'd red_state" where
  "CmiGetCreateNodeReduction c mynode i st =
     (case CmiCheckReductionSlot (slot i st) i of
        Some e \<Rightarrow> Inl e
      | None \<Rightarrow>
          (case slot i st of
             Some red \<Rightarrow> Inr (red, st)
           | None \<Rightarrow>
               let kids = CmiNumNodeSpanTreeChildren c mynode;
                   red = new_reduction i (int kids) (CmiNodeSpanTreeParent mynode) kids
               in Inr (red, set_slot i (Some red) st)))"

definition CmiSendNodeReduce ::
  "int \<Rightarrow> 'd reduction \<Rightarrow> 'd red_state \<Rightarrow> red_error + 'd red_effect list \<times> 'd red_state" where
  "CmiSendNodeReduce nodeReduceHandler red st = CmiSendReduce nodeReduceHandler red st"

definition CmiInternalNodeReduce ::
  "int \<Rightarrow> 'd rmsg \<Rightarrow> int \<Rightarrow> 'd merge \<Rightarrow> 'd reduction \<Rightarrow> 'd red_state
     \<Rightarrow> red_error + 'd red_effect list \<times> 'd red_state" where
  "CmiInternalNodeReduce nodeReduceHandler msg sz mergeFn red st =
     CmiInternalReduce nodeReduceHandler msg sz mergeFn red st"

definition CmiNodeReduce ::
  "cluster \<Rightarrow> int \<Rightarrow> nat \<Rightarrow> 'd rmsg \<Rightarrow> int \<Rightarrow> 'd merge \<Rightarrow> 'd red_state
     \<Rightarrow> red_error + 'd red_effect list \<times> 'd red_state" where
  "CmiNodeReduce c nodeReduceHandler mynode msg sz mergeFn st =
     (let (i, st1) = CmiGetNextNodeReductionID st
      in case CmiGetCreateNodeReduction c mynode i st1 of
           Inl e \<Rightarrow> Inl e
         | Inr (red, st2) \<Rightarrow> CmiInternalNodeReduce nodeReduceHandler msg sz mergeFn red st2)"

definition CmiNodeReduceHandler ::
  "cluster \<Rightarrow> int \<Rightarrow> nat \<Rightarrow> 'd rmsg \<Rightarrow> 'd red_state \<Rightarrow> red_error + 'd red_effect list \<times> 'd red_state" where
  "CmiNodeReduceHandler c nodeReduceHandler mynode msg st =
     (case CmiGetCreateNodeReduction c mynode (CmiGetRedID msg) st of
        Inl e \<Rightarrow> Inl e
      | Inr (red, st1) \<Rightarrow>
          if int (length (remotebuffer red)) \<ge> numChildren red then Inl TooManyContributions
          else let red' = red\<lparr>remotebuffer := remotebuffer red @ [msg]\<rparr>
               in CmiSendNodeReduce nodeReduceHandler red' (set_slot (ReductionID red) (Some red') st1))"

section \<open>A reduction in any order\<close>

record ('s, 'd) red_sys =
  members :: "nat \<Rightarrow> 's"
  net :: "(nat \<times> 'd rmsg) multiset"
  contributed :: "nat set"
  results :: "'d rmsg list"

fun apply_effect :: "'d red_effect \<Rightarrow> ('s, 'd) red_sys \<Rightarrow> ('s, 'd) red_sys" where
  "apply_effect (SendReduce dest sz m) s = s\<lparr>net := add_mset (nat dest, m) (net s)\<rparr>"
| "apply_effect (RunHandler h m) s = s\<lparr>results := results s @ [m]\<rparr>"

inductive red_step for contrib and recv and P where
  contribute: "p \<in> P \<Longrightarrow> p \<notin> contributed s \<Longrightarrow> contrib p (members s p) = (Inr (out, t) :: red_error + _) \<Longrightarrow>
    red_step contrib recv P s (fold apply_effect out
      (s\<lparr>members := (members s)(p := t), contributed := insert p (contributed s)\<rparr>))"
| receive: "(p, m) \<in># net s \<Longrightarrow> recv p m (members s p) = (Inr (out, t) :: red_error + _) \<Longrightarrow>
    red_step contrib recv P s (fold apply_effect out
      (s\<lparr>members := (members s)(p := t), net := net s - {#(p, m)#}\<rparr>))"

section \<open>The protocol\<close>

definition final_effect :: "int \<Rightarrow> 'd red_effect \<Rightarrow> 'd rmsg \<Rightarrow> bool" where
  "final_effect par e m \<longleftrightarrow> (if par = - 1 then \<exists>h. e = RunHandler h m else \<exists>sz. e = SendReduce par sz m)"

definition weight :: "('d rmsg \<Rightarrow> 'v :: comm_monoid_add) \<Rightarrow> ('s \<Rightarrow> 'd rmsg list) \<Rightarrow> ('s \<Rightarrow> 'd rmsg option) \<Rightarrow> 's \<Rightarrow> 'v" where
  "weight val got own s = (case own s of None \<Rightarrow> 0 | Some l \<Rightarrow> val l) + sum_list (map val (got s))"

text \<open>What the participants of one reduction promise: each keeps the messages it has got and its own
  contribution until it has both its own and one from every child, then sends the merged message
  up or, at the root, runs the handler.  \<^verbatim>\<open>val\<close> is any quantity that the merge function adds up.\<close>

locale reduction_protocol =
  fixes P :: "nat set" and root :: nat and par :: "nat \<Rightarrow> int" and kids :: "nat \<Rightarrow> nat"
    and depth :: "nat \<Rightarrow> nat"
    and ok :: "nat \<Rightarrow> bool \<Rightarrow> 's \<Rightarrow> bool" and got :: "'s \<Rightarrow> 'd rmsg list" and own :: "'s \<Rightarrow> 'd rmsg option"
    and okm :: "'d rmsg \<Rightarrow> bool" and val :: "'d rmsg \<Rightarrow> 'v :: comm_monoid_add" and input :: "nat \<Rightarrow> 'd rmsg"
    and contrib :: "nat \<Rightarrow> 's \<Rightarrow> red_error + 'd red_effect list \<times> 's"
    and recv :: "nat \<Rightarrow> 'd rmsg \<Rightarrow> 's \<Rightarrow> red_error + 'd red_effect list \<times> 's"
  assumes finite_P: "finite P" and root_in: "root \<in> P"
    and par_root: "p \<in> P \<Longrightarrow> par p = - 1 \<longleftrightarrow> p = root"
    and par_in: "p \<in> P \<Longrightarrow> p \<noteq> root \<Longrightarrow> 0 \<le> par p \<and> nat (par p) \<in> P \<and> depth (nat (par p)) < depth p"
    and kids_count: "p \<in> P \<Longrightarrow> card {q \<in> P. par q = int p} = kids p"
    and ok_own: "ok p b s \<Longrightarrow> own s \<noteq> None \<longleftrightarrow> b"
    and contrib_waits: "p \<in> P \<Longrightarrow> ok p False s \<Longrightarrow> length (got s) < kids p \<Longrightarrow>
      \<exists>t. contrib p s = Inr ([], t) \<and> ok p True t \<and> got t = got s \<and> own t = Some (input p)"
    and contrib_ends: "p \<in> P \<Longrightarrow> ok p False s \<Longrightarrow> length (got s) = kids p \<Longrightarrow>
      \<exists>t e m. contrib p s = Inr ([e], t) \<and> final_effect (par p) e m
        \<and> val m = val (input p) + sum_list (map val (got s)) \<and> (par p \<noteq> - 1 \<longrightarrow> okm m)"
    and recv_waits: "p \<in> P \<Longrightarrow> ok p b s \<Longrightarrow> okm m \<Longrightarrow> length (got s) < kids p \<Longrightarrow>
      \<not> (b \<and> Suc (length (got s)) = kids p) \<Longrightarrow>
      \<exists>t. recv p m s = Inr ([], t) \<and> ok p b t \<and> got t = got s @ [m] \<and> own t = own s"
    and recv_ends: "p \<in> P \<Longrightarrow> ok p True s \<Longrightarrow> okm m \<Longrightarrow> own s = Some l \<Longrightarrow> Suc (length (got s)) = kids p \<Longrightarrow>
      \<exists>t e m'. recv p m s = Inr ([e], t) \<and> final_effect (par p) e m'
        \<and> val m' = val l + sum_list (map val (got s @ [m])) \<and> (par p \<noteq> - 1 \<longrightarrow> okm m')"
begin

definition arrived :: "nat set \<Rightarrow> ('s, 'd) red_sys \<Rightarrow> nat \<Rightarrow> nat" where
  "arrived sent s p = size (filter_mset (\<lambda>x. fst x = p) (net s))
     + (if p \<in> sent then kids p else length (got (members s p)))"

definition waiting :: "('s, 'd) red_sys \<Rightarrow> nat \<Rightarrow> bool" where
  "waiting s p \<longleftrightarrow> ok p (p \<in> contributed s) (members s p)
     \<and> \<not> (p \<in> contributed s \<and> length (got (members s p)) = kids p)"

definition account :: "nat set \<Rightarrow> ('s, 'd) red_sys \<Rightarrow> 'v" where
  "account sent s = (\<Sum>x\<in>#net s. val (snd x)) + (\<Sum>p\<in>P - sent. weight val got own (members s p))
     + sum_list (map val (results s))"

definition inv :: "nat \<Rightarrow> nat set \<Rightarrow> ('s, 'd) red_sys \<Rightarrow> bool" where
  "inv n sent s \<longleftrightarrow>
     sent \<subseteq> contributed s \<and> contributed s \<subseteq> P
     \<and> (\<forall>p \<in> P - sent. waiting s p)
     \<and> (\<forall>p \<in> P. arrived sent s p = card {q \<in> sent. par q = int p})
     \<and> (\<forall>x \<in># net s. fst x \<in> P \<and> okm (snd x))
     \<and> length (results s) = (if root \<in> sent then 1 else 0)
     \<and> account sent s = (\<Sum>p\<in>contributed s. val (input p))
     \<and> n + size (net s) + length (results s) = card (contributed s) + card sent"

lemma got_bound:
  assumes "inv n sent s" "p \<in> P" "p \<notin> sent"
  shows "length (got (members s p)) + size (filter_mset (\<lambda>x. fst x = p) (net s)) \<le> kids p"
proof -
  have sub: "{q \<in> sent. par q = int p} \<subseteq> {q \<in> P. par q = int p}" using assms(1) by (auto simp: inv_def)
  have "card {q \<in> sent. par q = int p} \<le> kids p"
    using card_mono [OF _ sub] finite_P kids_count [OF assms(2)] by simp
  moreover have "arrived sent s p = card {q \<in> sent. par q = int p}" using assms(1,2) by (auto simp: inv_def)
  ultimately show ?thesis using assms(3) by (simp add: arrived_def)
qed

lemma in_flight_waits:
  assumes "inv n sent s" "(p, m) \<in># net s"
  shows "p \<in> P \<and> p \<notin> sent \<and> okm m \<and> length (got (members s p)) < kids p"
proof -
  have p: "p \<in> P" "okm m" using assms by (auto simp: inv_def)
  have pos: "0 < size (filter_mset (\<lambda>x. fst x = p) (net s))"
    using assms(2) by (metis (mono_tags, lifting) count_greater_zero_iff count_filter_mset fst_conv
        nonempty_has_size not_gr_zero count_empty)
  have "p \<notin> sent"
  proof
    assume "p \<in> sent"
    have sub: "{q \<in> sent. par q = int p} \<subseteq> {q \<in> P. par q = int p}" using assms(1) by (auto simp: inv_def)
    have "card {q \<in> sent. par q = int p} \<le> kids p"
      using card_mono [OF _ sub] finite_P kids_count [OF p(1)] by simp
    moreover have "arrived sent s p = card {q \<in> sent. par q = int p}" using assms(1) p by (auto simp: inv_def)
    ultimately show False using \<open>p \<in> sent\<close> pos by (simp add: arrived_def)
  qed
  then show ?thesis using p pos got_bound [OF assms(1)] by fastforce
qed

lemma sent_finite: "inv n sent s \<Longrightarrow> finite sent \<and> finite (contributed s)"
  using finite_P by (auto simp: inv_def dest: finite_subset)

lemma rest_sum:
  assumes "p \<in> P" "p \<notin> sent"
  shows "(\<Sum>q\<in>P - sent. weight val got own (f q))
       = weight val got own (f p) + (\<Sum>q\<in>P - insert p sent. weight val got own ((f(p := t)) q))"
proof -
  have "(\<Sum>q\<in>P - sent. weight val got own (f q))
      = weight val got own (f p) + (\<Sum>q\<in>P - sent - {p}. weight val got own (f q))"
    using assms finite_P by (intro sum.remove) auto
  moreover have "(\<Sum>q\<in>P - sent - {p}. weight val got own (f q))
      = (\<Sum>q\<in>P - insert p sent. weight val got own ((f(p := t)) q))"
    by (rule sum.cong) auto
  ultimately show ?thesis by simp
qed

lemma card_sent_insert:
  assumes "finite sent" "p \<notin> sent"
  shows "card {q \<in> insert p sent. par q = int r} = card {q \<in> sent. par q = int r} + (if par p = int r then 1 else 0)"
proof -
  have "{q \<in> insert p sent. par q = int r} = (if par p = int r then insert p {q \<in> sent. par q = int r}
      else {q \<in> sent. par q = int r})" by auto
  then show ?thesis using assms by simp
qed

text \<open>A participant that is done: \<^verbatim>\<open>s\<close> is the state after its own step, before the effect.\<close>

lemma finish_step:
  assumes p: "p \<in> P" "p \<notin> sent" "finite sent"
    and sub: "insert p sent \<subseteq> contributed s" "contributed s \<subseteq> P"
    and wait: "\<forall>q \<in> P - insert p sent. waiting s q"
    and arr: "\<forall>r \<in> P. arrived (insert p sent) s r = card {q \<in> sent. par q = int r}"
    and net: "\<forall>x \<in># net s. fst x \<in> P \<and> okm (snd x)"
    and res: "length (results s) = (if root \<in> sent then 1 else 0)"
    and acc: "account (insert p sent) s + val m = (\<Sum>p\<in>contributed s. val (input p))"
    and n: "n + size (net s) + length (results s) + 1 = card (contributed s) + card (insert p sent)"
    and e: "final_effect (par p) e m" "par p \<noteq> - 1 \<longrightarrow> okm m"
  shows "inv n (insert p sent) (apply_effect e s)"
proof (cases "p = root")
  case True
  then obtain h where e': "e = RunHandler h m" using e par_root [OF p(1)] by (auto simp: final_effect_def)
  have par: "par p = - 1" using True par_root [OF p(1)] by simp
  have "card {q \<in> insert p sent. par q = int r} = card {q \<in> sent. par q = int r}" for r
    using card_sent_insert [OF p(3,2)] par by simp
  then show ?thesis
    using sub wait arr net res acc n p True
    by (auto simp: inv_def e' arrived_def waiting_def account_def add.assoc)
next
  case False
  then obtain sz where e': "e = SendReduce (par p) sz m" using e par_root [OF p(1)] by (auto simp: final_effect_def)
  have q: "0 \<le> par p" "nat (par p) \<in> P" "okm m" "par p \<noteq> - 1"
    using par_in [OF p(1) False] e(2) par_root [OF p(1)] False by auto
  have "arrived (insert p sent) (apply_effect e s) r = card {q \<in> insert p sent. par q = int r}" if "r \<in> P" for r
    using arr that card_sent_insert [OF p(3,2), of r] q(1) by (auto simp: e' arrived_def)
  then show ?thesis
    using sub wait net res acc n p False q
    by (auto simp: inv_def e' waiting_def account_def ac_simps)
qed

lemma contribute_inv:
  assumes i: "inv n sent s" and p: "p \<in> P" "p \<notin> contributed s"
  shows "\<exists>out t sent'. contrib p (members s p) = Inr (out, t)
    \<and> inv (Suc n) sent' (fold apply_effect out
        (s\<lparr>members := (members s)(p := t), contributed := insert p (contributed s)\<rparr>))"
proof -
  have fin: "finite sent" "finite (contributed s)" using sent_finite [OF i] by auto
  have ns: "p \<notin> sent" using i p by (auto simp: inv_def)
  have "waiting s p" using i p ns unfolding inv_def by blast
  then have w: "ok p False (members s p)" using p(2) by (simp add: waiting_def)
  then have none: "own (members s p) = None" using ok_own [OF w] by simp
  have acc: "account sent s = (\<Sum>p\<in>contributed s. val (input p))" using i by (simp add: inv_def)
  have csum: "(\<Sum>q\<in>insert p (contributed s). val (input q)) = val (input p) + (\<Sum>p\<in>contributed s. val (input p))"
    using fin p by simp
  have le: "length (got (members s p)) \<le> kids p" using got_bound [OF i p(1) ns] by simp
  show ?thesis
  proof (cases "length (got (members s p)) = kids p")
    case True
    obtain t e m where c: "contrib p (members s p) = Inr ([e], t)" "final_effect (par p) e m"
        "val m = val (input p) + sum_list (map val (got (members s p)))" "par p \<noteq> - 1 \<longrightarrow> okm m"
      using contrib_ends [OF p(1) w True] by blast
    let ?s = "s\<lparr>members := (members s)(p := t), contributed := insert p (contributed s)\<rparr>"
    have "inv (Suc n) (insert p sent) (apply_effect e ?s)"
    proof (rule finish_step [OF p(1) ns fin(1) _ _ _ _ _ _ _ _ c(2,4)])
      show "\<forall>r\<in>P. arrived (insert p sent) ?s r = card {q \<in> sent. par q = int r}"
        using i ns True by (auto simp: inv_def arrived_def)
      show "account (insert p sent) ?s + val m = (\<Sum>p\<in>contributed ?s. val (input p))"
        using acc csum none c(3) rest_sum [OF p(1) ns, of "members s" t]
        by (simp add: account_def weight_def ac_simps)
    qed (use i p ns fin in \<open>auto simp: inv_def waiting_def\<close>)
    then show ?thesis using c(1) by force
  next
    case False
    then obtain t where c: "contrib p (members s p) = Inr ([], t)" "ok p True t" "got t = got (members s p)" "own t = Some (input p)"
      using contrib_waits [OF p(1) w] le by auto
    let ?s = "s\<lparr>members := (members s)(p := t), contributed := insert p (contributed s)\<rparr>"
    have "account sent ?s = (\<Sum>p\<in>contributed ?s. val (input p))"
      using acc csum none c(3,4) rest_sum [OF p(1) ns, of "members s" t] rest_sum [OF p(1) ns, of "(members s)(p := t)" t]
      by (simp add: account_def weight_def ac_simps)
    then have "inv (Suc n) sent ?s"
      using i p ns fin c False by (auto simp: inv_def waiting_def arrived_def)
    then show ?thesis using c(1) by force
  qed
qed

lemma receive_inv:
  assumes i: "inv n sent s" and pm: "(p, m) \<in># net s"
  shows "\<exists>out t sent'. recv p m (members s p) = Inr (out, t)
    \<and> inv (Suc n) sent' (fold apply_effect out
        (s\<lparr>members := (members s)(p := t), net := net s - {#(p, m)#}\<rparr>))"
proof -
  have fin: "finite sent" "finite (contributed s)" using sent_finite [OF i] by auto
  have p: "p \<in> P" "p \<notin> sent" "okm m" "length (got (members s p)) < kids p" using in_flight_waits [OF i pm] by auto
  have w: "ok p (p \<in> contributed s) (members s p)" using i p by (auto simp: inv_def waiting_def)
  have acc: "account sent s = (\<Sum>p\<in>contributed s. val (input p))" using i by (simp add: inv_def)
  obtain N where N: "net s = add_mset (p, m) N" using pm by (meson multi_member_split)
  show ?thesis
  proof (cases "p \<in> contributed s \<and> Suc (length (got (members s p))) = kids p")
    case True
    then obtain l where l: "own (members s p) = Some l" using ok_own [OF w] by auto
    obtain t e m' where c: "recv p m (members s p) = Inr ([e], t)" "final_effect (par p) e m'"
        "val m' = val l + sum_list (map val (got (members s p) @ [m]))" "par p \<noteq> - 1 \<longrightarrow> okm m'"
      using recv_ends [OF p(1) _ p(3) l] w True by auto
    let ?s = "s\<lparr>members := (members s)(p := t), net := N\<rparr>"
    have "inv (Suc n) (insert p sent) (apply_effect e ?s)"
    proof (rule finish_step [OF p(1,2) fin(1) _ _ _ _ _ _ _ _ c(2,4)])
      show "\<forall>r\<in>P. arrived (insert p sent) ?s r = card {q \<in> sent. par q = int r}"
      proof
        fix r assume "r \<in> P"
        then have "arrived sent s r = card {q \<in> sent. par q = int r}" using i unfolding inv_def by blast
        then show "arrived (insert p sent) ?s r = card {q \<in> sent. par q = int r}"
          using p(2) True N by (cases "r = p") (auto simp: arrived_def)
      qed
      show "account (insert p sent) ?s + val m' = (\<Sum>p\<in>contributed ?s. val (input p))"
        using acc l c(3) rest_sum [OF p(1,2), of "members s" t] N
        by (simp add: account_def weight_def ac_simps)
    qed (use i p True fin N in \<open>auto simp: inv_def waiting_def\<close>)
    then show ?thesis using c(1) N by force
  next
    case False
    then obtain t where c: "recv p m (members s p) = Inr ([], t)" "ok p (p \<in> contributed s) t"
        "got t = got (members s p) @ [m]" "own t = own (members s p)"
      using recv_waits [OF p(1) w p(3,4)] by auto
    let ?s = "s\<lparr>members := (members s)(p := t), net := N\<rparr>"
    have "account sent ?s = (\<Sum>p\<in>contributed ?s. val (input p))"
      using acc c(3,4) rest_sum [OF p(1,2), of "members s" t] rest_sum [OF p(1,2), of "(members s)(p := t)" t] N
      by (simp add: account_def weight_def ac_simps)
    then have "inv (Suc n) sent ?s"
      using i p fin c False N by (auto simp: inv_def waiting_def arrived_def)
    then show ?thesis using c(1) N by force
  qed
qed

lemma step_inv:
  assumes "inv n sent s" "red_step contrib recv P s s'"
  shows "\<exists>sent'. inv (Suc n) sent' s'"
  using assms(2)
proof cases
  case (contribute p out t)
  then show ?thesis using contribute_inv [OF assms(1), of p] by auto
next
  case (receive p m out t)
  then show ?thesis using receive_inv [OF assms(1), of p m] by auto
qed

lemma run_inv:
  assumes "(red_step contrib recv P ^^ n) s0 s" and "inv 0 {} s0"
  shows "\<exists>sent. inv n sent s"
  using assms(1)
proof (induction n arbitrary: s)
  case 0
  then show ?case using assms(2) by auto
next
  case (Suc n)
  then show ?case using step_inv by (metis relpowp_Suc_E)
qed

lemma start_inv:
  assumes "net s0 = {#}" "contributed s0 = {}" "results s0 = []"
    and "\<forall>p \<in> P. ok p False (members s0 p) \<and> got (members s0 p) = []"
  shows "inv 0 {} s0"
proof -
  have "weight val got own (members s0 p) = 0" if "p \<in> P" for p
    using assms(4) that ok_own [of p False "members s0 p"] by (simp add: weight_def)
  then have "account {} s0 = 0" using assms by (simp add: account_def)
  then show ?thesis using assms by (auto simp: inv_def waiting_def arrived_def)
qed

lemma all_sent:
  assumes i: "inv n sent s" and "contributed s = P" "net s = {#}"
  shows "sent = P"
proof (rule ccontr)
  assume "sent \<noteq> P"
  then have "P - sent \<noteq> {}" using i by (auto simp: inv_def)
  then obtain p where p: "p \<in> P - sent" and deep: "\<And>q. q \<in> P - sent \<Longrightarrow> depth q \<le> depth p"
    using finite_P by (metis finite_Diff finite_imageI image_eqI Max_ge Max_in obtains_MAX)
  have "{q \<in> sent. par q = int p} = {q \<in> P. par q = int p}"
  proof (intro equalityI subsetI)
    fix q assume "q \<in> {q \<in> P. par q = int p}"
    then have q: "q \<in> P" "par q = int p" by auto
    then have "q \<noteq> root" using par_root by fastforce
    then have "depth p < depth q" using par_in [OF q(1)] q(2) by simp
    then have "q \<in> sent" using deep [of q] q(1) by auto
    then show "q \<in> {q \<in> sent. par q = int p}" using q by simp
  qed (use i in \<open>auto simp: inv_def\<close>)
  then have "arrived sent s p = kids p" using i p kids_count by (auto simp: inv_def)
  moreover have "waiting s p" using i p unfolding inv_def by blast
  ultimately show False using p assms(2,3) by (auto simp: arrived_def waiting_def)
qed

lemma reduction_complete:
  assumes "(red_step contrib recv P ^^ n) s0 s"
    and "net s0 = {#}" "contributed s0 = {}" "results s0 = []"
    and "\<forall>p \<in> P. ok p False (members s0 p) \<and> got (members s0 p) = []"
  shows "n \<le> 2 * card P \<and> length (results s) \<le> 1
    \<and> (\<forall>p \<in> P. p \<notin> contributed s \<longrightarrow> (\<exists>x. contrib p (members s p) = Inr x))
    \<and> (\<forall>x \<in># net s. \<exists>y. recv (fst x) (snd x) (members s (fst x)) = Inr y)
    \<and> (contributed s = P \<and> net s = {#} \<longrightarrow>
         (\<exists>r. results s = [r] \<and> val r = (\<Sum>p\<in>P. val (input p))))"
proof -
  obtain sent where i: "inv n sent s" using run_inv [OF assms(1) start_inv [OF assms(2-5)]] by blast
  have sub: "sent \<subseteq> P" "contributed s \<subseteq> P" using i by (auto simp: inv_def)
  then have "card sent \<le> card P" "card (contributed s) \<le> card P" using finite_P by (auto intro: card_mono)
  then have n: "n \<le> 2 * card P" using i by (simp add: inv_def)
  have "\<exists>r. results s = [r] \<and> val r = (\<Sum>p\<in>P. val (input p))" if "contributed s = P" "net s = {#}"
  proof -
    have "sent = P" using all_sent [OF i that] .
    then have "length (results s) = 1" "account P s = (\<Sum>p\<in>P. val (input p))"
      using i root_in that(1) by (auto simp: inv_def)
    then show ?thesis using that(2) by (auto simp: account_def length_Suc_conv)
  qed
  moreover have "length (results s) \<le> 1" using i by (simp add: inv_def)
  moreover have "\<exists>x. contrib p (members s p) = Inr x" if "p \<in> P" "p \<notin> contributed s" for p
    using contribute_inv [OF i that] by blast
  moreover have "\<exists>y. recv (fst x) (snd x) (members s (fst x)) = Inr y" if "x \<in># net s" for x
    using receive_inv [OF i, of "fst x" "snd x"] that by auto
  ultimately show ?thesis using n by blast
qed

end

section \<open>The code follows the protocol\<close>

definition additive :: "'d merge \<Rightarrow> ('d \<Rightarrow> 'v :: comm_monoid_add) \<Rightarrow> bool" where
  "additive f g \<longleftrightarrow> (\<forall>z l rs. g (rm_data (snd (f z l rs))) = g (rm_data l) + sum_list (map (\<lambda>m. g (rm_data m)) rs))"

definition red_got :: "u32 \<Rightarrow> 'd red_state \<Rightarrow> 'd rmsg list" where
  "red_got i st = (case slot i st of None \<Rightarrow> [] | Some r \<Rightarrow> remotebuffer r)"

definition red_own :: "u32 \<Rightarrow> 'd red_state \<Rightarrow> 'd rmsg option" where
  "red_own i st = (case slot i st of None \<Rightarrow> None | Some r \<Rightarrow> if localContributed r then localbuffer r else None)"

text \<open>The state of a participant that is not done: \<^verbatim>\<open>ready\<close> is what its own contribution needs,
  \<^verbatim>\<open>shape\<close> what is known of the record, with and without the own contribution.\<close>

definition red_ok ::
  "('d red_state \<Rightarrow> bool) \<Rightarrow> (bool \<Rightarrow> 'd reduction \<Rightarrow> bool) \<Rightarrow> u32 \<Rightarrow> 'd merge \<Rightarrow> bool \<Rightarrow> 'd red_state \<Rightarrow> bool" where
  "red_ok ready shape i f b st \<longleftrightarrow>
     length (reduction_info st) = CmiMaxReductions \<and> (\<not> b \<longrightarrow> ready st)
     \<and> (case slot i st of
          None \<Rightarrow> \<not> b
        | Some r \<Rightarrow> ReductionID r = i \<and> localContributed r = b \<and> shape b r
            \<and> (b \<longrightarrow> localbuffer r \<noteq> None \<and> desthandler r \<noteq> None \<and> mergefn r = Some f))"

lemma index_less: "CmiGetReductionIndex i < CmiMaxReductions"
proof -
  have "and i 31 \<le> (31 :: u32)" by (rule word_and_le1)
  then have "unat (and i 31) \<le> unat (31 :: u32)" by (simp only: word_le_nat_alt)
  then show ?thesis by (simp add: CmiGetReductionIndex_def CmiMaxReductions_def)
qed

lemma slot_set [simp]: "length (reduction_info st) = CmiMaxReductions \<Longrightarrow> slot i (set_slot i r st) = r"
  and info_set [simp]: "length (reduction_info (set_slot i r st)) = length (reduction_info st)"
  and counter_set [simp]: "reduction_counter (set_slot i r st) = reduction_counter st"
  using index_less [of i] by (simp_all add: slot_def set_slot_def)

lemma slot_counter [simp]: "slot i (st\<lparr>reduction_counter := k\<rparr>) = slot i st"
  by (simp add: slot_def)

lemma red_ok_own: "red_ok ready shape i f b st \<Longrightarrow> red_own i st \<noteq> None \<longleftrightarrow> b"
  by (auto simp: red_ok_def red_own_def split: option.splits)

lemma send_waits:
  "\<not> (localContributed red \<and> numChildren red = int (length (remotebuffer red))) \<Longrightarrow> CmiSendReduce h red st = Inr ([], st)"
  by (auto simp: CmiSendReduce_def)

lemma send_ends:
  assumes "localContributed red" "numChildren red = int (length (remotebuffer red))" "localbuffer red = Some l"
    and "desthandler red \<noteq> None" "mergefn red = Some f" "additive f g"
  shows "\<exists>t e m. CmiSendReduce h red st = Inr ([e], t) \<and> final_effect (red_parent red) e m
    \<and> g (rm_data m) = g (rm_data l) + sum_list (map (\<lambda>m. g (rm_data m)) (remotebuffer red))
    \<and> (red_parent red \<noteq> - 1 \<longrightarrow> rm_redId m = ReductionID red)"
proof -
  obtain dh where dh: "desthandler red = Some dh" using assms(4) by auto
  show ?thesis
    using assms dh
    by (cases "red_parent red = - 1")
      (auto simp: CmiSendReduce_def Let_def final_effect_def CmiSetRedID_def split_beta additive_def)
qed

lemma internal_waits:
  assumes "length (remotebuffer red) < k" "numChildren red = int k" "ReductionID red = i"
    and "length (reduction_info st) = CmiMaxReductions"
  shows "CmiInternalReduce h m sz f red st = Inr ([], set_slot i (Some (red\<lparr>localContributed := True,
    localbuffer := Some m, localbufferSize := sz, desthandler := Some (rm_handler m), mergefn := Some f\<rparr>)) st)"
  using assms by (simp add: CmiInternalReduce_def Let_def send_waits)

lemma internal_ends:
  assumes "length (remotebuffer red) = k" "numChildren red = int k" "additive f g"
  shows "\<exists>t e m'. CmiInternalReduce h m sz f red st = Inr ([e], t) \<and> final_effect (red_parent red) e m'
    \<and> g (rm_data m') = g (rm_data m) + sum_list (map (\<lambda>m. g (rm_data m)) (remotebuffer red))
    \<and> (red_parent red \<noteq> - 1 \<longrightarrow> rm_redId m' = ReductionID red)"
  using send_ends [OF _ _ _ _ _ assms(3), of "red\<lparr>localContributed := True, localbuffer := Some m,
      localbufferSize := sz, desthandler := Some (rm_handler m), mergefn := Some f\<rparr>" m h
      "set_slot (ReductionID red) (Some (red\<lparr>localContributed := True, localbuffer := Some m,
      localbufferSize := sz, desthandler := Some (rm_handler m), mergefn := Some f\<rparr>)) st"] assms
  by (simp add: CmiInternalReduce_def Let_def)

text \<open>The record a participant works on: the one of the slot, or a fresh one.\<close>

lemma get_create:
  assumes "red_ok ready shape i f b st"
    and "\<not> b \<longrightarrow> shape False (new_reduction i (int (CmiNumSpanTreeChildren c p)) (CmiSpanTreeParent c p)
      (max (CmiNumSpanTreeChildren c p) CmiReductionsNumChildren))"
  shows "\<exists>red. CmiGetCreateReduction c p i st = Inr (red, set_slot i (Some red) st)
    \<and> ReductionID red = i \<and> localContributed red = b \<and> shape b red \<and> remotebuffer red = red_got i st
    \<and> (b \<longrightarrow> localbuffer red = red_own i st \<and> red_own i st \<noteq> None \<and> desthandler red \<noteq> None \<and> mergefn red = Some f)"
proof (cases "slot i st")
  case None
  then have "\<not> b" using assms(1) by (simp add: red_ok_def)
  then show ?thesis using None assms(2)
    by (auto simp: CmiGetCreateReduction_def CmiCheckReductionSlot_def Let_def new_reduction_def red_got_def max_def
        not_less)
next
  case (Some r)
  moreover have "set_slot i (Some r) st = st"
    using Some index_less [of i] assms(1) by (simp add: set_slot_def slot_def red_ok_def list_update_same_conv)
  ultimately show ?thesis using assms(1)
    by (auto simp: CmiGetCreateReduction_def CmiCheckReductionSlot_def red_ok_def red_got_def red_own_def)
qed

lemma red_ok_start: "red_ok ready shape i f False st \<Longrightarrow> red_ok (\<lambda>_. True) shape i f False (st\<lparr>reduction_counter := k\<rparr>)"
  by (auto simp: red_ok_def split: option.splits)

lemma red_views_counter [simp]:
  "red_got i (st\<lparr>reduction_counter := k\<rparr>) = red_got i st" "red_own i (st\<lparr>reduction_counter := k\<rparr>) = red_own i st"
  by (simp_all add: red_got_def red_own_def)

text \<open>Receiving, for any handler that appends the message to the record.\<close>

lemma append_waits:
  assumes "ReductionID red = i" "localContributed red = b" "remotebuffer red = red_got i st" "numChildren red = int k \<or> \<not> b"
    and "length (reduction_info st) = CmiMaxReductions" "\<not> (b \<and> Suc (length (red_got i st)) = k)"
    and "b \<longrightarrow> localbuffer red = red_own i st" "\<not> b \<longrightarrow> red_own i st = None"
    and "t = set_slot i (Some (red\<lparr>remotebuffer := remotebuffer red @ [m]\<rparr>)) st"
  shows "CmiSendReduce h (red\<lparr>remotebuffer := remotebuffer red @ [m]\<rparr>) t = Inr ([], t)
    \<and> red_got i t = red_got i st @ [m] \<and> red_own i t = red_own i st"
  using assms by (auto simp: red_got_def red_own_def intro!: send_waits)

definition pe_shape :: "cluster \<Rightarrow> nat \<Rightarrow> bool \<Rightarrow> 'd reduction \<Rightarrow> bool" where
  "pe_shape c p b r \<longleftrightarrow> numChildren r = int (CmiNumSpanTreeChildren c p) \<and> red_parent r = CmiSpanTreeParent c p
     \<and> CmiNumSpanTreeChildren c p \<le> red_slots r"

abbreviation pe_ok :: "cluster \<Rightarrow> u32 \<Rightarrow> 'd merge \<Rightarrow> nat \<Rightarrow> bool \<Rightarrow> 'd red_state \<Rightarrow> bool" where
  "pe_ok c i f p b st \<equiv> red_ok (\<lambda>st. reduction_counter st = i) (pe_shape c p) i f b st"

lemma pe_fresh_shape:
  "pe_shape c p b (new_reduction i (int (CmiNumSpanTreeChildren c p)) (CmiSpanTreeParent c p)
     (max (CmiNumSpanTreeChildren c p) CmiReductionsNumChildren))"
  by (simp add: pe_shape_def new_reduction_def)

lemma pe_contrib:
  assumes "pe_ok c i f p False st" "additive f g"
  shows "length (red_got i st) < CmiNumSpanTreeChildren c p \<Longrightarrow>
      \<exists>t. CmiReduce c h p m sz f st = Inr ([], t) \<and> pe_ok c i f p True t \<and> red_got i t = red_got i st \<and> red_own i t = Some m"
    and "length (red_got i st) = CmiNumSpanTreeChildren c p \<Longrightarrow>
      \<exists>t e m'. CmiReduce c h p m sz f st = Inr ([e], t) \<and> final_effect (CmiSpanTreeParent c p) e m'
        \<and> g (rm_data m') = g (rm_data m) + sum_list (map (\<lambda>m. g (rm_data m)) (red_got i st))
        \<and> (CmiSpanTreeParent c p \<noteq> - 1 \<longrightarrow> rm_redId m' = i)"
proof -
  let ?st = "st\<lparr>reduction_counter := i + CmiReductionID_multiplier\<rparr>"
  have l: "length (reduction_info st) = CmiMaxReductions" and ctr: "reduction_counter st = i"
    using assms(1) by (auto simp: red_ok_def)
  obtain red where red: "CmiGetCreateReduction c p i ?st = Inr (red, set_slot i (Some red) ?st)"
      "ReductionID red = i" "pe_shape c p False red" "remotebuffer red = red_got i st"
    using get_create [OF red_ok_start [OF assms(1), of "i + CmiReductionID_multiplier"] impI [OF pe_fresh_shape]] by auto
  have n: "numChildren red = int (CmiNumSpanTreeChildren c p)" "red_parent red = CmiSpanTreeParent c p"
    using red(3) by (simp_all add: pe_shape_def)
  have r: "CmiReduce c h p m sz f st = CmiInternalReduce h m sz f red (set_slot i (Some red) ?st)"
    using ctr red(1) by (simp add: CmiReduce_def CmiGetNextReductionID_def getNextID_def)
  show "\<exists>t. CmiReduce c h p m sz f st = Inr ([], t) \<and> pe_ok c i f p True t \<and> red_got i t = red_got i st \<and> red_own i t = Some m"
    if "length (red_got i st) < CmiNumSpanTreeChildren c p"
    using internal_waits [of red "CmiNumSpanTreeChildren c p" i "set_slot i (Some red) ?st" h m sz f] that red n l
    unfolding r by (auto simp: red_ok_def red_got_def red_own_def pe_shape_def)
  show "\<exists>t e m'. CmiReduce c h p m sz f st = Inr ([e], t) \<and> final_effect (CmiSpanTreeParent c p) e m'
        \<and> g (rm_data m') = g (rm_data m) + sum_list (map (\<lambda>m. g (rm_data m)) (red_got i st))
        \<and> (CmiSpanTreeParent c p \<noteq> - 1 \<longrightarrow> rm_redId m' = i)"
    if "length (red_got i st) = CmiNumSpanTreeChildren c p"
    using internal_ends [of red "CmiNumSpanTreeChildren c p" f g h m sz] that red n assms(2)
    unfolding r by simp
qed

text \<open>Receiving, for a reduction in which a participant expects \<^verbatim>\<open>k\<close> messages and sends to \<^verbatim>\<open>q\<close>.\<close>

definition shape_for :: "nat \<Rightarrow> int \<Rightarrow> (bool \<Rightarrow> 'd reduction \<Rightarrow> bool) \<Rightarrow> bool" where
  "shape_for k q shape \<longleftrightarrow>
     (\<forall>b r. shape b r \<longrightarrow> k \<le> red_slots r \<and> (b \<longrightarrow> numChildren r = int k \<and> red_parent r = q)
        \<and> (\<forall>xs. shape b (r\<lparr>remotebuffer := xs\<rparr>)))"

lemma shape_forD:
  assumes "shape_for k q shape" "shape b r"
  shows "k \<le> red_slots r" and "b \<Longrightarrow> numChildren r = int k" and "b \<Longrightarrow> red_parent r = q"
    and "shape b (r\<lparr>remotebuffer := xs\<rparr>)"
  using assms by (auto simp: shape_for_def)

lemma handler_recv:
  assumes "red_ok ready shape i f b st" "additive f g" "rm_redId m = i" "length (red_got i st) < k"
    and shape: "shape_for k q shape"
    and fresh: "shape False (new_reduction i (int (CmiNumSpanTreeChildren c p)) (CmiSpanTreeParent c p)
      (max (CmiNumSpanTreeChildren c p) CmiReductionsNumChildren))"
    and keep: "\<forall>st r. ready st \<longrightarrow> ready (set_slot i r st)"
  shows "\<not> (b \<and> Suc (length (red_got i st)) = k) \<Longrightarrow>
      \<exists>t. CmiReduceHandler c h p m st = Inr ([], t) \<and> red_ok ready shape i f b t
        \<and> red_got i t = red_got i st @ [m] \<and> red_own i t = red_own i st"
    and "b \<Longrightarrow> red_own i st = Some l \<Longrightarrow> Suc (length (red_got i st)) = k \<Longrightarrow>
      \<exists>t e m'. CmiReduceHandler c h p m st = Inr ([e], t) \<and> final_effect q e m'
        \<and> g (rm_data m') = g (rm_data l) + sum_list (map (\<lambda>m. g (rm_data m)) (red_got i st @ [m]))
        \<and> (q \<noteq> - 1 \<longrightarrow> rm_redId m' = i)"
proof -
  have l: "length (reduction_info st) = CmiMaxReductions" using assms(1) by (auto simp: red_ok_def)
  have no: "\<not> b \<longrightarrow> red_own i st = None" using red_ok_own [OF assms(1)] by auto
  obtain red where red: "CmiGetCreateReduction c p i st = Inr (red, set_slot i (Some red) st)"
      "ReductionID red = i" "localContributed red = b" "shape b red" "remotebuffer red = red_got i st"
      "b \<longrightarrow> localbuffer red = red_own i st \<and> red_own i st \<noteq> None \<and> desthandler red \<noteq> None \<and> mergefn red = Some f"
    using get_create [OF assms(1) impI [OF fresh]] by blast
  let ?red = "red\<lparr>remotebuffer := remotebuffer red @ [m]\<rparr>"
  note sh = shape_forD [OF shape red(4)]
  define t where "t = set_slot i (Some ?red) st"
  have tt: "set_slot i (Some ?red) (set_slot i (Some red) st) = t" by (simp add: t_def set_slot_def)
  have r: "CmiReduceHandler c h p m st = CmiSendReduce h ?red t"
    using assms(3,4) red tt sh(1) by (simp add: CmiReduceHandler_def CmiGetRedID_def Let_def)
  show "\<exists>t. CmiReduceHandler c h p m st = Inr ([], t) \<and> red_ok ready shape i f b t
        \<and> red_got i t = red_got i st @ [m] \<and> red_own i t = red_own i st"
    if "\<not> (b \<and> Suc (length (red_got i st)) = k)"
  proof -
    have "CmiSendReduce h ?red t = Inr ([], t) \<and> red_got i t = red_got i st @ [m] \<and> red_own i t = red_own i st"
      using red that l no sh(2) by (intro append_waits [of _ _ b _ k]) (auto simp: t_def)
    moreover have "red_ok ready shape i f b t"
      using assms(1) red l keep sh(4) by (auto simp: red_ok_def t_def)
    ultimately show ?thesis using r by auto
  qed
  show "\<exists>t e m'. CmiReduceHandler c h p m st = Inr ([e], t) \<and> final_effect q e m'
        \<and> g (rm_data m') = g (rm_data l) + sum_list (map (\<lambda>m. g (rm_data m)) (red_got i st @ [m]))
        \<and> (q \<noteq> - 1 \<longrightarrow> rm_redId m' = i)"
    if "b" "red_own i st = Some l" "Suc (length (red_got i st)) = k"
    using send_ends [of ?red l f g h t] red that assms(2) r sh(2,3) by simp
qed

lemma pe_shape_for: "shape_for (CmiNumSpanTreeChildren c p) (CmiSpanTreeParent c p) (pe_shape c p)"
  by (simp add: shape_for_def pe_shape_def)

lemma pe_protocol:
  assumes "additive f g" "0 < c_nodesize c" "0 < c_nodes c"
  shows "reduction_protocol {p. p < numPes c} 0 (CmiSpanTreeParent c) (CmiNumSpanTreeChildren c) id
    (pe_ok c i f) (red_got i) (red_own i) (\<lambda>m. rm_redId m = i) (\<lambda>m. g (rm_data m)) input
    (\<lambda>p st. CmiReduce c h p (input p) (sz p) f st) (\<lambda>p m st. CmiReduceHandler c h p m st)"
proof (unfold_locales, goal_cases)
  case 2
  then show ?case using assms(2,3) by (simp add: numPes_def)
next
  case (3 p)
  then show ?case using span_parent_less [OF assms(2), of p] by (auto simp: CmiSpanTreeParent_def)
next
  case (4 p)
  then show ?case using span_parent_less [OF assms(2), of p] by auto
next
  case (5 p)
  then show ?case using span_children_count [OF assms(2), of p] by simp
next
  case (6 p b s)
  then show ?case using red_ok_own by blast
next
  case (7 p s)
  then show ?case using pe_contrib(1) [OF 7(2) assms(1)] by blast
next
  case (8 p s)
  then show ?case using pe_contrib(2) [OF 8(2) assms(1)] by blast
next
  case (9 p b s m)
  then show ?case
    using handler_recv(1) [OF 9(2) assms(1) 9(3,4) pe_shape_for pe_fresh_shape, of h] by simp
next
  case (10 p s m l)
  have "length (red_got i s) < CmiNumSpanTreeChildren c p" using 10(5) by simp
  from handler_recv(2) [OF 10(2) assms(1) 10(3) this pe_shape_for pe_fresh_shape, of l h] show ?case
    using 10(4,5) by simp
qed simp

text \<open>Merging by union: every contribution is a multiset, and the result is their sum.\<close>

definition merge_union :: "'a multiset merge" where
  "merge_union z l rs = (z, l\<lparr>rm_data := rm_data l + sum_list (map rm_data rs)\<rparr>)"

lemma additive_union: "additive merge_union (\<lambda>d. d)"
  by (simp add: additive_def merge_union_def)

interpretation pe_union: reduction_protocol
  "{p. p < numPes \<lparr>c_nodes = Suc n, c_nodesize = Suc k\<rparr>}" 0
  "CmiSpanTreeParent \<lparr>c_nodes = Suc n, c_nodesize = Suc k\<rparr>"
  "CmiNumSpanTreeChildren \<lparr>c_nodes = Suc n, c_nodesize = Suc k\<rparr>" id
  "pe_ok \<lparr>c_nodes = Suc n, c_nodesize = Suc k\<rparr> i merge_union" "red_got i" "red_own i"
  "\<lambda>m. rm_redId m = i" "\<lambda>m. (\<lambda>d. d) (rm_data m)" input
  "\<lambda>p st. CmiReduce \<lparr>c_nodes = Suc n, c_nodesize = Suc k\<rparr> h p (input p) (sz p) merge_union st"
  "\<lambda>p m st. CmiReduceHandler \<lparr>c_nodes = Suc n, c_nodesize = Suc k\<rparr> h p m st"
  by (rule pe_protocol [OF additive_union]) simp_all

section \<open>Properties\<close>

lemma empty_slot_ok:
  assumes "length (reduction_info st) = CmiMaxReductions" "slot i st = None" "ready st"
  shows "red_ok ready shape i f False st \<and> red_got i st = []"
  using assms by (simp add: red_ok_def red_got_def)

text \<open>C23. A reduction over all PEs collects every contribution exactly once, whatever the order in
  which the PEs contribute and the messages arrive: no step aborts or overruns a buffer, there
  are at most twice as many steps as PEs, and when every PE has contributed and nothing is in
  flight the final handler has run exactly once, on a message whose value is the sum of the
  contributed values, for every quantity the merge function adds up.\<close>

theorem reduction_collects_every_contribution:
  fixes g :: "'d \<Rightarrow> 'v :: comm_monoid_add"
  assumes "additive f g" "0 < c_nodesize c" "0 < c_nodes c"
    and "(red_step (\<lambda>p st. CmiReduce c h p (input p) (sz p) f st)
            (\<lambda>p m st. CmiReduceHandler c h p m st) {p. p < numPes c} ^^ n) s0 s"
    and "net s0 = {#}" "contributed s0 = {}" "results s0 = []"
    and "\<forall>p < numPes c. length (reduction_info (members s0 p)) = CmiMaxReductions
           \<and> reduction_counter (members s0 p) = i \<and> slot i (members s0 p) = None"
  shows "n \<le> 2 * numPes c \<and> length (results s) \<le> 1
    \<and> (\<forall>p < numPes c. p \<notin> contributed s \<longrightarrow> (\<exists>x. CmiReduce c h p (input p) (sz p) f (members s p) = Inr x))
    \<and> (\<forall>x \<in># net s. \<exists>y. CmiReduceHandler c h (fst x) (snd x) (members s (fst x)) = Inr y)
    \<and> (contributed s = {p. p < numPes c} \<and> net s = {#} \<longrightarrow>
         (\<exists>r. results s = [r] \<and> g (rm_data r) = (\<Sum>p\<in>{p. p < numPes c}. g (rm_data (input p)))))"
proof -
  have "\<forall>p \<in> {p. p < numPes c}. pe_ok c i f p False (members s0 p) \<and> red_got i (members s0 p) = []"
    using assms(8) by (intro ballI empty_slot_ok) auto
  from reduction_protocol.reduction_complete [OF pe_protocol [OF assms(1-3)] assms(4-7) this]
  show ?thesis by simp
qed

definition red_start :: "(nat \<Rightarrow> 's) \<Rightarrow> ('s, 'd) red_sys" where
  "red_start st = \<lparr>members = st, net = {#}, contributed = {}, results = []\<rparr>"

theorem reduction_collects_every_contribution_witness:
  "(red_step (\<lambda>p st. CmiReduce \<lparr>c_nodes = 2, c_nodesize = 1\<rparr> 9 p
        \<lparr>rm_handler = 3, rm_redId = 0, rm_data = {#p#}\<rparr> 8 merge_union st)
      (\<lambda>p m st. CmiReduceHandler \<lparr>c_nodes = 2, c_nodesize = 1\<rparr> 9 p m st) {p. p < numPes \<lparr>c_nodes = 2, c_nodesize = 1\<rparr>} ^^ 0)
     (red_start (\<lambda>_. CmiReductionsInit)) (red_start (\<lambda>_. CmiReductionsInit))
   \<and> (\<exists>x. CmiReduce \<lparr>c_nodes = 2, c_nodesize = 1\<rparr> 9 1 \<lparr>rm_handler = 3, rm_redId = 0, rm_data = {#1::nat#}\<rparr> 8
        merge_union CmiReductionsInit = Inr x)"
proof -
  let ?c = "\<lparr>c_nodes = 2, c_nodesize = 1\<rparr>" and ?in = "\<lambda>p. \<lparr>rm_handler = 3, rm_redId = 0, rm_data = {#p#}\<rparr>"
  let ?s = "red_start (\<lambda>_. CmiReductionsInit) :: (nat multiset red_state, nat multiset) red_sys"
  have r: "(red_step (\<lambda>p st. CmiReduce ?c 9 p (?in p) 8 merge_union st)
      (\<lambda>p m st. CmiReduceHandler ?c 9 p m st) {p. p < numPes ?c} ^^ 0) ?s ?s" by simp
  have st: "length (reduction_info (CmiReductionsInit :: nat multiset red_state)) = CmiMaxReductions
      \<and> reduction_counter (CmiReductionsInit :: nat multiset red_state) = 0
      \<and> slot 0 (CmiReductionsInit :: nat multiset red_state) = None"
    using index_less [of 0] by (simp add: CmiReductionsInit_def slot_def CmiReductionID_globalOffset_def)
  have "\<forall>p < numPes ?c. p \<notin> contributed ?s \<longrightarrow> (\<exists>x. CmiReduce ?c 9 p (?in p) 8 merge_union (members ?s p) = Inr x)"
    using reduction_collects_every_contribution [OF additive_union _ _ r, of 0] st by (simp add: red_start_def)
  then show ?thesis using r by (simp add: red_start_def numPes_def)
qed

lemma index_mod: "CmiGetReductionIndex i = unat i mod 32"
proof -
  have "and i 31 = take_bit 5 i" by (simp add: take_bit_eq_mask mask_eq_exp_minus_1)
  then have "CmiGetReductionIndex i = unat (take_bit 5 i)"
    by (simp only: CmiGetReductionIndex_def CmiMaxReductions_def) simp
  also have "\<dots> = take_bit 5 (unat i)" by (simp only: unsigned_take_bit_eq)
  finally show ?thesis by (simp add: take_bit_eq_mod)
qed

lemma index_of_id: "CmiGetReductionIndex (of_nat k) = k mod 32"
  by (simp add: index_mod unat_of_nat take_bit_eq_mod mod_mod_cancel)

lemma counter_after: "reduction_counter (((snd \<circ> CmiGetNextReductionID) ^^ n) CmiReductionsInit) = of_nat (2 * n)"
  by (induction n) (auto simp: CmiReductionsInit_def CmiReductionID_globalOffset_def CmiGetNextReductionID_def
      getNextID_def CmiReductionID_multiplier_def)

lemma request_counter_after:
  "reduction_request_counter (((snd \<circ> CmiGetGlobalReduction) ^^ n) CmiReductionsInit) = of_nat (2 * n + 1)"
  by (induction n) (auto simp: CmiReductionsInit_def CmiReductionID_requestOffset_def CmiGetGlobalReduction_def
      getNextID_def CmiReductionID_multiplier_def)

lemma mod_window:
  assumes "a < b" "b < a + 32"
  shows "a mod 32 \<noteq> b mod (32 :: nat)"
proof
  assume "a mod 32 = b mod 32"
  then have "32 dvd b - a" using mod_eq_dvd_iff_nat [of a b 32] assms(1) by simp
  then show False using assms dvd_imp_le [of 32 "b - a"] by simp
qed

text \<open>C24. Reductions in flight do not share a table slot: the ids of one counter are two apart, those
  of the runtime's counter and of the requested ones never use the same slot, fewer than sixteen
  consecutive ids of one counter use different slots, the sixteenth reuses the first, and all of
  this holds across the wrap-around of the counters.\<close>

theorem reduction_slots_distinct:
  "fst (CmiGetNextReductionID (((snd \<circ> CmiGetNextReductionID) ^^ n) CmiReductionsInit)) = of_nat (2 * n)
   \<and> fst (CmiGetGlobalReduction (((snd \<circ> CmiGetGlobalReduction) ^^ n) CmiReductionsInit)) = of_nat (2 * n + 1)
   \<and> (m < n \<and> n < m + 16 \<longrightarrow>
        CmiGetReductionIndex (of_nat (2 * m)) \<noteq> CmiGetReductionIndex (of_nat (2 * n))
        \<and> CmiGetReductionIndex (of_nat (2 * m + 1)) \<noteq> CmiGetReductionIndex (of_nat (2 * n + 1)))
   \<and> CmiGetReductionIndex (of_nat (2 * m)) \<noteq> CmiGetReductionIndex (of_nat (2 * n + 1))
   \<and> CmiGetReductionIndex (of_nat (2 * (m + 16))) = CmiGetReductionIndex (of_nat (2 * m))"
proof -
  have "2 * m mod 32 \<noteq> (2 * n + 1) mod (32 :: nat)"
  proof
    assume e: "2 * m mod 32 = (2 * n + 1) mod (32 :: nat)"
    have "even (2 * m mod 32)" "odd ((2 * n + 1) mod (32 :: nat))" by (simp_all add: dvd_mod_iff)
    then show False using e by simp
  qed
  moreover have "2 * m mod 32 \<noteq> 2 * n mod 32 \<and> (2 * m + 1) mod 32 \<noteq> (2 * n + 1) mod (32 :: nat)" if "m < n" "n < m + 16"
    using that mod_window [of "2 * m" "2 * n"] mod_window [of "2 * m + 1" "2 * n + 1"] by simp
  moreover have "2 * (m + 16) mod 32 = 2 * m mod (32 :: nat)" by simp
  ultimately show ?thesis
    unfolding index_of_id
    by (simp add: counter_after request_counter_after CmiGetNextReductionID_def CmiGetGlobalReduction_def getNextID_def)
qed

theorem reduction_slots_distinct_witness:
  "CmiGetReductionIndex (of_nat (2 * 2147483640)) \<noteq> CmiGetReductionIndex (of_nat (2 * 2147483650))"
proof -
  have "(2147483640 :: nat) < 2147483650 \<and> 2147483650 < 2147483640 + (16 :: nat)" by simp
  then show ?thesis using reduction_slots_distinct [of 2147483650 2147483640] by blast
qed

end
