(* ===== verification/Reduce_Variants.thy ===== *)
theory Reduce_Variants
  imports Reduction
begin

text \<open>
  The reductions over a list of PEs (\<^verbatim>\<open>CmiListReduce\<close>) and over the nodes (\<^verbatim>\<open>CmiNodeReduce\<close>) of
  \<^verbatim>\<open>src/collectives.cpp\<close> as further instances of the reduction protocol: the first replaces the
  tree shape a record was created with, possibly after messages have arrived in it, the second
  refuses a message too many.
\<close>

section \<open>Reductions over a list\<close>

lemma position_less: "x \<in> set xs \<Longrightarrow> position xs x < length xs \<and> xs ! position xs x = x"
  by (induction xs) auto

lemma position_nth: "distinct xs \<Longrightarrow> j < length xs \<Longrightarrow> position xs (xs ! j) = j"
proof (induction xs arbitrary: j)
  case (Cons x xs)
  then show ?case by (cases j) (auto simp: in_set_conv_nth)
qed simp

lemma list_children_num: "list_children n i = int (num_children n i)"
  by (auto simp: list_children_def num_children_def CmiReductionsNumChildren_def CST_W_def Let_def)

lemma num_children_le: "num_children n i \<le> 4"
  by (auto simp: num_children_def CST_W_def)

definition list_par :: "nat list \<Rightarrow> nat \<Rightarrow> int" where
  "list_par pes p = list_parent pes (position pes p)"

definition list_kids :: "nat list \<Rightarrow> nat \<Rightarrow> nat" where
  "list_kids pes p = num_children (length pes) (position pes p)"

lemma list_kids_count:
  assumes "distinct pes" "p \<in> set pes"
  shows "card {q \<in> set pes. list_par pes q = int p} = list_kids pes p"
proof -
  let ?i = "position pes p"
  have i: "?i < length pes" "pes ! ?i = p" using position_less [OF assms(2)] by auto
  have "list_par pes (pes ! j) = int p \<longleftrightarrow> j \<noteq> 0 \<and> (j - 1) div 4 = ?i" if "j < length pes" for j
  proof -
    have k: "(j - 1) div 4 < length pes" using that by (metis diff_le_self div_le_dividend le_less_trans)
    have "list_par pes (pes ! j) = int p \<longleftrightarrow> j \<noteq> 0 \<and> pes ! ((j - 1) div 4) = pes ! ?i"
      using position_nth [OF assms(1) that] i(2) by (simp add: list_par_def list_parent_def)
    then show ?thesis using nth_eq_iff_index_eq [OF assms(1) k i(1)] by simp
  qed
  moreover have "set pes = (\<lambda>j. pes ! j) ` {j. j < length pes}" by (auto simp: set_conv_nth)
  moreover have "set (tree_children (length pes) ?i) = {j. j < length pes \<and> j \<noteq> 0 \<and> (j - 1) div 4 = ?i}"
    using tree_children_iff by blast
  ultimately have "{q \<in> set pes. list_par pes q = int p} = (\<lambda>j. pes ! j) ` set (tree_children (length pes) ?i)"
    by auto
  moreover have "inj_on (\<lambda>j. pes ! j) (set (tree_children (length pes) ?i))"
    using assms(1) by (auto simp: inj_on_def tree_children_iff nth_eq_iff_index_eq)
  ultimately show ?thesis
    using tree_children_distinct tree_children_length
    by (simp add: card_image distinct_card list_kids_def)
qed

lemma list_par_step:
  assumes "distinct pes" "q \<in> set pes" "q \<noteq> hd pes"
  shows "0 \<le> list_par pes q \<and> nat (list_par pes q) \<in> set pes
    \<and> position pes (nat (list_par pes q)) < position pes q"
proof -
  let ?j = "position pes q"
  have j: "?j < length pes" "pes ! ?j = q" using position_less [OF assms(2)] by auto
  have "?j \<noteq> 0" using j assms(3) by (metis hd_conv_nth length_0_conv not_less_zero)
  then have k: "(?j - 1) div 4 < ?j" by simp
  then have "position pes (pes ! ((?j - 1) div 4)) = (?j - 1) div 4"
    using position_nth [OF assms(1)] j(1) by simp
  then show ?thesis using \<open>?j \<noteq> 0\<close> k j(1) by (simp add: list_par_def list_parent_def)
qed

lemma list_par_root:
  assumes "distinct pes" "q \<in> set pes"
  shows "list_par pes q = - 1 \<longleftrightarrow> q = hd pes"
proof
  assume "list_par pes q = - 1"
  then show "q = hd pes" using list_par_step [OF assms] by fastforce
next
  assume "q = hd pes"
  then have "position pes q = 0" using assms(2) by (cases pes) auto
  then show "list_par pes q = - 1" by (simp add: list_par_def list_parent_def)
qed

definition list_shape :: "nat list \<Rightarrow> nat \<Rightarrow> bool \<Rightarrow> 'd reduction \<Rightarrow> bool" where
  "list_shape pes p b r \<longleftrightarrow> 4 \<le> red_slots r
     \<and> (b \<longrightarrow> numChildren r = int (list_kids pes p) \<and> red_parent r = list_par pes p)"

abbreviation list_ok :: "nat list \<Rightarrow> u32 \<Rightarrow> 'd merge \<Rightarrow> nat \<Rightarrow> bool \<Rightarrow> 'd red_state \<Rightarrow> bool" where
  "list_ok pes i f p b st \<equiv> red_ok (\<lambda>st. True) (list_shape pes p) i f b st"

lemma list_shape_for: "shape_for (list_kids pes p) (list_par pes p) (list_shape pes p)"
  using num_children_le by (auto simp: shape_for_def list_shape_def list_kids_def intro: le_trans)

lemma list_fresh_shape:
  "list_shape pes p False (new_reduction i (int (CmiNumSpanTreeChildren c p)) (CmiSpanTreeParent c p)
     (max (CmiNumSpanTreeChildren c p) CmiReductionsNumChildren))"
  by (simp add: list_shape_def new_reduction_def CmiReductionsNumChildren_def)

lemma list_contrib:
  assumes "list_ok pes i f p False st" "additive f g" "p \<in> set pes"
  shows "length (red_got i st) < list_kids pes p \<Longrightarrow>
      \<exists>t. CmiListReduce c h p pes m sz f i st = Inr ([], t) \<and> list_ok pes i f p True t
        \<and> red_got i t = red_got i st \<and> red_own i t = Some m"
    and "length (red_got i st) = list_kids pes p \<Longrightarrow>
      \<exists>t e m'. CmiListReduce c h p pes m sz f i st = Inr ([e], t) \<and> final_effect (list_par pes p) e m'
        \<and> g (rm_data m') = g (rm_data m) + sum_list (map (\<lambda>m. g (rm_data m)) (red_got i st))
        \<and> (list_par pes p \<noteq> - 1 \<longrightarrow> rm_redId m' = i)"
proof -
  have l: "length (reduction_info st) = CmiMaxReductions" using assms(1) by (auto simp: red_ok_def)
  obtain red where red: "CmiGetCreateReduction c p i st = Inr (red, set_slot i (Some red) st)"
      "ReductionID red = i" "list_shape pes p False red" "remotebuffer red = red_got i st"
    using get_create [OF assms(1) impI [OF list_fresh_shape]] by blast
  let ?red = "red\<lparr>numChildren := int (list_kids pes p), red_parent := list_par pes p\<rparr>"
  have r: "CmiListReduce c h p pes m sz f i st = CmiInternalReduce h m sz f ?red (set_slot i (Some red) st)"
    using red(1) position_less [OF assms(3)]
    by (simp add: CmiListReduce_def list_par_def list_kids_def list_children_num Let_def)
  show "\<exists>t. CmiListReduce c h p pes m sz f i st = Inr ([], t) \<and> list_ok pes i f p True t
        \<and> red_got i t = red_got i st \<and> red_own i t = Some m"
    if "length (red_got i st) < list_kids pes p"
    using internal_waits [of ?red "list_kids pes p" i "set_slot i (Some red) st" h m sz f] that red l
    unfolding r by (auto simp: red_ok_def red_got_def red_own_def list_shape_def)
  show "\<exists>t e m'. CmiListReduce c h p pes m sz f i st = Inr ([e], t) \<and> final_effect (list_par pes p) e m'
        \<and> g (rm_data m') = g (rm_data m) + sum_list (map (\<lambda>m. g (rm_data m)) (red_got i st))
        \<and> (list_par pes p \<noteq> - 1 \<longrightarrow> rm_redId m' = i)"
    if "length (red_got i st) = list_kids pes p"
    using internal_ends [of ?red "list_kids pes p" f g h m sz] that red assms(2) unfolding r by simp
qed

lemma list_protocol:
  assumes "additive f g" "distinct pes" "pes \<noteq> []"
  shows "reduction_protocol (set pes) (hd pes) (list_par pes) (list_kids pes) (position pes)
    (list_ok pes i f) (red_got i) (red_own i) (\<lambda>m. rm_redId m = i) (\<lambda>m. g (rm_data m)) input
    (\<lambda>p st. CmiListReduce c h p pes (input p) (sz p) f i st) (\<lambda>p m st. CmiReduceHandler c h p m st)"
proof (unfold_locales, goal_cases)
  case 2
  then show ?case using assms(3) by simp
next
  case (3 p)
  then show ?case using list_par_root [OF assms(2)] by blast
next
  case (4 p)
  then show ?case using list_par_step [OF assms(2)] by blast
next
  case (5 p)
  then show ?case using list_kids_count [OF assms(2)] by blast
next
  case (6 p b s)
  then show ?case using red_ok_own by blast
next
  case (7 p s)
  then show ?case using list_contrib(1) [OF 7(2) assms(1) 7(1)] by blast
next
  case (8 p s)
  then show ?case using list_contrib(2) [OF 8(2) assms(1) 8(1)] by blast
next
  case (9 p b s m)
  then show ?case
    using handler_recv(1) [OF 9(2) assms(1) 9(3,4) list_shape_for list_fresh_shape, of c h] by simp
next
  case (10 p s m l)
  have "length (red_got i s) < list_kids pes p" using 10(5) by simp
  from handler_recv(2) [OF 10(2) assms(1) 10(3) this list_shape_for list_fresh_shape, of l c h] show ?case
    using 10(4,5) by simp
qed simp

interpretation list_union: reduction_protocol "set (p0 # sorted_list_of_set (S - {p0}))" "hd (p0 # sorted_list_of_set (S - {p0}))"
  "list_par (p0 # sorted_list_of_set (S - {p0}))" "list_kids (p0 # sorted_list_of_set (S - {p0}))"
  "position (p0 # sorted_list_of_set (S - {p0}))"
  "list_ok (p0 # sorted_list_of_set (S - {p0})) i merge_union" "red_got i" "red_own i"
  "\<lambda>m. rm_redId m = i" "\<lambda>m. (\<lambda>d. d) (rm_data m)" input
  "\<lambda>p st. CmiListReduce c h p (p0 # sorted_list_of_set (S - {p0})) (input p) (sz p) merge_union i st"
  "\<lambda>p m st. CmiReduceHandler c h p m st"
  by (rule list_protocol [OF additive_union]) (cases "finite S"; simp)+

section \<open>Reductions over the nodes\<close>

definition node_shape :: "cluster \<Rightarrow> nat \<Rightarrow> bool \<Rightarrow> 'd reduction \<Rightarrow> bool" where
  "node_shape c n b r \<longleftrightarrow> numChildren r = int (CmiNumNodeSpanTreeChildren c n) \<and> red_parent r = CmiNodeSpanTreeParent n"

abbreviation node_ok :: "cluster \<Rightarrow> u32 \<Rightarrow> 'd merge \<Rightarrow> nat \<Rightarrow> bool \<Rightarrow> 'd red_state \<Rightarrow> bool" where
  "node_ok c i f n b st \<equiv> red_ok (\<lambda>st. reduction_counter st = i) (node_shape c n) i f b st"

lemma get_create_node:
  assumes "red_ok ready (node_shape c n) i f b st"
  shows "\<exists>red. CmiGetCreateNodeReduction c n i st = Inr (red, set_slot i (Some red) st)
    \<and> ReductionID red = i \<and> localContributed red = b \<and> node_shape c n b red \<and> remotebuffer red = red_got i st
    \<and> (b \<longrightarrow> localbuffer red = red_own i st \<and> red_own i st \<noteq> None \<and> desthandler red \<noteq> None \<and> mergefn red = Some f)"
proof (cases "slot i st")
  case None
  then have "\<not> b" using assms(1) by (simp add: red_ok_def)
  then show ?thesis using None
    by (auto simp: CmiGetCreateNodeReduction_def CmiCheckReductionSlot_def Let_def new_reduction_def red_got_def node_shape_def)
next
  case (Some r)
  moreover have "set_slot i (Some r) st = st"
    using Some index_less [of i] assms(1) by (simp add: set_slot_def slot_def red_ok_def list_update_same_conv)
  ultimately show ?thesis using assms(1)
    by (auto simp: CmiGetCreateNodeReduction_def CmiCheckReductionSlot_def red_ok_def red_got_def red_own_def)
qed

lemma node_contrib:
  assumes "node_ok c i f n False st" "additive f g"
  shows "length (red_got i st) < CmiNumNodeSpanTreeChildren c n \<Longrightarrow>
      \<exists>t. CmiNodeReduce c h n m sz f st = Inr ([], t) \<and> node_ok c i f n True t \<and> red_got i t = red_got i st \<and> red_own i t = Some m"
    and "length (red_got i st) = CmiNumNodeSpanTreeChildren c n \<Longrightarrow>
      \<exists>t e m'. CmiNodeReduce c h n m sz f st = Inr ([e], t) \<and> final_effect (CmiNodeSpanTreeParent n) e m'
        \<and> g (rm_data m') = g (rm_data m) + sum_list (map (\<lambda>m. g (rm_data m)) (red_got i st))
        \<and> (CmiNodeSpanTreeParent n \<noteq> - 1 \<longrightarrow> rm_redId m' = i)"
proof -
  let ?st = "st\<lparr>reduction_counter := i + 1\<rparr>"
  have l: "length (reduction_info st) = CmiMaxReductions" and ctr: "reduction_counter st = i"
    using assms(1) by (auto simp: red_ok_def)
  obtain red where red: "CmiGetCreateNodeReduction c n i ?st = Inr (red, set_slot i (Some red) ?st)"
      "ReductionID red = i" "node_shape c n False red" "remotebuffer red = red_got i st"
    using get_create_node [OF red_ok_start [OF assms(1), of "i + 1"]] by auto
  have nc: "numChildren red = int (CmiNumNodeSpanTreeChildren c n)" "red_parent red = CmiNodeSpanTreeParent n"
    using red(3) by (simp_all add: node_shape_def)
  have r: "CmiNodeReduce c h n m sz f st = CmiInternalReduce h m sz f red (set_slot i (Some red) ?st)"
    using ctr red(1) by (simp add: CmiNodeReduce_def CmiGetNextNodeReductionID_def getNextID_def CmiInternalNodeReduce_def)
  show "\<exists>t. CmiNodeReduce c h n m sz f st = Inr ([], t) \<and> node_ok c i f n True t \<and> red_got i t = red_got i st \<and> red_own i t = Some m"
    if "length (red_got i st) < CmiNumNodeSpanTreeChildren c n"
    using internal_waits [of red "CmiNumNodeSpanTreeChildren c n" i "set_slot i (Some red) ?st" h m sz f] that red nc l
    unfolding r by (auto simp: red_ok_def red_got_def red_own_def node_shape_def)
  show "\<exists>t e m'. CmiNodeReduce c h n m sz f st = Inr ([e], t) \<and> final_effect (CmiNodeSpanTreeParent n) e m'
        \<and> g (rm_data m') = g (rm_data m) + sum_list (map (\<lambda>m. g (rm_data m)) (red_got i st))
        \<and> (CmiNodeSpanTreeParent n \<noteq> - 1 \<longrightarrow> rm_redId m' = i)"
    if "length (red_got i st) = CmiNumNodeSpanTreeChildren c n"
    using internal_ends [of red "CmiNumNodeSpanTreeChildren c n" f g h m sz] that red nc assms(2)
    unfolding r by simp
qed

lemma node_recv:
  assumes "node_ok c i f n b st" "additive f g" "rm_redId m = i" "length (red_got i st) < CmiNumNodeSpanTreeChildren c n"
  shows "\<not> (b \<and> Suc (length (red_got i st)) = CmiNumNodeSpanTreeChildren c n) \<Longrightarrow>
      \<exists>t. CmiNodeReduceHandler c h n m st = Inr ([], t) \<and> node_ok c i f n b t
        \<and> red_got i t = red_got i st @ [m] \<and> red_own i t = red_own i st"
    and "b \<Longrightarrow> red_own i st = Some l \<Longrightarrow> Suc (length (red_got i st)) = CmiNumNodeSpanTreeChildren c n \<Longrightarrow>
      \<exists>t e m'. CmiNodeReduceHandler c h n m st = Inr ([e], t) \<and> final_effect (CmiNodeSpanTreeParent n) e m'
        \<and> g (rm_data m') = g (rm_data l) + sum_list (map (\<lambda>m. g (rm_data m)) (red_got i st @ [m]))
        \<and> (CmiNodeSpanTreeParent n \<noteq> - 1 \<longrightarrow> rm_redId m' = i)"
proof -
  have l: "length (reduction_info st) = CmiMaxReductions" using assms(1) by (auto simp: red_ok_def)
  have no: "\<not> b \<longrightarrow> red_own i st = None" using red_ok_own [OF assms(1)] by auto
  obtain red where red: "CmiGetCreateNodeReduction c n i st = Inr (red, set_slot i (Some red) st)"
      "ReductionID red = i" "localContributed red = b" "node_shape c n b red" "remotebuffer red = red_got i st"
      "b \<longrightarrow> localbuffer red = red_own i st \<and> red_own i st \<noteq> None \<and> desthandler red \<noteq> None \<and> mergefn red = Some f"
    using get_create_node [OF assms(1)] by blast
  let ?red = "red\<lparr>remotebuffer := remotebuffer red @ [m]\<rparr>"
  define t where "t = set_slot i (Some ?red) st"
  have tt: "set_slot i (Some ?red) (set_slot i (Some red) st) = t" by (simp add: t_def set_slot_def)
  have r: "CmiNodeReduceHandler c h n m st = CmiSendReduce h ?red t"
    using assms(3,4) red tt by (simp add: CmiNodeReduceHandler_def CmiGetRedID_def node_shape_def Let_def CmiSendNodeReduce_def)
  show "\<exists>t. CmiNodeReduceHandler c h n m st = Inr ([], t) \<and> node_ok c i f n b t
        \<and> red_got i t = red_got i st @ [m] \<and> red_own i t = red_own i st"
    if "\<not> (b \<and> Suc (length (red_got i st)) = CmiNumNodeSpanTreeChildren c n)"
  proof -
    have "CmiSendReduce h ?red t = Inr ([], t) \<and> red_got i t = red_got i st @ [m] \<and> red_own i t = red_own i st"
      using red that l no by (intro append_waits [of _ _ b _ "CmiNumNodeSpanTreeChildren c n"]) (auto simp: node_shape_def t_def)
    moreover have "node_ok c i f n b t"
      using assms(1) red l by (auto simp: red_ok_def t_def node_shape_def)
    ultimately show ?thesis using r by auto
  qed
  show "\<exists>t e m'. CmiNodeReduceHandler c h n m st = Inr ([e], t) \<and> final_effect (CmiNodeSpanTreeParent n) e m'
        \<and> g (rm_data m') = g (rm_data l) + sum_list (map (\<lambda>m. g (rm_data m)) (red_got i st @ [m]))
        \<and> (CmiNodeSpanTreeParent n \<noteq> - 1 \<longrightarrow> rm_redId m' = i)"
    if "b" "red_own i st = Some l" "Suc (length (red_got i st)) = CmiNumNodeSpanTreeChildren c n"
    using send_ends [of ?red l f g h t] red that assms(2) r by (simp add: node_shape_def)
qed

lemma node_kids_count:
  assumes "p < c_nodes c"
  shows "card {q \<in> {n. n < c_nodes c}. CmiNodeSpanTreeParent q = int p} = CmiNumNodeSpanTreeChildren c p"
proof -
  have "{q \<in> {n. n < c_nodes c}. CmiNodeSpanTreeParent q = int p} = set (tree_children (c_nodes c) p)"
    by (auto simp: tree_children_iff CmiNodeSpanTreeParent_def CST_W_def)
  then show ?thesis
    using tree_children_distinct tree_children_length by (simp add: distinct_card CmiNumNodeSpanTreeChildren_def)
qed

lemma node_protocol:
  assumes "additive f g" "0 < c_nodes c"
  shows "reduction_protocol {n. n < c_nodes c} 0 CmiNodeSpanTreeParent (CmiNumNodeSpanTreeChildren c) id
    (node_ok c i f) (red_got i) (red_own i) (\<lambda>m. rm_redId m = i) (\<lambda>m. g (rm_data m)) input
    (\<lambda>n st. CmiNodeReduce c h n (input n) (sz n) f st) (\<lambda>n m st. CmiNodeReduceHandler c h n m st)"
proof (unfold_locales, goal_cases)
  case 2
  then show ?case using assms(2) by simp
next
  case (3 p)
  then show ?case by (simp add: CmiNodeSpanTreeParent_def)
next
  case (4 p)
  moreover have "(p - 1) div 4 < p" using 4 by simp
  ultimately show ?case by (simp add: CmiNodeSpanTreeParent_def CST_W_def)
next
  case (5 p)
  then show ?case using node_kids_count by blast
next
  case (6 p b s)
  then show ?case using red_ok_own by blast
next
  case (7 p s)
  then show ?case using node_contrib(1) [OF 7(2) assms(1)] by blast
next
  case (8 p s)
  then show ?case using node_contrib(2) [OF 8(2) assms(1)] by blast
next
  case (9 p b s m)
  then show ?case using node_recv(1) [OF 9(2) assms(1) 9(3,4)] by blast
next
  case (10 p s m l)
  have "length (red_got i s) < CmiNumNodeSpanTreeChildren c p" using 10(5) by simp
  from node_recv(2) [OF 10(2) assms(1) 10(3) this, of l h] show ?case using 10(4,5) by blast
qed simp

interpretation node_union: reduction_protocol "{n. n < c_nodes \<lparr>c_nodes = Suc k, c_nodesize = ns\<rparr>}" 0
  CmiNodeSpanTreeParent "CmiNumNodeSpanTreeChildren \<lparr>c_nodes = Suc k, c_nodesize = ns\<rparr>" id
  "node_ok \<lparr>c_nodes = Suc k, c_nodesize = ns\<rparr> i merge_union" "red_got i" "red_own i"
  "\<lambda>m. rm_redId m = i" "\<lambda>m. (\<lambda>d. d) (rm_data m)" input
  "\<lambda>n st. CmiNodeReduce \<lparr>c_nodes = Suc k, c_nodesize = ns\<rparr> h n (input n) (sz n) merge_union st"
  "\<lambda>n m st. CmiNodeReduceHandler \<lparr>c_nodes = Suc k, c_nodesize = ns\<rparr> h n m st"
  by (rule node_protocol [OF additive_union]) simp

section \<open>Properties\<close>

text \<open>C25. A reduction over a list of different PEs collects the contribution of every PE of the list
  exactly once in any order, even though a PE's record may be created by the first message to
  arrive, under the shape of another tree: no step aborts or overruns a buffer, and the handler
  runs exactly once, with the sum of the contributed values.\<close>

theorem list_reduction_collects_every_contribution:
  fixes g :: "'d \<Rightarrow> 'v :: comm_monoid_add"
  assumes "additive f g" "distinct pes" "pes \<noteq> []"
    and "(red_step (\<lambda>p st. CmiListReduce c h p pes (input p) (sz p) f i st)
            (\<lambda>p m st. CmiReduceHandler c h p m st) (set pes) ^^ n) s0 s"
    and "net s0 = {#}" "contributed s0 = {}" "results s0 = []"
    and "\<forall>p \<in> set pes. length (reduction_info (members s0 p)) = CmiMaxReductions \<and> slot i (members s0 p) = None"
  shows "n \<le> 2 * length pes \<and> length (results s) \<le> 1
    \<and> (\<forall>p \<in> set pes. p \<notin> contributed s \<longrightarrow> (\<exists>x. CmiListReduce c h p pes (input p) (sz p) f i (members s p) = Inr x))
    \<and> (\<forall>x \<in># net s. \<exists>y. CmiReduceHandler c h (fst x) (snd x) (members s (fst x)) = Inr y)
    \<and> (contributed s = set pes \<and> net s = {#} \<longrightarrow>
         (\<exists>r. results s = [r] \<and> g (rm_data r) = (\<Sum>p\<in>set pes. g (rm_data (input p)))))"
proof -
  have "\<forall>p \<in> set pes. list_ok pes i f p False (members s0 p) \<and> red_got i (members s0 p) = []"
    using assms(8) by (intro ballI empty_slot_ok) auto
  from reduction_protocol.reduction_complete [OF list_protocol [OF assms(1-3)] assms(4-7) this]
  show ?thesis using distinct_card [OF assms(2)] by simp
qed

theorem list_reduction_collects_every_contribution_witness:
  "\<exists>x. CmiListReduce sample_cluster 9 1 [1, 0] \<lparr>rm_handler = 3, rm_redId = 0, rm_data = {#1::nat#}\<rparr> 8
        merge_union 5 CmiReductionsInit = Inr x"
proof -
  let ?in = "\<lambda>p. \<lparr>rm_handler = 3, rm_redId = 0, rm_data = {#p#}\<rparr>"
  let ?s = "red_start (\<lambda>_. CmiReductionsInit) :: (nat multiset red_state, nat multiset) red_sys"
  have r: "(red_step (\<lambda>p st. CmiListReduce sample_cluster 9 p [1, 0] (?in p) 8 merge_union 5 st)
      (\<lambda>p m st. CmiReduceHandler sample_cluster 9 p m st) (set [1, 0]) ^^ 0) ?s ?s" by simp
  have st: "length (reduction_info (CmiReductionsInit :: nat multiset red_state)) = CmiMaxReductions
      \<and> slot 5 (CmiReductionsInit :: nat multiset red_state) = None"
    using index_less [of 5] by (simp add: CmiReductionsInit_def slot_def)
  show ?thesis
    using list_reduction_collects_every_contribution [OF additive_union _ _ r] st by (simp add: red_start_def)
qed

text \<open>C26. A reduction over the nodes collects the contribution of every node exactly once in any
  order, and the check against more messages than children never fires.\<close>

theorem node_reduction_collects_every_contribution:
  fixes g :: "'d \<Rightarrow> 'v :: comm_monoid_add"
  assumes "additive f g" "0 < c_nodes c"
    and "(red_step (\<lambda>p st. CmiNodeReduce c h p (input p) (sz p) f st)
            (\<lambda>p m st. CmiNodeReduceHandler c h p m st) {p. p < c_nodes c} ^^ n) s0 s"
    and "net s0 = {#}" "contributed s0 = {}" "results s0 = []"
    and "\<forall>p < c_nodes c. length (reduction_info (members s0 p)) = CmiMaxReductions
           \<and> reduction_counter (members s0 p) = i \<and> slot i (members s0 p) = None"
  shows "n \<le> 2 * c_nodes c \<and> length (results s) \<le> 1
    \<and> (\<forall>p < c_nodes c. p \<notin> contributed s \<longrightarrow> (\<exists>x. CmiNodeReduce c h p (input p) (sz p) f (members s p) = Inr x))
    \<and> (\<forall>x \<in># net s. \<exists>y. CmiNodeReduceHandler c h (fst x) (snd x) (members s (fst x)) = Inr y)
    \<and> (contributed s = {p. p < c_nodes c} \<and> net s = {#} \<longrightarrow>
         (\<exists>r. results s = [r] \<and> g (rm_data r) = (\<Sum>p\<in>{p. p < c_nodes c}. g (rm_data (input p)))))"
proof -
  have "\<forall>p \<in> {p. p < c_nodes c}. node_ok c i f p False (members s0 p) \<and> red_got i (members s0 p) = []"
    using assms(7) by (intro ballI empty_slot_ok) auto
  from reduction_protocol.reduction_complete [OF node_protocol [OF assms(1,2)] assms(3-6) this]
  show ?thesis by simp
qed

theorem node_reduction_collects_every_contribution_witness:
  "\<exists>x. CmiNodeReduce sample_cluster 9 1 \<lparr>rm_handler = 3, rm_redId = 0, rm_data = {#1::nat#}\<rparr> 8
        merge_union CmiReductionsInit = Inr x"
proof -
  let ?in = "\<lambda>p. \<lparr>rm_handler = 3, rm_redId = 0, rm_data = {#p#}\<rparr>"
  let ?s = "red_start (\<lambda>_. CmiReductionsInit) :: (nat multiset red_state, nat multiset) red_sys"
  have r: "(red_step (\<lambda>p st. CmiNodeReduce sample_cluster 9 p (?in p) 8 merge_union st)
      (\<lambda>p m st. CmiNodeReduceHandler sample_cluster 9 p m st) {p. p < c_nodes sample_cluster} ^^ 0) ?s ?s" by simp
  have st: "length (reduction_info (CmiReductionsInit :: nat multiset red_state)) = CmiMaxReductions
      \<and> reduction_counter (CmiReductionsInit :: nat multiset red_state) = 0
      \<and> slot 0 (CmiReductionsInit :: nat multiset red_state) = None"
    using index_less [of 0] by (simp add: CmiReductionsInit_def slot_def CmiReductionID_globalOffset_def)
  have "\<forall>p < c_nodes sample_cluster. p \<notin> contributed ?s \<longrightarrow> (\<exists>x. CmiNodeReduce sample_cluster 9 p (?in p) 8 merge_union (members ?s p) = Inr x)"
    using node_reduction_collects_every_contribution [OF additive_union _ r, of 0] st
    by (simp add: red_start_def sample_cluster_def)
  then show ?thesis by (simp add: red_start_def sample_cluster_def)
qed

end
