(* ===== verification/Msg_Memory.thy ===== *)
theory Msg_Memory
  imports Prelude
begin

text \<open>
  Message blocks and their reference counts: \<^verbatim>\<open>CmiAlloc\<close>, \<^verbatim>\<open>CmiFree\<close>, \<^verbatim>\<open>CmiReference\<close> and their helpers of
  \<^verbatim>\<open>src/convcore.cpp\<close>, and the chunk header of \<^verbatim>\<open>include/converse.h\<close>.  Memory maps the address of a block's user
  part to its chunk header; the address a new block gets from the communication backend is an
  argument, and so is the test whether a block belongs to the shared-memory pool.  A block given back to
  the backend or to the pool leaves the memory; using it afterwards is \<^verbatim>\<open>BadBlock\<close>.  Counts are
  unbounded, where the code's are 32-bit atomics.
\<close>

section \<open>Blocks\<close>

record chunk =
  c_size :: int
  c_ref :: int
  c_mr :: "nat option"
  c_zc :: "nat option"
  c_nokeep :: "bool option"

type_synonym 'z cmem = "nat \<Rightarrow> 'z chunk_scheme option"

definition CMK_REG_NO_ZC_MSG :: nat where
  "CMK_REG_NO_ZC_MSG = 0"

definition CMK_PERSISTENT_REFBASE :: int where
  "CMK_PERSISTENT_REFBASE = 0x40000000"

text \<open>Without room for a message header the header fields are not written.\<close>

definition CmiAlloc :: "nat \<Rightarrow> nat option \<Rightarrow> int \<Rightarrow> unit cmem \<Rightarrow> nat option \<times> unit cmem" where
  "CmiAlloc a mr n mem =
     (if n \<le> 0 then (None, mem)
      else (Some a, mem(a \<mapsto> \<lparr>c_size = n, c_ref = 1, c_mr = mr,
              c_zc = (if n \<ge> CmiMsgHeaderSizeBytes then Some CMK_REG_NO_ZC_MSG else None),
              c_nokeep = (if n \<ge> CmiMsgHeaderSizeBytes then Some False else None)\<rparr>)))"

text \<open>A negative count is the distance back to the enclosing block.  The walk ends because the
  addresses decrease; leaving the memory is \<open>None\<close>.\<close>

function CmiAllocFindEnclosing :: "'z cmem \<Rightarrow> nat \<Rightarrow> nat option" where
  "CmiAllocFindEnclosing mem blk =
     (case mem blk of
        None \<Rightarrow> None
      | Some c \<Rightarrow>
          if c_ref c < 0
          then if int blk + c_ref c < 0 then None else CmiAllocFindEnclosing mem (nat (int blk + c_ref c))
          else Some blk)"
  by pat_completeness auto
termination by (relation "measure snd") auto

declare CmiAllocFindEnclosing.simps [simp del]

definition ref_add :: "int \<Rightarrow> nat \<Rightarrow> 'z cmem \<Rightarrow> 'z cmem" where
  "ref_add d a mem = mem(a := map_option (\<lambda>c. c\<lparr>c_ref := c_ref c + d\<rparr>) (mem a))"

datatype free_action = NullMsg | StillReferenced | ReleasePersistent nat | FreeIpcBlock nat | FreeBlock nat | BadBlock

definition CmiFree :: "(nat \<Rightarrow> bool) \<Rightarrow> nat option \<Rightarrow> 'z cmem \<Rightarrow> free_action \<times> 'z cmem" where
  "CmiFree is_ipc msg mem =
     (case msg of
        None \<Rightarrow> (NullMsg, mem)
      | Some m \<Rightarrow>
          case CmiAllocFindEnclosing mem m of
            None \<Rightarrow> (BadBlock, mem)
          | Some p \<Rightarrow>
              let refCount = c_ref (the (mem p)); mem' = ref_add (- 1) p mem in
              if refCount > CMK_PERSISTENT_REFBASE then
                (if refCount = CMK_PERSISTENT_REFBASE + 1 then ReleasePersistent p else StillReferenced, mem')
              else if refCount = 1 then (if is_ipc p then FreeIpcBlock p else FreeBlock p, mem'(p := None))
              else (StillReferenced, mem'))"

definition CmiReference :: "nat \<Rightarrow> 'z cmem \<Rightarrow> 'z cmem" where
  "CmiReference blk mem =
     (case CmiAllocFindEnclosing mem blk of None \<Rightarrow> mem | Some p \<Rightarrow> ref_add 1 p mem)"

definition CmiGetReference :: "nat \<Rightarrow> 'z cmem \<Rightarrow> int option" where
  "CmiGetReference blk mem =
     (case CmiAllocFindEnclosing mem blk of None \<Rightarrow> None | Some p \<Rightarrow> map_option c_ref (mem p))"

definition CmiSize :: "nat \<Rightarrow> 'z cmem \<Rightarrow> int option" where
  "CmiSize blk mem = map_option c_size (mem blk)"

section \<open>Histories of one block\<close>

text \<open>Operations on a block and on the messages nested in it, each by the address it is given.\<close>

datatype ref_op = Reference nat | Free nat

fun op_block :: "ref_op \<Rightarrow> nat" where
  "op_block (Reference a) = a"
| "op_block (Free a) = a"

fun ref_ops :: "(nat \<Rightarrow> bool) \<Rightarrow> ref_op list \<Rightarrow> 'z cmem \<Rightarrow> free_action list \<times> 'z cmem" where
  "ref_ops is_ipc [] mem = ([], mem)"
| "ref_ops is_ipc (Reference a # ops) mem = ref_ops is_ipc ops (CmiReference a mem)"
| "ref_ops is_ipc (Free a # ops) mem =
     (let (act, mem1) = CmiFree is_ipc (Some a) mem; (acts, mem2) = ref_ops is_ipc ops mem1 in (act # acts, mem2))"

text \<open>The references held after each operation, given those held before; no operation may use a
  block nobody holds.\<close>

fun held :: "int \<Rightarrow> ref_op list \<Rightarrow> int option" where
  "held n [] = Some n"
| "held n (Reference a # ops) = (if n \<le> 0 then None else held (n + 1) ops)"
| "held n (Free a # ops) = (if n \<le> 0 then None else held (n - 1) ops)"

section \<open>Counting references\<close>

lemma enclosing_Some:
  assumes "CmiAllocFindEnclosing mem b = Some a"
  shows "\<exists>c. mem a = Some c \<and> 0 \<le> c_ref c"
  using assms
proof (induction mem b rule: CmiAllocFindEnclosing.induct)
  case (1 mem blk)
  from "1.prems" show ?case
    by (subst (asm) CmiAllocFindEnclosing.simps) (auto split: option.splits if_splits intro: "1.IH")
qed

lemma enclosing_ref_add:
  assumes "CmiAllocFindEnclosing mem b = Some a" and "mem a = Some c" and "0 \<le> c_ref c + d"
  shows "CmiAllocFindEnclosing (ref_add d a mem) b = Some a"
  using assms
proof (induction mem b rule: CmiAllocFindEnclosing.induct)
  case (1 mem blk)
  have c: "0 \<le> c_ref c"
    using enclosing_Some [OF "1.prems"(1)] "1.prems"(2) by auto
  obtain k where k: "mem blk = Some k"
    using "1.prems"(1) by (subst (asm) CmiAllocFindEnclosing.simps) (auto split: option.splits)
  show ?case
  proof (cases "c_ref k < 0")
    case True
    then have "0 \<le> int blk + c_ref k" and n: "CmiAllocFindEnclosing mem (nat (int blk + c_ref k)) = Some a"
      using "1.prems"(1) k by (subst (asm) CmiAllocFindEnclosing.simps, simp split: if_splits)+
    then have "CmiAllocFindEnclosing (ref_add d a mem) (nat (int blk + c_ref k)) = Some a"
      using "1.IH" [OF k True _ n "1.prems"(2,3)] by simp
    moreover have "blk \<noteq> a"
      using True k "1.prems"(2) c by auto
    ultimately show ?thesis
      using k True \<open>0 \<le> int blk + c_ref k\<close> by (subst CmiAllocFindEnclosing.simps) (simp add: ref_add_def)
  next
    case False
    then have "blk = a"
      using "1.prems"(1) k by (subst (asm) CmiAllocFindEnclosing.simps) simp
    with "1.prems"(2,3) show ?thesis
      by (subst CmiAllocFindEnclosing.simps) (simp add: ref_add_def)
  qed
qed

text \<open>What the last release of a block counted from \<^verbatim>\<open>base\<close> does.\<close>

definition last_action :: "(nat \<Rightarrow> bool) \<Rightarrow> int \<Rightarrow> nat \<Rightarrow> free_action" where
  "last_action is_ipc base a =
     (if base = 0 then if is_ipc a then FreeIpcBlock a else FreeBlock a else ReleasePersistent a)"

lemma ref_ops_result:
  assumes "mem a = Some c" and "c_ref c = base + n"
    and "base = 0 \<and> n + int (length ops) \<le> CMK_PERSISTENT_REFBASE \<or> base = CMK_PERSISTENT_REFBASE"
    and "\<forall>x \<in> set ops. CmiAllocFindEnclosing mem (op_block x) = Some a"
    and "held n ops = Some k" and "0 < n"
  shows "(if 0 < k
      then set (fst (ref_ops is_ipc ops mem)) \<subseteq> {StillReferenced}
        \<and> map_option c_ref (snd (ref_ops is_ipc ops mem) a) = Some (base + k)
      else (\<exists>m. fst (ref_ops is_ipc ops mem) = replicate m StillReferenced @ [last_action is_ipc base a]))"
  using assms
proof (induction ops arbitrary: mem c n)
  case Nil
  then show ?case
    by simp
next
  case (Cons x ops)
  have b0: "0 \<le> base"
    using Cons.prems(3) by (auto simp: CMK_PERSISTENT_REFBASE_def)
  have enc: "CmiAllocFindEnclosing mem (op_block x) = Some a"
    using Cons.prems(4) by simp
  show ?case
  proof (cases x)
    case (Reference b)
    let ?m = "ref_add 1 a mem"
    have "ref_ops is_ipc (x # ops) mem = ref_ops is_ipc ops ?m"
      using enc by (simp add: Reference CmiReference_def)
    moreover have "\<forall>y \<in> set ops. CmiAllocFindEnclosing ?m (op_block y) = Some a"
      using Cons.prems(1,2,4,6) b0 by (auto intro!: enclosing_ref_add)
    moreover have "?m a = Some (c\<lparr>c_ref := base + (n + 1)\<rparr>)"
      using Cons.prems(1,2) by (simp add: ref_add_def algebra_simps)
    ultimately show ?thesis
      using Cons.IH [of ?m "c\<lparr>c_ref := base + (n + 1)\<rparr>" "n + 1"] Cons.prems(3,5,6)
      by (simp add: Reference algebra_simps)
  next
    case (Free b)
    let ?m = "ref_add (- 1) a mem"
    show ?thesis
    proof (cases "n = 1")
      case True
      then have "ops = [] \<and> k = 0"
        using Cons.prems(5) by (cases ops rule: list.exhaust) (auto simp: Free elim: held.elims)
      then show ?thesis
        using enc Cons.prems(1,2,3) True
        by (auto simp: Free CmiFree_def Let_def last_action_def CMK_PERSISTENT_REFBASE_def intro: exI [of _ 0])
    next
      case False
      have free: "CmiFree is_ipc (Some b) mem = (StillReferenced, ?m)"
        using enc Cons.prems(1,2,3,6) False
        by (auto simp: Free CmiFree_def Let_def CMK_PERSISTENT_REFBASE_def)
      have m: "?m a = Some (c\<lparr>c_ref := base + (n - 1)\<rparr>)"
        using Cons.prems(1,2) by (simp add: ref_add_def algebra_simps)
      have e: "\<forall>y \<in> set ops. CmiAllocFindEnclosing ?m (op_block y) = Some a"
        using Cons.prems(1,2,4,6) b0 by (auto intro!: enclosing_ref_add)
      have "base = 0 \<and> n - 1 + int (length ops) \<le> CMK_PERSISTENT_REFBASE \<or> base = CMK_PERSISTENT_REFBASE"
        "held (n - 1) ops = Some k" "0 < n - 1"
        using Cons.prems(3,5,6) False by (auto simp: Free split: if_splits)
      note IH = Cons.IH [OF m _ this(1) e this(2,3), simplified]
      show ?thesis
      proof (cases "0 < k")
        case True
        with IH free show ?thesis
          by (simp add: Free split_beta)
      next
        case False
        with IH obtain j where "fst (ref_ops is_ipc ops ?m) = replicate j StillReferenced @ [last_action is_ipc base a]"
          by auto
        with False free show ?thesis
          by (auto simp: Free split_beta intro!: exI [of _ "Suc j"])
      qed
    qed
  qed
qed

text \<open>C32. A block is released exactly once, with its last reference: over any history of references
  and frees of a new block and of messages nested in it in which only held blocks are used, no free before the
  last reference does anything but count, and the one that drops the last reference gives the
  block back, an ordinary block to the allocator or the shared pool, a persistent receive buffer to
  its sender.\<close>

theorem block_released_with_last_reference:
  assumes "mem a = Some c" and "c_ref c = base + 1"
    and "base = 0 \<and> 1 + int (length ops) \<le> CMK_PERSISTENT_REFBASE \<or> base = CMK_PERSISTENT_REFBASE"
    and "\<forall>x \<in> set ops. CmiAllocFindEnclosing mem (op_block x) = Some a"
    and "held 1 ops = Some k"
  shows "(if 0 < k
      then set (fst (ref_ops is_ipc ops mem)) \<subseteq> {StillReferenced}
        \<and> map_option c_ref (snd (ref_ops is_ipc ops mem) a) = Some (base + k)
      else (\<exists>m. fst (ref_ops is_ipc ops mem) = replicate m StillReferenced @ [last_action is_ipc base a]))"
  using ref_ops_result [OF assms(1,2,3,4,5)] by simp

text \<open>A block at 1000 with a message nested 64 bytes into it.\<close>

definition sample_mem :: "unit cmem" where
  "sample_mem = (snd (CmiAlloc 1000 None 256 Map.empty))
     (1064 \<mapsto> \<lparr>c_size = 64, c_ref = - 64, c_mr = None, c_zc = None, c_nokeep = None\<rparr>)"

theorem block_released_with_last_reference_witness:
  "\<exists>m. fst (ref_ops (\<lambda>_. False) [Reference 1064, Free 1000, Free 1064] sample_mem)
     = replicate m StillReferenced @ [FreeBlock 1000]"
proof -
  have mem: "sample_mem 1000 = Some \<lparr>c_size = 256, c_ref = 1, c_mr = None, c_zc = Some 0, c_nokeep = Some False\<rparr>"
    "sample_mem 1064 = Some \<lparr>c_size = 64, c_ref = - 64, c_mr = None, c_zc = None, c_nokeep = None\<rparr>"
    by (simp_all add: sample_mem_def CmiAlloc_def CmiMsgHeaderSizeBytes_def CMK_REG_NO_ZC_MSG_def)
  have e1: "CmiAllocFindEnclosing sample_mem 1000 = Some 1000"
    by (subst CmiAllocFindEnclosing.simps) (simp add: mem)
  then have "CmiAllocFindEnclosing sample_mem 1064 = Some 1000"
    by (subst CmiAllocFindEnclosing.simps) (simp add: mem)
  with e1 mem show ?thesis
    using block_released_with_last_reference [of sample_mem 1000 _ 0 "[Reference 1064, Free 1000, Free 1064]" 0 "\<lambda>_. False"]
    by (simp add: CMK_PERSISTENT_REFBASE_def last_action_def)
qed

end
