(* ===== verification/Persistent.thy ===== *)
theory Persistent
  imports Msg_Memory
begin

text \<open>
  Persistent channels, \<^verbatim>\<open>src/persist-comm.cpp\<close> and \<^verbatim>\<open>include/persistent.h\<close>: the tables of a PE, every handler and every
  operation of the interface.  A table is a vector of pointers, so a PE has the vector and the heap its pointers
  go to; the addresses that \<^verbatim>\<open>new\<close> and \<^verbatim>\<open>posix_memalign\<close> return and the regions the backend registers are
  arguments.  Receive buffers live in a memory that maps the address of the message area to the buffer.  A region
  is named by its base address.  Operations return the list of what they ask of the
  rest of the runtime: messages and puts to send, the message to handle, messages to free.  The
  control messages themselves, which every handler frees, are not counted among the latter.
\<close>

section \<open>Data\<close>

type_synonym phandle = "nat option"

definition PERSIST_BUFFERS_NUM :: nat where
  "PERSIST_BUFFERS_NUM = 4"

definition CMK_PERSISTENT_RMR_BYTES :: nat where
  "CMK_PERSISTENT_RMR_BYTES = 2048"

definition kBufMagic :: u64 where
  "kBufMagic = 0x50455253495354"

text \<open>The header in front of the chunk header and the chunk header take 32 bytes each.\<close>

definition kMsgOffset :: nat where
  "kMsgOffset = 64"

record PersistentBufDesc =
  bd_addr :: nat
  bd_disp :: nat
  bd_rmr :: "nat option"

record 'm PersistentSendsTable =
  destPE :: int
  destNode :: int
  destNodeGlobal :: int
  s_sizeMax :: int
  isLocal :: bool
  useRdma :: bool
  setupDone :: bool
  destHandle :: phandle
  bufs :: "PersistentBufDesc list"
  busy :: "bool list"
  nextBuf :: nat
  pending :: "('m \<times> int) list"

record 'm pbuf = chunk +
  magic :: u64
  b_slot :: nat
  b_index :: nat
  b_srcPE :: int
  b_srcHandle :: phandle
  b_data :: "'m option"

type_synonym 'm pmem = "nat \<Rightarrow> 'm pbuf option"

record PersistentReceivesTable =
  r_sizeMax :: int
  r_base :: "nat list"
  r_msgPtr :: "nat list"
  r_mr :: "nat option list"

datatype 'm pmsg =
    RequestMsg int int phandle
  | ReqGrantedMsg phandle phandle "PersistentBufDesc list"
  | DataMsg phandle phandle int int int "'m option"
  | CreditMsg phandle int
  | DestroyMsg phandle

record 'm PutContext =
  pc_destHandler :: phandle
  pc_srcHandler :: phandle
  pc_destPE :: int
  pc_srcPE :: int
  pc_bufIndex :: nat
  pc_size :: int
  pc_msg :: 'm

datatype 'm pout =
    SendTo int "'m pmsg"
  | SendOrdinary int int 'm
  | IssueRput int "nat option" nat 'm int "'m PutContext"
  | HandleMessage nat
  | FreeMsg 'm

datatype perr =
    MaxBytesNotPositive | NoMemory | NoRegistration | RmrTooLarge | DestOutOfRange | BadBufIndex | BadDataSize
  | NullHandle | MessageTooLarge | NoMagic | BadPointer

text \<open>What the module uses of the machine: the number of PEs, the node of a PE, the process rank of a node,
  whether one-sided puts are available, whether a node is reached through the shared-memory pool, and the size
  of a serialized region.\<close>

record penv =
  pv_numPes :: int
  pv_nodeOf :: "int \<Rightarrow> int"
  pv_nodeFirst :: "int \<Rightarrow> int"
  pv_global :: "int \<Rightarrow> int"
  pv_rdma :: bool
  pv_ipc :: "int \<Rightarrow> bool"
  pv_rmrBytes :: nat

record 'm ppe =
  sendVec :: "nat list"
  sendHeap :: "nat \<Rightarrow> 'm PersistentSendsTable option"
  recvVec :: "nat list"
  recvHeap :: "nat \<Rightarrow> PersistentReceivesTable option"
  phs :: "phandle list option"
  phsSize :: int
  curphs :: int

text \<open>\<^verbatim>\<open>(int) ALIGN_DEFAULT((size_t) n)\<close>: rounded up to 16, reduced to 32 bits.\<close>

definition align_int :: "int \<Rightarrow> int" where
  "align_int n = sint (word_of_int ((n + 15) div 16 * 16) :: 32 word)"

definition CmiPersistentInit :: "'m ppe" where
  "CmiPersistentInit = \<lparr>sendVec = [], sendHeap = Map.empty, recvVec = [], recvHeap = Map.empty,
     phs = None, phsSize = 0, curphs = 0\<rparr>"

section \<open>Tables\<close>

definition lookupSendSlot :: "phandle \<Rightarrow> 'm ppe \<Rightarrow> (nat \<times> 'm PersistentSendsTable) option" where
  "lookupSendSlot h st =
     (case h of
        None \<Rightarrow> None
      | Some a \<Rightarrow> if a \<in> set (sendVec st) then map_option (Pair a) (sendHeap st a) else None)"

definition lookupRecvSlot :: "phandle \<Rightarrow> 'm ppe \<Rightarrow> (nat \<times> PersistentReceivesTable) option" where
  "lookupRecvSlot h st =
     (case h of
        None \<Rightarrow> None
      | Some a \<Rightarrow> if a \<in> set (recvVec st) then map_option (Pair a) (recvHeap st a) else None)"

definition set_send :: "nat \<Rightarrow> 'm PersistentSendsTable \<Rightarrow> 'm ppe \<Rightarrow> 'm ppe" where
  "set_send a s st = st\<lparr>sendHeap := (sendHeap st)(a \<mapsto> s)\<rparr>"

text \<open>A receive buffer as it is set up, \<^verbatim>\<open>slot\<close> the address of its channel.\<close>

definition fresh_buf :: "nat \<Rightarrow> nat \<Rightarrow> int \<Rightarrow> nat option \<Rightarrow> 'm pbuf" where
  "fresh_buf slot i sizeMax mr =
     \<lparr>c_size = sizeMax, c_ref = CMK_PERSISTENT_REFBASE, c_mr = mr, c_zc = None, c_nokeep = None,
      magic = kBufMagic, b_slot = slot, b_index = i, b_srcPE = - 1, b_srcHandle = None, b_data = None\<rparr>"

text \<open>The loop over the buffers: \<^verbatim>\<open>bases\<close> and \<^verbatim>\<open>mrs\<close> are what the allocator and the backend return for
  each; the pair of lists is what is stored in the slot, with the memory.\<close>

fun recv_loop ::
  "bool \<Rightarrow> nat \<Rightarrow> int \<Rightarrow> nat \<Rightarrow> nat option list \<Rightarrow> nat option list \<Rightarrow> 'm pmem
     \<Rightarrow> perr + (nat list \<times> nat option list \<times> 'm pmem)" where
  "recv_loop rdma slot sizeMax i (base # bases) (mr # mrs) mem =
     (case base of
        None \<Rightarrow> Inl NoMemory
      | Some b \<Rightarrow>
          if rdma \<and> mr = None then Inl NoRegistration
          else let mr' = (if rdma then mr else None) in
            case recv_loop rdma slot sizeMax (i + 1) bases mrs
                   (mem(b + kMsgOffset \<mapsto> fresh_buf slot i sizeMax mr')) of
              Inl e \<Rightarrow> Inl e
            | Inr (bs, ms, mem') \<Rightarrow> Inr (b # bs, mr' # ms, mem'))"
| "recv_loop rdma slot sizeMax i bases mrs mem = Inr ([], [], mem)"

definition newRecvSlot ::
  "penv \<Rightarrow> nat \<Rightarrow> nat option list \<Rightarrow> nat option list \<Rightarrow> int \<Rightarrow> 'm pmem \<Rightarrow> 'm ppe
     \<Rightarrow> perr + (PersistentReceivesTable \<times> 'm pmem \<times> 'm ppe)" where
  "newRecvSlot env a bases mrs maxBytes mem st =
     (if maxBytes \<le> 0 then Inl MaxBytesNotPositive
      else let sizeMax = align_int maxBytes in
        case recv_loop (pv_rdma env) a sizeMax 0 (take PERSIST_BUFFERS_NUM bases) (take PERSIST_BUFFERS_NUM mrs) mem of
          Inl e \<Rightarrow> Inl e
        | Inr (bs, ms, mem') \<Rightarrow>
            let slot = \<lparr>r_sizeMax = sizeMax, r_base = bs, r_msgPtr = map (\<lambda>b. b + kMsgOffset) bs, r_mr = ms\<rparr>
            in Inr (slot, mem', st\<lparr>recvVec := recvVec st @ [a], recvHeap := (recvHeap st)(a \<mapsto> slot)\<rparr>))"

definition fillBufDescs :: "penv \<Rightarrow> PersistentReceivesTable \<Rightarrow> perr + PersistentBufDesc list" where
  "fillBufDescs env slot =
     (if (\<exists>mr \<in> set (r_mr slot). mr \<noteq> None) \<and> pv_rmrBytes env > CMK_PERSISTENT_RMR_BYTES then Inl RmrTooLarge
      else Inr (map2 (\<lambda>p mr. \<lparr>bd_addr = p, bd_disp = kMsgOffset, bd_rmr = mr\<rparr>) (r_msgPtr slot) (r_mr slot)))"

definition freeRecvSlot :: "nat \<Rightarrow> PersistentReceivesTable \<Rightarrow> 'm pmem \<Rightarrow> 'm ppe \<Rightarrow> 'm pmem \<times> 'm ppe" where
  "freeRecvSlot a slot mem st =
     (\<lambda>p. if p \<in> set (r_msgPtr slot) then None else mem p, st\<lparr>recvHeap := (recvHeap st)(a := None)\<rparr>)"

definition newSendSlot ::
  "penv \<Rightarrow> int \<Rightarrow> nat \<Rightarrow> int \<Rightarrow> int \<Rightarrow> 'm ppe \<Rightarrow> perr + ('m PersistentSendsTable \<times> 'm ppe)" where
  "newSendSlot env me a dest maxBytes st =
     (if dest < 0 \<or> dest \<ge> pv_numPes env then Inl DestOutOfRange
      else let loc = (pv_nodeOf env dest = pv_nodeOf env me);
               slot = \<lparr>destPE = dest, destNode = pv_nodeOf env dest, destNodeGlobal = pv_global env (pv_nodeOf env dest),
                       s_sizeMax = align_int maxBytes, isLocal = loc, useRdma = (\<not> loc \<and> pv_rdma env),
                       setupDone = False, destHandle = None,
                       bufs = replicate PERSIST_BUFFERS_NUM \<lparr>bd_addr = 0, bd_disp = 0, bd_rmr = None\<rparr>,
                       busy = replicate PERSIST_BUFFERS_NUM False, nextBuf = 0, pending = []\<rparr>
           in Inr (slot, st\<lparr>sendVec := sendVec st @ [a], sendHeap := (sendHeap st)(a \<mapsto> slot)\<rparr>))"

definition freeSendSlot :: "nat \<Rightarrow> 'm PersistentSendsTable \<Rightarrow> 'm ppe \<Rightarrow> 'm pout list \<times> 'm ppe" where
  "freeSendSlot a slot st =
     (map (\<lambda>(m, n). FreeMsg m) (pending slot),
      st\<lparr>sendVec := remove1 a (sendVec st), sendHeap := (sendHeap st)(a := None)\<rparr>)"

section \<open>Sending\<close>

definition sendNotification :: "phandle \<Rightarrow> phandle \<Rightarrow> int \<Rightarrow> int \<Rightarrow> nat \<Rightarrow> int \<Rightarrow> 'm option \<Rightarrow> 'm pout" where
  "sendNotification destHandler srcHandler dest srcPE bufIndex n payload =
     SendTo dest (DataMsg destHandler srcHandler srcPE (int bufIndex) n payload)"

definition persistentPutDone :: "'m PutContext \<Rightarrow> 'm pout list" where
  "persistentPutDone ctx =
     [sendNotification (pc_destHandler ctx) (pc_srcHandler ctx) (pc_destPE ctx) (pc_srcPE ctx) (pc_bufIndex ctx) (pc_size ctx) None,
      FreeMsg (pc_msg ctx)]"

definition writeToBuffer ::
  "penv \<Rightarrow> int \<Rightarrow> nat \<Rightarrow> nat \<Rightarrow> int \<Rightarrow> 'm \<Rightarrow> 'm PersistentSendsTable \<Rightarrow> 'm pout list \<times> 'm PersistentSendsTable" where
  "writeToBuffer env me a bufIndex n m slot =
     (let slot' = slot\<lparr>busy := (busy slot)[bufIndex := True]\<rparr>; buf = bufs slot ! bufIndex in
      if useRdma slot \<and> \<not> pv_ipc env (destNode slot)
      then ([IssueRput (destNodeGlobal slot) (bd_rmr buf) (bd_disp buf) m n
              \<lparr>pc_destHandler = destHandle slot, pc_srcHandler = Some a, pc_destPE = destPE slot, pc_srcPE = me,
               pc_bufIndex = bufIndex, pc_size = n, pc_msg = m\<rparr>], slot')
      else ([sendNotification (destHandle slot) (Some a) (destPE slot) me bufIndex n (Some m), FreeMsg m], slot'))"

definition findFreeBuffer :: "'m PersistentSendsTable \<Rightarrow> nat option \<times> 'm PersistentSendsTable" where
  "findFreeBuffer slot =
     (case find (\<lambda>i. \<not> busy slot ! ((nextBuf slot + i) mod PERSIST_BUFFERS_NUM)) [0..<PERSIST_BUFFERS_NUM] of
        None \<Rightarrow> (None, slot)
      | Some i \<Rightarrow> let idx = (nextBuf slot + i) mod PERSIST_BUFFERS_NUM
                  in (Some idx, slot\<lparr>nextBuf := (idx + 1) mod PERSIST_BUFFERS_NUM\<rparr>))"

lemma pending_findFreeBuffer [simp]: "pending (snd (findFreeBuffer slot)) = pending slot"
  by (simp add: findFreeBuffer_def Let_def split: option.split)

lemma pending_writeToBuffer [simp]: "pending (snd (writeToBuffer env me a i n m slot)) = pending slot"
  by (simp add: writeToBuffer_def Let_def)

function flushPending ::
  "penv \<Rightarrow> int \<Rightarrow> nat \<Rightarrow> 'm PersistentSendsTable \<Rightarrow> 'm pout list \<times> 'm PersistentSendsTable" where
  "flushPending env me a slot =
     (case pending slot of
        [] \<Rightarrow> ([], slot)
      | (m, n) # rest \<Rightarrow>
          case findFreeBuffer slot of
            (None, _) \<Rightarrow> ([], slot)
          | (Some idx, slot1) \<Rightarrow>
              let (o1, slot2) = writeToBuffer env me a idx n m (slot1\<lparr>pending := rest\<rparr>);
                  (o2, slot3) = flushPending env me a slot2
              in (o1 @ o2, slot3))"
  by pat_completeness auto
termination
  by (relation "measure (\<lambda>(env, me, a, slot). length (pending slot))")
    (auto simp: writeToBuffer_def Let_def split: if_splits)

declare flushPending.simps [simp del]

section \<open>Handlers\<close>

type_synonym ('m, 's) pres = "perr + ('m pout list \<times> 's)"

definition persistentRequestHandler ::
  "penv \<Rightarrow> nat \<Rightarrow> nat option list \<Rightarrow> nat option list \<Rightarrow> int \<Rightarrow> int \<Rightarrow> phandle \<Rightarrow> 'm pmem \<times> 'm ppe
     \<Rightarrow> ('m, 'm pmem \<times> 'm ppe) pres" where
  "persistentRequestHandler env a bases mrs requestorPE maxBytes sourceHandler ms =
     (case newRecvSlot env a bases mrs maxBytes (fst ms) (snd ms) of
        Inl e \<Rightarrow> Inl e
      | Inr (slot, mem, st) \<Rightarrow>
          case fillBufDescs env slot of
            Inl e \<Rightarrow> Inl e
          | Inr descs \<Rightarrow> Inr ([SendTo requestorPE (ReqGrantedMsg sourceHandler (Some a) descs)], mem, st))"

definition persistentReqGrantedHandler ::
  "penv \<Rightarrow> int \<Rightarrow> phandle \<Rightarrow> phandle \<Rightarrow> PersistentBufDesc list \<Rightarrow> 'm ppe \<Rightarrow> 'm pout list \<times> 'm ppe" where
  "persistentReqGrantedHandler env me sourceHandler destHandler descs st =
     (case lookupSendSlot sourceHandler st of
        None \<Rightarrow> ([], st)
      | Some (a, slot) \<Rightarrow>
          let (outs, slot') = flushPending env me a (slot\<lparr>destHandle := destHandler, bufs := descs, setupDone := True\<rparr>)
          in (outs, set_send a slot' st))"

definition persistentDataHandler ::
  "phandle \<Rightarrow> phandle \<Rightarrow> int \<Rightarrow> int \<Rightarrow> int \<Rightarrow> 'm option \<Rightarrow> 'm pmem \<times> 'm ppe \<Rightarrow> ('m, 'm pmem \<times> 'm ppe) pres" where
  "persistentDataHandler destHandler srcHandler srcPE bufIndex n payload ms =
     (case lookupRecvSlot destHandler (snd ms) of
        None \<Rightarrow> Inr ([], ms)
      | Some (a, slot) \<Rightarrow>
          if bufIndex < 0 \<or> bufIndex \<ge> int PERSIST_BUFFERS_NUM then Inl BadBufIndex
          else if n < 0 \<or> n > r_sizeMax slot then Inl BadDataSize
          else let buf = r_msgPtr slot ! nat bufIndex in
            case fst ms buf of
              None \<Rightarrow> Inl BadPointer
            | Some b \<Rightarrow>
                let b' = b\<lparr>b_data := (if payload \<noteq> None then payload else b_data b), b_srcPE := srcPE,
                           b_srcHandle := srcHandler, c_size := n, c_ref := CMK_PERSISTENT_REFBASE + 1\<rparr>
                in Inr ([HandleMessage buf], (fst ms)(buf \<mapsto> b'), snd ms))"

definition persistentCreditHandler ::
  "penv \<Rightarrow> int \<Rightarrow> phandle \<Rightarrow> int \<Rightarrow> 'm ppe \<Rightarrow> ('m, 'm ppe) pres" where
  "persistentCreditHandler env me sourceHandler bufIndex st =
     (case lookupSendSlot sourceHandler st of
        None \<Rightarrow> Inr ([], st)
      | Some (a, slot) \<Rightarrow>
          if bufIndex < 0 \<or> bufIndex \<ge> int PERSIST_BUFFERS_NUM then Inl BadBufIndex
          else let (outs, slot') = flushPending env me a (slot\<lparr>busy := (busy slot)[nat bufIndex := False]\<rparr>)
               in Inr (outs, set_send a slot' st))"

definition persistentDestroyHandler :: "phandle \<Rightarrow> 'm pmem \<times> 'm ppe \<Rightarrow> 'm pmem \<times> 'm ppe" where
  "persistentDestroyHandler destHandler ms =
     (case lookupRecvSlot destHandler (snd ms) of
        None \<Rightarrow> ms
      | Some (a, slot) \<Rightarrow> freeRecvSlot a slot (fst ms) ((snd ms)\<lparr>recvVec := remove1 a (recvVec (snd ms))\<rparr>))"

section \<open>Interface\<close>

definition CmiCreatePersistent :: "penv \<Rightarrow> int \<Rightarrow> nat \<Rightarrow> int \<Rightarrow> int \<Rightarrow> 'm ppe \<Rightarrow> ('m, phandle \<times> 'm ppe) pres" where
  "CmiCreatePersistent env me a dest maxBytes st =
     (case newSendSlot env me a dest maxBytes st of
        Inl e \<Rightarrow> Inl e
      | Inr (slot, st') \<Rightarrow>
          if isLocal slot then Inr ([], Some a, set_send a (slot\<lparr>setupDone := True\<rparr>) st')
          else Inr ([SendTo dest (RequestMsg me (s_sizeMax slot) (Some a))], Some a, st'))"

definition CmiCreateNodePersistent :: "penv \<Rightarrow> int \<Rightarrow> nat \<Rightarrow> int \<Rightarrow> int \<Rightarrow> 'm ppe \<Rightarrow> ('m, phandle \<times> 'm ppe) pres" where
  "CmiCreateNodePersistent env me a node maxBytes st = CmiCreatePersistent env me a (pv_nodeFirst env node) maxBytes st"

record PersistentReq =
  req_pe :: int
  req_maxBytes :: int
  req_myHand :: phandle
  req_bufs :: "PersistentBufDesc list"

definition CmiCreateReceiverPersistent ::
  "penv \<Rightarrow> int \<Rightarrow> nat \<Rightarrow> nat option list \<Rightarrow> nat option list \<Rightarrow> int \<Rightarrow> 'm pmem \<times> 'm ppe
     \<Rightarrow> perr + (PersistentReq \<times> 'm pmem \<times> 'm ppe)" where
  "CmiCreateReceiverPersistent env me a bases mrs maxBytes ms =
     (case newRecvSlot env a bases mrs maxBytes (fst ms) (snd ms) of
        Inl e \<Rightarrow> Inl e
      | Inr (slot, mem, st) \<Rightarrow>
          case fillBufDescs env slot of
            Inl e \<Rightarrow> Inl e
          | Inr descs \<Rightarrow>
              Inr (\<lparr>req_pe = me, req_maxBytes = r_sizeMax slot, req_myHand = Some a, req_bufs = descs\<rparr>, mem, st))"

definition CmiRegisterReceivePersistent :: "penv \<Rightarrow> int \<Rightarrow> nat \<Rightarrow> PersistentReq \<Rightarrow> 'm ppe \<Rightarrow> perr + (phandle \<times> 'm ppe)" where
  "CmiRegisterReceivePersistent env me a req st =
     (case newSendSlot env me a (req_pe req) (req_maxBytes req) st of
        Inl e \<Rightarrow> Inl e
      | Inr (slot, st') \<Rightarrow>
          Inr (Some a, set_send a (slot\<lparr>destHandle := req_myHand req, bufs := req_bufs req, setupDone := True\<rparr>) st'))"

definition CmiSendPersistentMsg :: "penv \<Rightarrow> int \<Rightarrow> phandle \<Rightarrow> int \<Rightarrow> 'm \<Rightarrow> 'm ppe \<Rightarrow> ('m, 'm ppe) pres" where
  "CmiSendPersistentMsg env me h n m st =
     (case h of
        None \<Rightarrow> Inl NullHandle
      | Some a \<Rightarrow>
          case sendHeap st a of
            None \<Rightarrow> Inl BadPointer
          | Some slot \<Rightarrow>
              if n > s_sizeMax slot then Inl MessageTooLarge
              else if isLocal slot then Inr ([SendOrdinary (destPE slot) n m], st)
              else if \<not> setupDone slot \<or> pending slot \<noteq> [] then
                (let slot1 = slot\<lparr>pending := pending slot @ [(m, n)]\<rparr> in
                 if setupDone slot
                 then let (outs, slot2) = flushPending env me a slot1 in Inr (outs, set_send a slot2 st)
                 else Inr ([], set_send a slot1 st))
              else case findFreeBuffer slot of
                (None, slot1) \<Rightarrow> Inr ([], set_send a (slot1\<lparr>pending := pending slot1 @ [(m, n)]\<rparr>) st)
              | (Some idx, slot1) \<Rightarrow>
                  let (outs, slot2) = writeToBuffer env me a idx n m slot1 in Inr (outs, set_send a slot2 st))"

definition CmiUsePersistentHandle :: "phandle list option \<Rightarrow> int \<Rightarrow> 'm ppe \<Rightarrow> 'm ppe" where
  "CmiUsePersistentHandle p n st =
     (case p of
        None \<Rightarrow> st\<lparr>phs := None, phsSize := 0, curphs := 0\<rparr>
      | Some hs \<Rightarrow>
          if n \<le> 0 \<or> n = 1 \<and> hd hs = None then st\<lparr>phs := None, phsSize := 0, curphs := 0\<rparr>
          else st\<lparr>phs := p, phsSize := n, curphs := 0\<rparr>)"

definition CmiPersistentOneSend :: "'m ppe \<Rightarrow> 'm ppe" where
  "CmiPersistentOneSend st = (if phs st \<noteq> None then st\<lparr>curphs := (curphs st + 1) mod phsSize st\<rparr> else st)"

text \<open>The first component tells whether the message was taken over.\<close>

definition CmiPersistentHandleSend :: "penv \<Rightarrow> int \<Rightarrow> int \<Rightarrow> int \<Rightarrow> 'm \<Rightarrow> 'm ppe \<Rightarrow> perr + (bool \<times> 'm pout list \<times> 'm ppe)" where
  "CmiPersistentHandleSend env me dest n m st =
     (case phs st of
        None \<Rightarrow> Inl BadPointer
      | Some hs \<Rightarrow>
          if \<not> nat (curphs st) < length hs then Inl BadPointer
          else let h = hs ! nat (curphs st); st1 = CmiPersistentOneSend st in
            case lookupSendSlot h st1 of
              None \<Rightarrow> Inr (False, [], st1)
            | Some (a, slot) \<Rightarrow>
                if destPE slot \<noteq> dest then Inr (False, [], st1)
                else case CmiSendPersistentMsg env me h n m st1 of
                       Inl e \<Rightarrow> Inl e
                     | Inr (outs, st2) \<Rightarrow> Inr (True, outs, st2))"

definition CmiSyncSendAndFree :: "penv \<Rightarrow> int \<Rightarrow> int \<Rightarrow> int \<Rightarrow> 'm \<Rightarrow> 'm ppe \<Rightarrow> ('m, 'm ppe) pres" where
  "CmiSyncSendAndFree env me dest n m st =
     (if phs st \<noteq> None
      then case CmiPersistentHandleSend env me dest n m st of
             Inl e \<Rightarrow> Inl e
           | Inr (taken, outs, st') \<Rightarrow> if taken then Inr (outs, st') else Inr ([SendOrdinary dest n m], st')
      else Inr ([SendOrdinary dest n m], st))"

definition CmiPersistentReleaseBuffer :: "nat \<Rightarrow> 'm pmem \<Rightarrow> ('m, 'm pmem) pres" where
  "CmiPersistentReleaseBuffer m mem =
     (case mem m of
        None \<Rightarrow> Inl BadPointer
      | Some b \<Rightarrow>
          if magic b \<noteq> kBufMagic then Inl NoMagic
          else let mem' = mem(m \<mapsto> b\<lparr>b_srcPE := - 1, b_srcHandle := None\<rparr>) in
            case b_srcHandle b of
              None \<Rightarrow> Inr ([], mem')
            | Some h \<Rightarrow> Inr ([SendTo (b_srcPE b) (CreditMsg (Some h) (int (b_index b)))], mem'))"

text \<open>\<^verbatim>\<open>CmiFree\<close> of a received message: the last reference gives the buffer back.\<close>

definition free_received :: "nat \<Rightarrow> 'm pmem \<Rightarrow> ('m, 'm pmem) pres" where
  "free_received m mem =
     (case CmiFree (\<lambda>_. False) (Some m) mem of
        (ReleasePersistent p, mem') \<Rightarrow> CmiPersistentReleaseBuffer p mem'
      | (BadBlock, _) \<Rightarrow> Inl BadPointer
      | (_, mem') \<Rightarrow> Inr ([], mem'))"

definition CmiDestroyPersistent :: "phandle \<Rightarrow> 'm ppe \<Rightarrow> 'm pout list \<times> 'm ppe" where
  "CmiDestroyPersistent h st =
     (case lookupSendSlot h st of
        None \<Rightarrow> ([], st)
      | Some (a, slot) \<Rightarrow>
          let (outs, st') = freeSendSlot a slot st
          in ((if destHandle slot \<noteq> None then [SendTo (destPE slot) (DestroyMsg (destHandle slot))] else []) @ outs, st'))"

fun destroy_sends :: "nat list \<Rightarrow> 'm ppe \<Rightarrow> 'm pout list \<times> 'm ppe" where
  "destroy_sends [] st = ([], st)"
| "destroy_sends (a # as) st =
     (let (o1, st1) = CmiDestroyPersistent (Some a) st; (o2, st2) = destroy_sends as st1 in (o1 @ o2, st2))"

fun free_recvs :: "nat list \<Rightarrow> 'm pmem \<times> 'm ppe \<Rightarrow> 'm pmem \<times> 'm ppe" where
  "free_recvs [] ms = ms"
| "free_recvs (a # as) ms =
     (case recvHeap (snd ms) a of
        None \<Rightarrow> free_recvs as ms
      | Some slot \<Rightarrow> free_recvs as (freeRecvSlot a slot (fst ms) (snd ms)))"

definition CmiDestroyAllPersistent :: "'m pmem \<times> 'm ppe \<Rightarrow> 'm pout list \<times> 'm pmem \<times> 'm ppe" where
  "CmiDestroyAllPersistent ms =
     (let (outs, st1) = destroy_sends (sendVec (snd ms)) (snd ms);
          st2 = st1\<lparr>sendVec := []\<rparr>;
          (mem, st3) = free_recvs (recvVec st2) (fst ms, st2\<lparr>recvVec := []\<rparr>)
      in (outs, mem, CmiUsePersistentHandle None 0 st3))"

end
