(* ===== verification/List_Send.thy ===== *)
theory List_Send
  imports Broadcast Persistent
begin

text \<open>
  Groups, list sends and multicasts of \<^verbatim>\<open>src/collectives.cpp\<close>.  A group is a named list of PEs, kept
  in a chained hash table on every PE.  A list send makes one message per destination process:
  the payload with a trailer of 32-bit words behind it, the number of ranks, the payload's
  handler and the ranks, from which the fan-out handler serves the ranks of its process.

  A message is its header fields, its payload and, for a fan-out message, its trailer with the offset it is
  stored at.  Every send goes through \<^verbatim>\<open>CmiSyncSendAndFree\<close>: an installed handle array may hand it to a
  persistent channel (theory \<^verbatim>\<open>Persistent\<close>, whose state is passed along), and an ordinary send
  aborts for a PE outside the run.  The length a caller passes is that of its message.
\<close>

section \<open>Groups\<close>

record CmiGroup =
  g_pe :: u32
  g_id :: u32

record GroupDef =
  gd_group :: CmiGroup
  gd_npes :: nat
  gd_pes :: "nat list"

definition GROUPTAB_SIZE :: nat where
  "GROUPTAB_SIZE = 101"

record group_state =
  CmiGroupTable :: "GroupDef list list"
  CmiGroupCounter :: u32

definition group_init :: group_state where
  "group_init = \<lparr>CmiGroupTable = replicate GROUPTAB_SIZE [], CmiGroupCounter = 0\<rparr>"

definition bucket :: "CmiGroup \<Rightarrow> nat" where
  "bucket g = unat (xor (g_id g) (g_pe g) mod of_nat GROUPTAB_SIZE)"

definition CmiGroupHandler :: "GroupDef \<Rightarrow> group_state \<Rightarrow> group_state" where
  "CmiGroupHandler d s =
     (let b = bucket (gd_group d)
      in s\<lparr>CmiGroupTable := (CmiGroupTable s)[b := d # CmiGroupTable s ! b]\<rparr>)"

text \<open>The group, its definition, which is broadcast to the other PEs, and the new state.\<close>

definition CmiEstablishGroup :: "nat \<Rightarrow> nat list \<Rightarrow> group_state \<Rightarrow> CmiGroup \<times> GroupDef \<times> group_state" where
  "CmiEstablishGroup mype pes s =
     (let grp = \<lparr>g_pe = of_nat mype, g_id = CmiGroupCounter s\<rparr>;
          s1 = s\<lparr>CmiGroupCounter := CmiGroupCounter s + 1\<rparr>;
          d = \<lparr>gd_group = grp, gd_npes = length pes, gd_pes = pes\<rparr>
      in (grp, d, CmiGroupHandler d s1))"

fun lookup_chain :: "CmiGroup \<Rightarrow> GroupDef list \<Rightarrow> nat \<times> nat list" where
  "lookup_chain g [] = (0, [])"
| "lookup_chain g (d # ds) =
     (if g_id (gd_group d) = g_id g \<and> g_pe (gd_group d) = g_pe g then (gd_npes d, gd_pes d)
      else lookup_chain g ds)"

definition CmiLookupGroup :: "CmiGroup \<Rightarrow> group_state \<Rightarrow> nat \<times> nat list" where
  "CmiLookupGroup g s = lookup_chain g (CmiGroupTable s ! bucket g)"

section \<open>List sends\<close>

record 'p lmsg =
  l_handler :: "16 word"
  l_size :: int
  l_destPE :: nat
  l_data :: 'p
  l_trailer :: "(u64 \<times> u32 list) option"

definition CmiFanoutTrailerOffset :: "u64 \<Rightarrow> u64" where
  "CmiFanoutTrailerOffset len = and (len + 8 - 1) (not (8 - 1))"

definition CmiFanoutTrailerFixed :: nat where
  "CmiFanoutTrailerFixed = 2"

definition CmiFanoutTotalSize :: "u64 \<Rightarrow> nat \<Rightarrow> u64" where
  "CmiFanoutTotalSize len nranks =
     CmiFanoutTrailerOffset len + of_nat (CmiFanoutTrailerFixed + nranks) * 4"

text \<open>What a send does: a message for a PE, to be pushed there or carried by the pool or the network, or
  what the code of a channel does with it.\<close>

datatype 'p lout =
    Ordinary nat "'p lmsg"
  | ByChannel "'p lmsg pout"

datatype list_error =
    DestnodeOutOfRange nat
  | BadBlock int
  | ChannelError perr
  | GroupNotFound

type_synonym 'p lres = "list_error + 'p lout list \<times> 'p lmsg ppe"

definition CmiSyncSendAndFreeNoPersistent :: "cluster \<Rightarrow> nat \<Rightarrow> 'p lmsg \<Rightarrow> list_error + 'p lout" where
  "CmiSyncSendAndFreeNoPersistent c dest m =
     (if nodeOf c dest < c_nodes c then Inr (Ordinary dest (m\<lparr>l_destPE := dest\<rparr>)) else Inl (DestnodeOutOfRange dest))"

fun each_out :: "cluster \<Rightarrow> 'p lmsg pout list \<Rightarrow> list_error + 'p lout list" where
  "each_out c [] = Inr []"
| "each_out c (o1 # os) =
     bindE (case o1 of SendOrdinary dest n m \<Rightarrow> CmiSyncSendAndFreeNoPersistent c (nat dest) m | _ \<Rightarrow> Inr (ByChannel o1))
       (\<lambda>x. bindE (each_out c os) (\<lambda>xs. Inr (x # xs)))"

definition CmiSyncSendAndFree :: "cluster \<Rightarrow> penv \<Rightarrow> nat \<Rightarrow> nat \<Rightarrow> int \<Rightarrow> 'p lmsg \<Rightarrow> 'p lmsg ppe \<Rightarrow> 'p lres" where
  "CmiSyncSendAndFree c env mype dest len m st =
     (case Persistent.CmiSyncSendAndFree env (int mype) (int dest) len m st of
        Inl e \<Rightarrow> Inl (ChannelError e)
      | Inr (outs, st') \<Rightarrow> bindE (each_out c outs) (\<lambda>xs. Inr (xs, st')))"

text \<open>\<^verbatim>\<open>CmiSyncSend\<close> copies \<^verbatim>\<open>len\<close> bytes, so a trailer does not travel with the copy; \<^verbatim>\<open>CmiAlloc\<close> has no block for a
  length that is not positive.\<close>

definition CmiSyncSend :: "cluster \<Rightarrow> penv \<Rightarrow> nat \<Rightarrow> int \<Rightarrow> 'p lmsg \<Rightarrow> nat \<Rightarrow> 'p lmsg ppe \<Rightarrow> 'p lres" where
  "CmiSyncSend c env mype len m dest st =
     (if len \<le> 0 then Inl (BadBlock len) else CmiSyncSendAndFree c env mype dest len (m\<lparr>l_trailer := None\<rparr>) st)"

fun send_each :: "(nat \<Rightarrow> 'p lmsg ppe \<Rightarrow> 'p lres) \<Rightarrow> nat list \<Rightarrow> 'p lmsg ppe \<Rightarrow> 'p lres" where
  "send_each f [] st = Inr ([], st)"
| "send_each f (pe # pes) st =
     bindE (f pe st) (\<lambda>(xs, st1). bindE (send_each f pes st1) (\<lambda>(ys, st2). Inr (xs @ ys, st2)))"


text \<open>\<^verbatim>\<open>CmiAlloc\<close> takes an \<^verbatim>\<open>int\<close>: a total size that does not fit one gives no block, or one that is too short.\<close>

definition CmiListSendToProcess ::
  "cluster \<Rightarrow> penv \<Rightarrow> 16 word \<Rightarrow> nat \<Rightarrow> nat list \<Rightarrow> int \<Rightarrow> 'p lmsg \<Rightarrow> 'p lmsg ppe \<Rightarrow> 'p lres" where
  "CmiListSendToProcess c env fanoutHandler mype dests len m st =
     (if length dests = 1 \<or> len < CmiMsgHeaderSizeBytes
      then send_each (CmiSyncSend c env mype len m) dests st
      else let size = CmiFanoutTotalSize (of_int len) (length dests);
               total = sint (ucast size :: u32)
           in if uint size \<noteq> total then Inl (BadBlock total)
              else CmiSyncSendAndFree c env mype (hd dests) total
                     (m\<lparr>l_size := len,
                        l_trailer := Some (CmiFanoutTrailerOffset (of_int len),
                                       of_nat (length dests) # scast (l_handler m)
                                       # map (\<lambda>pe. of_nat (rankOf c pe)) dests),
                        l_handler := fanoutHandler\<rparr>) st)"

text \<open>The loop over the destinations sorted by process: \<^verbatim>\<open>todo\<close> are the PEs from position \<^verbatim>\<open>i\<close> on.\<close>

function send_loop ::
  "cluster \<Rightarrow> penv \<Rightarrow> 16 word \<Rightarrow> nat \<Rightarrow> int \<Rightarrow> 'p lmsg \<Rightarrow> nat list \<Rightarrow> 'p lmsg ppe \<Rightarrow> 'p lres" where
  "send_loop c env fanoutHandler mype len m [] st = Inr ([], st)"
| "send_loop c env fanoutHandler mype len m (pe # todo) st =
     (let node = nodeOf c pe;
          same = takeWhile (\<lambda>q. nodeOf c q = node) todo;
          rest = dropWhile (\<lambda>q. nodeOf c q = node) todo
      in bindE (if node = nodeOf c mype then send_each (CmiSyncSend c env mype len m) (pe # same) st
                else CmiListSendToProcess c env fanoutHandler mype (pe # same) len m st)
           (\<lambda>(xs, st1). bindE (send_loop c env fanoutHandler mype len m rest st1) (\<lambda>(ys, st2). Inr (xs @ ys, st2))))"
  by pat_completeness auto
termination
  by (relation "measure (\<lambda>(c, env, h, n, len, m, todo, st). length todo)")
    (auto simp: le_imp_less_Suc length_dropWhile_le)

definition CmiSyncListSend ::
  "cluster \<Rightarrow> penv \<Rightarrow> 16 word \<Rightarrow> nat \<Rightarrow> nat list \<Rightarrow> int \<Rightarrow> 'p lmsg \<Rightarrow> 'p lmsg ppe \<Rightarrow> 'p lres" where
  "CmiSyncListSend c env fanoutHandler mype pes len m st =
     (if length pes = 0 then Inr ([], st)
      else if length pes = 1 \<or> c_nodes c = 1 \<or> phs st \<noteq> None then send_each (CmiSyncSend c env mype len m) pes st
      else let order = sort_key (\<lambda>a. nodeOf c (pes ! a)) [0..<length pes]
           in send_loop c env fanoutHandler mype len m (map (\<lambda>a. pes ! a) order) st)"

definition CmiSyncMulticast ::
  "cluster \<Rightarrow> penv \<Rightarrow> 16 word \<Rightarrow> nat \<Rightarrow> CmiGroup \<Rightarrow> int \<Rightarrow> 'p lmsg \<Rightarrow> group_state \<Rightarrow> 'p lmsg ppe \<Rightarrow> 'p lres" where
  "CmiSyncMulticast c env fanoutHandler mype grp len m s st =
     (let (npes, pes) = CmiLookupGroup grp s in
      if npes = 0 then Inl GroupNotFound
      else CmiSyncListSend c env fanoutHandler mype (take npes pes) len m st)"




section \<open>Groups as a finite map\<close>

definition groups_ok :: "group_state \<Rightarrow> bool" where
  "groups_ok s \<longleftrightarrow> length (CmiGroupTable s) = GROUPTAB_SIZE"

lemma bucket_less: "bucket g < GROUPTAB_SIZE"
proof -
  have "xor (g_id g) (g_pe g) mod 101 < (101 :: u32)" by (rule word_mod_less_divisor) simp
  then have "unat (xor (g_id g) (g_pe g) mod 101) < unat (101 :: u32)" by (simp only: word_less_nat_alt)
  then show ?thesis by (simp add: bucket_def GROUPTAB_SIZE_def)
qed

lemma lookup_insert:
  assumes "groups_ok s"
  shows "CmiLookupGroup g (CmiGroupHandler d s) = (if g = gd_group d then (gd_npes d, gd_pes d) else CmiLookupGroup g s)"
proof -
  have "g = gd_group d \<longleftrightarrow> g_id (gd_group d) = g_id g \<and> g_pe (gd_group d) = g_pe g"
    by (auto intro: CmiGroup.equality)
  then show ?thesis
    using assms bucket_less [of "gd_group d"]
    by (cases "bucket g = bucket (gd_group d)")
      (auto simp: CmiLookupGroup_def CmiGroupHandler_def groups_ok_def Let_def)
qed

lemma insert_ok: "groups_ok s \<Longrightarrow> groups_ok (CmiGroupHandler d s)"
  by (simp add: groups_ok_def CmiGroupHandler_def Let_def)

section \<open>What a list send delivers\<close>








section \<open>Without a handle array\<close>



















section \<open>Properties\<close>


definition sample_lmsg :: "nat lmsg" where
  "sample_lmsg = \<lparr>l_handler = 5, l_size = 64, l_destPE = 0, l_data = 42, l_trailer = None\<rparr>"


text \<open>C28. The group tables are finite maps: on every PE that has received the definition of a new
  group, a lookup gives that group's PEs and leaves the other groups as they were, and a
  multicast makes the list send to exactly these PEs; for a group that is unknown there, or has
  no PEs, it aborts.\<close>

theorem group_table_is_a_map:
  assumes "groups_ok s" "groups_ok t" "CmiEstablishGroup mype pes s = (grp, d, s')"
  shows "groups_ok s' \<and> groups_ok (CmiGroupHandler d t)
    \<and> CmiLookupGroup grp s' = (length pes, pes)
    \<and> CmiLookupGroup grp (CmiGroupHandler d t) = (length pes, pes)
    \<and> (\<forall>g. g \<noteq> grp \<longrightarrow> CmiLookupGroup g s' = CmiLookupGroup g s
         \<and> CmiLookupGroup g (CmiGroupHandler d t) = CmiLookupGroup g t)
    \<and> CmiSyncMulticast c env h mype' grp len m (CmiGroupHandler d t) st =
        (if pes = [] then Inl GroupNotFound else CmiSyncListSend c env h mype' pes len m st)
    \<and> CmiSyncMulticast c env h mype' grp len m group_init st = Inl GroupNotFound"
proof -
  let ?s1 = "s\<lparr>CmiGroupCounter := CmiGroupCounter s + 1\<rparr>"
  have d: "gd_group d = grp" "gd_npes d = length pes" "gd_pes d = pes" "s' = CmiGroupHandler d ?s1"
    using assms(3) by (auto simp: CmiEstablishGroup_def Let_def)
  have ok1: "groups_ok ?s1" using assms(1) by (simp add: groups_ok_def)
  have same: "CmiLookupGroup g ?s1 = CmiLookupGroup g s" for g by (simp add: CmiLookupGroup_def)
  have "CmiLookupGroup grp group_init = (0, [])"
    using bucket_less [of grp] by (simp add: CmiLookupGroup_def group_init_def)
  then show ?thesis
    using lookup_insert [OF ok1, of _ d] lookup_insert [OF assms(2), of _ d] insert_ok [OF ok1] insert_ok [OF assms(2)] d same
    by (auto simp: CmiSyncMulticast_def)
qed

theorem group_table_is_a_map_witness:
  "CmiLookupGroup \<lparr>g_pe = 2, g_id = 0\<rparr> (snd (snd (CmiEstablishGroup 2 [1, 5] group_init))) = (2, [1, 5])"
proof -
  have g: "groups_ok group_init" by (simp add: groups_ok_def group_init_def)
  obtain grp d s' where e: "CmiEstablishGroup 2 [1, 5] group_init = (grp, d, s')" by (metis prod_cases3)
  then have "grp = \<lparr>g_pe = 2, g_id = 0\<rparr>" by (auto simp: CmiEstablishGroup_def Let_def group_init_def)
  then show ?thesis using group_table_is_a_map [OF g g e, of undefined undefined 0 0 0 sample_lmsg] e by simp
qed

end
