(* ===== verification/Conditions.thy ===== *)
theory Conditions
  imports Complex_Main "HOL-Library.Sublist" Prelude
begin

text \<open>
  Conditional and timed callbacks, \<^verbatim>\<open>src/conv-conds.cpp\<close>: the one-shot and the permanent callback
  lists of every condition, the heap of timed callbacks, and the periodic conditions.  A callback
  is a function and its argument; running one is the parameter \<^verbatim>\<open>run\<close>, any change of the state, so
  that callbacks may register callbacks and raise conditions themselves; the time of the check, which
  timed callbacks are passed, is fixed by the choice of \<^verbatim>\<open>run\<close>.  Operations that run
  callbacks also return the callbacks they ran themselves.  Times are exact numbers, in seconds;
  the time read from the clock is an argument.  The handle counters are unbounded.
\<close>

section \<open>State\<close>

record ('f, 'a) cond_callback =
  cc_fn :: 'f
  cc_arg :: 'a
  cc_id :: int

record ('f, 'a) cblist =
  elems :: "('f, 'a) cond_callback list"
  cb_flag :: bool
  nextId :: int

record ('f, 'a) heap_elem =
  he_time :: real
  he_fn :: 'f
  he_arg :: 'a
  he_pe :: int

record ('f, 'a) ccd =
  condcb :: "nat \<Rightarrow> ('f, 'a) cblist"
  condcb_keep :: "nat \<Rightarrow> ('f, 'a) cblist"
  num_timed_cond_cbs :: int
  ccd_timers :: "('f, 'a) heap_elem list"
  lastCheck :: real
  nextCall :: "real list"
  nSkip :: nat
  resolution :: real
  numchecks :: int

definition CcdPERIODIC_FIRST :: nat where
  "CcdPERIODIC_FIRST = 5"

definition CcdPERIODIC_LAST :: nat where
  "CcdPERIODIC_LAST = 18"

definition CCD_PERIODIC_MAX :: nat where
  "CCD_PERIODIC_MAX = CcdPERIODIC_LAST - CcdPERIODIC_FIRST"

definition CcdIGNOREPE :: int where
  "CcdIGNOREPE = - 2"

definition periodicCallInterval :: "real list" where
  "periodicCallInterval = [0.001, 0.010, 0.100, 1, 5, 10, 60, 2 * 60, 5 * 60, 10 * 60, 3600, 12 * 3600, 24 * 3600]"

definition isTimed :: "nat \<Rightarrow> bool" where
  "isTimed condnum \<longleftrightarrow> CcdPERIODIC_FIRST \<le> condnum \<and> condnum < CcdPERIODIC_LAST"

section \<open>Callback lists\<close>

text \<open>The list operations work on a list of the state and on the count of timed callbacks.\<close>

fun erase_id :: "int \<Rightarrow> ('f, 'a) cond_callback list \<Rightarrow> ('f, 'a) cond_callback list \<times> bool" where
  "erase_id i [] = ([], False)"
| "erase_id i (x # xs) = (if cc_id x = i then (xs, True) else (let (ys, b) = erase_id i xs in (x # ys, b)))"

definition remove_elem :: "('f, 'a) cblist \<Rightarrow> nat \<Rightarrow> int \<Rightarrow> int \<Rightarrow> ('f, 'a) cblist \<times> int" where
  "remove_elem l condnum i timed =
     (let (ys, found) = erase_id i (elems l)
      in (l\<lparr>elems := ys\<rparr>, if found \<and> isTimed condnum then timed - 1 else timed))"

definition remove_n_elems :: "('f, 'a) cblist \<Rightarrow> nat \<Rightarrow> nat \<Rightarrow> int \<Rightarrow> ('f, 'a) cblist \<times> int" where
  "remove_n_elems l condnum n timed =
     (if n = 0 \<or> length (elems l) < n then (l, timed)
      else (l\<lparr>elems := drop n (elems l)\<rparr>, if isTimed condnum then timed - int n else timed))"

definition append_elem :: "('f, 'a) cblist \<Rightarrow> nat \<Rightarrow> 'f \<Rightarrow> 'a \<Rightarrow> int \<Rightarrow> int \<times> ('f, 'a) cblist \<times> int" where
  "append_elem l condnum fn arg timed =
     (let i = nextId l
      in (i, l\<lparr>elems := elems l @ [\<lparr>cc_fn = fn, cc_arg = arg, cc_id = i\<rparr>], nextId := i + 1\<rparr>,
          if isTimed condnum then timed + 1 else timed))"

definition CcdCallOnCondition :: "nat \<Rightarrow> 'f \<Rightarrow> 'a \<Rightarrow> ('f, 'a) ccd \<Rightarrow> int \<times> ('f, 'a) ccd" where
  "CcdCallOnCondition condnum fn arg s =
     (let (i, l, t) = append_elem (condcb s condnum) condnum fn arg (num_timed_cond_cbs s)
      in (i, s\<lparr>condcb := (condcb s)(condnum := l), num_timed_cond_cbs := t\<rparr>))"

definition CcdCallOnConditionKeep :: "nat \<Rightarrow> 'f \<Rightarrow> 'a \<Rightarrow> ('f, 'a) ccd \<Rightarrow> int \<times> ('f, 'a) ccd" where
  "CcdCallOnConditionKeep condnum fn arg s =
     (let (i, l, t) = append_elem (condcb_keep s condnum) condnum fn arg (num_timed_cond_cbs s)
      in (i, s\<lparr>condcb_keep := (condcb_keep s)(condnum := l), num_timed_cond_cbs := t\<rparr>))"

definition CcdCancelCallOnCondition :: "nat \<Rightarrow> int \<Rightarrow> ('f, 'a) ccd \<Rightarrow> ('f, 'a) ccd" where
  "CcdCancelCallOnCondition condnum i s =
     (let (l, t) = remove_elem (condcb s condnum) condnum i (num_timed_cond_cbs s)
      in s\<lparr>condcb := (condcb s)(condnum := l), num_timed_cond_cbs := t\<rparr>)"

definition CcdCancelCallOnConditionKeep :: "nat \<Rightarrow> int \<Rightarrow> ('f, 'a) ccd \<Rightarrow> ('f, 'a) ccd" where
  "CcdCancelCallOnConditionKeep condnum i s =
     (let (l, t) = remove_elem (condcb_keep s condnum) condnum i (num_timed_cond_cbs s)
      in s\<lparr>condcb_keep := (condcb_keep s)(condnum := l), num_timed_cond_cbs := t\<rparr>)"

section \<open>Raising a condition\<close>

type_synonym ('f, 'a) runner = "'f \<Rightarrow> 'a \<Rightarrow> ('f, 'a) ccd \<Rightarrow> ('f, 'a) ccd"

text \<open>The loop of both list calls: the element is read when its turn comes, since callbacks may have
  appended to the list meanwhile.\<close>

fun call_loop ::
  "('f, 'a) runner \<Rightarrow> (('f, 'a) ccd \<Rightarrow> ('f, 'a) cblist) \<Rightarrow> nat list \<Rightarrow> ('f, 'a) ccd
     \<Rightarrow> ('f, 'a) cond_callback list \<times> ('f, 'a) ccd" where
  "call_loop run sel [] s = ([], s)"
| "call_loop run sel (i # is) s =
     (let cb = elems (sel s) ! i;
          (calls, s') = call_loop run sel is (run (cc_fn cb) (cc_arg cb) s)
      in (cb # calls, s'))"

definition call_cblist_keep ::
  "('f, 'a) runner \<Rightarrow> nat \<Rightarrow> ('f, 'a) ccd \<Rightarrow> ('f, 'a) cond_callback list \<times> ('f, 'a) ccd" where
  "call_cblist_keep run condnum s =
     call_loop run (\<lambda>s. condcb_keep s condnum) [0..<length (elems (condcb_keep s condnum))] s"

definition set_flag :: "nat \<Rightarrow> bool \<Rightarrow> ('f, 'a) ccd \<Rightarrow> ('f, 'a) ccd" where
  "set_flag condnum b s = s\<lparr>condcb := (condcb s)(condnum := (condcb s condnum)\<lparr>cb_flag := b\<rparr>)\<rparr>"

definition call_cblist_remove ::
  "('f, 'a) runner \<Rightarrow> nat \<Rightarrow> ('f, 'a) ccd \<Rightarrow> ('f, 'a) cond_callback list \<times> ('f, 'a) ccd" where
  "call_cblist_remove run condnum s =
     (let len = length (elems (condcb s condnum)) in
      if len = 0 \<or> cb_flag (condcb s condnum) then ([], s)
      else let (calls, s1) = call_loop run (\<lambda>s. condcb s condnum) (rev [0..<len]) (set_flag condnum True s);
               (l, t) = remove_n_elems (condcb s1 condnum) condnum len (num_timed_cond_cbs s1);
               s2 = s1\<lparr>condcb := (condcb s1)(condnum := l), num_timed_cond_cbs := t\<rparr>
           in (calls, set_flag condnum False s2))"

definition CcdRaiseCondition ::
  "('f, 'a) runner \<Rightarrow> nat \<Rightarrow> ('f, 'a) ccd \<Rightarrow> ('f, 'a) cond_callback list \<times> ('f, 'a) ccd" where
  "CcdRaiseCondition run condnum s =
     (let (c1, s1) = call_cblist_remove run condnum s;
          (c2, s2) = call_cblist_keep run condnum s1
      in (c1 @ c2, s2))"

section \<open>Timed callbacks\<close>

text \<open>The priority queue is the list of its entries by time; entries of equal time, whose order the
  library leaves open, are kept in the order of their insertion.\<close>

definition ccd_heap_insert :: "real \<Rightarrow> 'f \<Rightarrow> 'a \<Rightarrow> int \<Rightarrow> ('f, 'a) ccd \<Rightarrow> ('f, 'a) ccd" where
  "ccd_heap_insert t fn arg pe s =
     s\<lparr>ccd_timers := filter (\<lambda>e. he_time e \<le> t) (ccd_timers s)
        @ \<lparr>he_time = t, he_fn = fn, he_arg = arg, he_pe = pe\<rparr> # filter (\<lambda>e. t < he_time e) (ccd_timers s)\<rparr>"

definition CcdNumTimerCBs :: "('f, 'a) ccd \<Rightarrow> int" where
  "CcdNumTimerCBs s = int (length (ccd_timers s)) + num_timed_cond_cbs s"

definition CcdCallFnAfterOnPE :: "real \<Rightarrow> 'f \<Rightarrow> 'a \<Rightarrow> real \<Rightarrow> int \<Rightarrow> ('f, 'a) ccd \<Rightarrow> ('f, 'a) ccd" where
  "CcdCallFnAfterOnPE ctime fn arg deltaT pe s = ccd_heap_insert (ctime + deltaT * (1 / 1000)) fn arg pe s"

definition CcdCallFnAfter :: "real \<Rightarrow> 'f \<Rightarrow> 'a \<Rightarrow> real \<Rightarrow> ('f, 'a) ccd \<Rightarrow> ('f, 'a) ccd" where
  "CcdCallFnAfter ctime fn arg deltaT s = ccd_heap_insert (ctime + deltaT * (1 / 1000)) fn arg CcdIGNOREPE s"

partial_function (option) ccd_heap_update ::
  "('f, 'a) runner \<Rightarrow> real \<Rightarrow> ('f, 'a) heap_elem list \<Rightarrow> ('f, 'a) ccd \<Rightarrow> (('f, 'a) heap_elem list \<times> ('f, 'a) ccd) option" where
  "ccd_heap_update run cur called s =
     (case ccd_timers s of
        [] \<Rightarrow> Some (called, s)
      | e # es \<Rightarrow>
          if he_time e \<ge> cur then Some (called, s)
          else ccd_heap_update run cur (called @ [e]) (run (he_fn e) (he_arg e) (s\<lparr>ccd_timers := es\<rparr>)))"

declare ccd_heap_update.simps [code]

section \<open>Periodic conditions\<close>

definition CcdCallBacksReset :: "real \<Rightarrow> ('f, 'a) ccd \<Rightarrow> ('f, 'a) ccd" where
  "CcdCallBacksReset now s = s\<lparr>numchecks := 1, nSkip := 1, lastCheck := now\<rparr>"

text \<open>\<^verbatim>\<open>reset\<close> and \<^verbatim>\<open>noarg\<close> stand for the callback \<^verbatim>\<open>CcdCallBacksReset\<close> and its null argument; 2 and 1 are the
  conditions \<^verbatim>\<open>CcdPROCESSOR_BEGIN_IDLE\<close> and \<^verbatim>\<open>CcdPROCESSOR_END_IDLE\<close>.\<close>

definition CcdModuleInit :: "real \<Rightarrow> 'f \<Rightarrow> 'a \<Rightarrow> ('f, 'a) ccd" where
  "CcdModuleInit now reset noarg =
     (let empty = \<lparr>elems = [], cb_flag = False, nextId = 1\<rparr>;
          s = \<lparr>condcb = (\<lambda>_. empty), condcb_keep = (\<lambda>_. empty), num_timed_cond_cbs = 0, ccd_timers = [],
               lastCheck = now, nextCall = map (\<lambda>i. now + i) periodicCallInterval,
               nSkip = 1, resolution = 0.005, numchecks = 1\<rparr>
      in snd (CcdCallOnConditionKeep 1 reset noarg (snd (CcdCallOnConditionKeep 2 reset noarg s))))"

definition next_skip :: "nat \<Rightarrow> real \<Rightarrow> real \<Rightarrow> nat" where
  "next_skip n elapsed res =
     (let k = (if elapsed > 0 then nat \<lfloor>real n * max 0.5 (min 2 (res / elapsed))\<rfloor> else n)
      in if k < 1 then 1 else if k > 20 then 20 else k)"

text \<open>The loop over the periodic conditions also returns the conditions it raised.\<close>

function periodic_loop ::
  "('f, 'a) runner \<Rightarrow> real \<Rightarrow> nat \<Rightarrow> ('f, 'a) ccd \<Rightarrow> nat list \<times> ('f, 'a) ccd" where
  "periodic_loop run cur i s =
     (if i < CCD_PERIODIC_MAX then
        if nextCall s ! i \<le> cur then
          let s1 = snd (CcdRaiseCondition run (CcdPERIODIC_FIRST + i) s);
              s2 = s1\<lparr>nextCall := (nextCall s1)[i := cur + periodicCallInterval ! i]\<rparr>;
              (raised, s3) = periodic_loop run cur (i + 1) s2
          in ((CcdPERIODIC_FIRST + i) # raised, s3)
        else ([], s)
      else ([], s))"
  by pat_completeness auto
termination by (relation "measure (\<lambda>(run, cur, i, s). CCD_PERIODIC_MAX - i)") auto

declare periodic_loop.simps [simp del]

text \<open>A check returns the timed callbacks it called, the conditions it raised and the new state.\<close>

definition CcdCallBacks ::
  "('f, 'a) runner \<Rightarrow> real \<Rightarrow> ('f, 'a) ccd \<Rightarrow> (('f, 'a) heap_elem list \<times> nat list \<times> ('f, 'a) ccd) option" where
  "CcdCallBacks run cur s =
     (let k = next_skip (nSkip s) (cur - lastCheck s) (resolution s);
          s1 = s\<lparr>nSkip := k, numchecks := int k, lastCheck := cur\<rparr>
      in case ccd_heap_update run cur [] s1 of
           None \<Rightarrow> None
         | Some (called, s2) \<Rightarrow> Some (called, periodic_loop run cur 0 s2))"

definition CsdPeriodic ::
  "('f, 'a) runner \<Rightarrow> real \<Rightarrow> ('f, 'a) ccd \<Rightarrow> (('f, 'a) heap_elem list \<times> nat list \<times> ('f, 'a) ccd) option" where
  "CsdPeriodic run cur s =
     (if CcdNumTimerCBs s > 0
      then let n = numchecks s; s1 = s\<lparr>numchecks := n - 1\<rparr>
           in if n \<le> 0 then CcdCallBacks run cur s1 else Some ([], [], s1)
      else Some ([], [], s))"

definition CsdResetPeriodic :: "('f, 'a) ccd \<Rightarrow> ('f, 'a) ccd" where
  "CsdResetPeriodic s = s\<lparr>numchecks := 0\<rparr>"

section \<open>Well-formed states\<close>

definition list_ok :: "('f, 'a) cblist \<Rightarrow> bool" where
  "list_ok l \<longleftrightarrow> distinct (map cc_id (elems l)) \<and> (\<forall>x \<in> set (elems l). cc_id x < nextId l)"

definition timed_count :: "(nat \<Rightarrow> ('f, 'a) cblist) \<Rightarrow> int" where
  "timed_count m = (\<Sum>c \<in> {CcdPERIODIC_FIRST..<CcdPERIODIC_LAST}. int (length (elems (m c))))"

text \<open>The handles of a list are distinct and older than its counter, the counter of timed callbacks
  is the number of callbacks registered for periodic conditions, and the table of deadlines has
  an entry for each of them.\<close>

definition ccd_ok :: "('f, 'a) ccd \<Rightarrow> bool" where
  "ccd_ok s \<longleftrightarrow> num_timed_cond_cbs s = timed_count (condcb s) + timed_count (condcb_keep s)
     \<and> (\<forall>c. list_ok (condcb s c) \<and> list_ok (condcb_keep s c))
     \<and> length (nextCall s) = CCD_PERIODIC_MAX \<and> sorted (map he_time (ccd_timers s))"

text \<open>What a callback may do to the lists: append to them under a new handle, and remove one-shot
  callbacks only by raising a condition that is not being raised.\<close>

definition grows :: "('f, 'a) ccd \<Rightarrow> ('f, 'a) ccd \<Rightarrow> bool" where
  "grows s s' \<longleftrightarrow> (\<forall>c::nat. prefix (elems (condcb_keep s c)) (elems (condcb_keep s' c))
     \<and> cb_flag (condcb s' c) = cb_flag (condcb s c)
     \<and> (cb_flag (condcb s c) \<longrightarrow> prefix (elems (condcb s c)) (elems (condcb s' c)))
     \<and> nextId (condcb s c) \<le> nextId (condcb s' c)
     \<and> (\<forall>x \<in> set (elems (condcb s' c)). x \<in> set (elems (condcb s c)) \<or> nextId (condcb s c) \<le> cc_id x))"

lemma grows_refl [simp]: "grows s s"
  by (simp add: grows_def)

lemma grows_trans: "grows s1 s2 \<Longrightarrow> grows s2 s3 \<Longrightarrow> grows s1 s3"
  by (simp add: grows_def) (meson prefix_order.order_trans order_trans)

lemma timed_count_upd:
  "timed_count (m(c := l)) =
     timed_count m + (if isTimed c then int (length (elems l)) - int (length (elems (m c))) else 0)"
proof (cases "isTimed c")
  case True
  let ?A = "{CcdPERIODIC_FIRST..<CcdPERIODIC_LAST}"
  have c: "c \<in> ?A"
    using True by (simp add: isTimed_def)
  have "(\<Sum>k \<in> ?A - {c}. int (length (elems ((m(c := l)) k)))) = (\<Sum>k \<in> ?A - {c}. int (length (elems (m k))))"
    by (intro sum.cong) auto
  then show ?thesis
    using True c by (simp add: timed_count_def sum.remove [OF _ c])
next
  case False
  then have "c \<notin> {CcdPERIODIC_FIRST..<CcdPERIODIC_LAST}"
    by (simp add: isTimed_def)
  then have "timed_count (m(c := l)) = timed_count m"
    unfolding timed_count_def by (intro sum.cong) auto
  with False show ?thesis
    by simp
qed

lemma erase_id_length:
  "int (length (fst (erase_id i xs))) = int (length xs) - (if snd (erase_id i xs) then 1 else 0)"
  by (induction xs) (auto split: prod.splits)

lemma erase_id_set: "set (fst (erase_id i xs)) \<subseteq> set xs"
  by (induction xs) (auto split: prod.splits)

lemma erase_id_distinct: "distinct (map cc_id xs) \<Longrightarrow> distinct (map cc_id (fst (erase_id i xs)))"
proof (induction xs)
  case (Cons x xs)
  then show ?case
    using erase_id_set [of i xs] by (auto split: prod.splits)
qed simp

lemma erase_id_filter:
  "distinct (map cc_id xs) \<Longrightarrow> erase_id i xs = (filter (\<lambda>x. cc_id x \<noteq> i) xs, i \<in> cc_id ` set xs)"
proof (induction xs)
  case (Cons x xs)
  have "cc_id x = i \<Longrightarrow> filter (\<lambda>x. cc_id x \<noteq> i) xs = xs"
    using Cons.prems by (intro filter_True) (auto simp: image_iff)
  with Cons show ?case
    by auto
qed simp

lemma list_ok_append_elem:
  "list_ok l \<Longrightarrow> list_ok (fst (snd (append_elem l c f a t)))"
  by (auto simp: list_ok_def append_elem_def Let_def)

lemma list_ok_erase: "list_ok l \<Longrightarrow> list_ok (l\<lparr>elems := fst (erase_id i (elems l))\<rparr>)"
  using erase_id_set [of i "elems l"] by (auto simp: list_ok_def erase_id_distinct)

lemma list_ok_drop: "list_ok l \<Longrightarrow> list_ok (l\<lparr>elems := drop n (elems l)\<rparr>)"
  by (auto simp: list_ok_def drop_map [symmetric] dest: in_set_dropD)

lemmas ccd_defs = ccd_ok_def timed_count_upd append_elem_def remove_elem_def remove_n_elems_def Let_def

lemma ok_CcdCallOnCondition:
  assumes "ccd_ok s"
  shows "ccd_ok (snd (CcdCallOnCondition c f a s))"
  using assms list_ok_append_elem [of "condcb s c" c f a]
  by (auto simp: CcdCallOnCondition_def ccd_defs)

lemma ok_CcdCallOnConditionKeep:
  assumes "ccd_ok s"
  shows "ccd_ok (snd (CcdCallOnConditionKeep c f a s))"
  using assms list_ok_append_elem [of "condcb_keep s c" c f a]
  by (auto simp: CcdCallOnConditionKeep_def ccd_defs)

lemma ok_CcdCancelCallOnCondition:
  assumes "ccd_ok s"
  shows "ccd_ok (CcdCancelCallOnCondition c i s)"
  using assms list_ok_erase [of "condcb s c" i] erase_id_length [of i "elems (condcb s c)"]
  by (auto simp: CcdCancelCallOnCondition_def ccd_defs split: prod.splits if_splits)

lemma ok_CcdCancelCallOnConditionKeep:
  assumes "ccd_ok s"
  shows "ccd_ok (CcdCancelCallOnConditionKeep c i s)"
  using assms list_ok_erase [of "condcb_keep s c" i] erase_id_length [of i "elems (condcb_keep s c)"]
  by (auto simp: CcdCancelCallOnConditionKeep_def ccd_defs split: prod.splits if_splits)

lemma ok_ccd_heap_insert:
  assumes "ccd_ok s"
  shows "ccd_ok (ccd_heap_insert t f a pe s)"
  using assms by (auto simp: ccd_heap_insert_def ccd_ok_def sorted_append sorted_filter)

lemma ok_CcdModuleInit: "ccd_ok (CcdModuleInit now r z)"
  unfolding CcdModuleInit_def Let_def
  by (intro ok_CcdCallOnConditionKeep)
    (simp add: ccd_ok_def list_ok_def timed_count_def CCD_PERIODIC_MAX_def CcdPERIODIC_FIRST_def
      CcdPERIODIC_LAST_def periodicCallInterval_def)

lemma grows_CcdCallOnCondition: "grows s (snd (CcdCallOnCondition c f a s))"
  by (auto simp: grows_def CcdCallOnCondition_def append_elem_def Let_def)

lemma grows_CcdCallOnConditionKeep: "grows s (snd (CcdCallOnConditionKeep c f a s))"
  by (auto simp: grows_def CcdCallOnConditionKeep_def append_elem_def Let_def)

lemma ok_set_flag: "ccd_ok (set_flag c b s) = ccd_ok s"
  by (auto simp: set_flag_def ccd_ok_def timed_count_upd list_ok_def)

lemma clamp_bounds: "1 \<le> (if k < 1 then 1 else if k > 20 then 20 else k) \<and> (if k < 1 then 1 else if k > 20 then 20 else k) \<le> (20::nat)"
  by simp

lemma next_skip_bounds: "1 \<le> next_skip n e r \<and> next_skip n e r \<le> 20"
  unfolding next_skip_def Let_def by (rule clamp_bounds)

section \<open>Callbacks that keep the contract\<close>

text \<open>The contract of the callbacks: they keep the state well-formed, and they cancel nothing, which
  the comments of both list calls forbid.\<close>

locale callbacks =
  fixes run :: "'f \<Rightarrow> 'a \<Rightarrow> ('f, 'a) ccd \<Rightarrow> ('f, 'a) ccd"
  assumes run_ok: "ccd_ok s \<Longrightarrow> ccd_ok (run f a s)"
    and run_grows: "grows s (run f a s)"
begin

lemma call_loop_result:
  assumes "\<And>s s'. grows s s' \<Longrightarrow> P s \<Longrightarrow> P s' \<and> prefix (elems (sel s)) (elems (sel s'))"
    and "P s" and "\<forall>i \<in> set is. i < length (elems (sel s))"
  shows "fst (call_loop run sel is s) = map (\<lambda>i. elems (sel s) ! i) is
    \<and> grows s (snd (call_loop run sel is s)) \<and> (ccd_ok s \<longrightarrow> ccd_ok (snd (call_loop run sel is s)))"
  using assms(2,3)
proof (induction "is" arbitrary: s)
  case (Cons i js)
  let ?cb = "elems (sel s) ! i"
  let ?s1 = "run (cc_fn ?cb) (cc_arg ?cb) s"
  have g: "grows s ?s1"
    by (rule run_grows)
  have p: "P ?s1" "prefix (elems (sel s)) (elems (sel ?s1))"
    using assms(1) [OF g Cons.prems(1)] by auto
  then obtain zs where zs: "elems (sel ?s1) = elems (sel s) @ zs"
    by (auto simp: prefix_def)
  have nth: "\<forall>j \<in> set js. elems (sel ?s1) ! j = elems (sel s) ! j"
    using Cons.prems(2) by (simp add: zs nth_append)
  have bound: "\<forall>j \<in> set js. j < length (elems (sel ?s1))"
    using Cons.prems(2) by (auto simp: zs)
  have IH: "fst (call_loop run sel js ?s1) = map (\<lambda>i. elems (sel ?s1) ! i) js"
    "grows ?s1 (snd (call_loop run sel js ?s1))"
    "ccd_ok ?s1 \<longrightarrow> ccd_ok (snd (call_loop run sel js ?s1))"
    using Cons.IH [OF p(1) bound] by blast+
  have "fst (call_loop run sel js ?s1) = map (\<lambda>i. elems (sel s) ! i) js"
    using IH(1) nth by simp
  moreover have "grows s (snd (call_loop run sel js ?s1))"
    using grows_trans [OF g IH(2)] .
  moreover have "ccd_ok s \<longrightarrow> ccd_ok (snd (call_loop run sel js ?s1))"
    using IH(3) run_ok by blast
  ultimately show ?case
    by (simp add: Let_def split_beta)
qed simp

lemma call_cblist_keep_result:
  "fst (call_cblist_keep run c s) = elems (condcb_keep s c)
    \<and> grows s (snd (call_cblist_keep run c s)) \<and> (ccd_ok s \<longrightarrow> ccd_ok (snd (call_cblist_keep run c s)))"
  using call_loop_result [of "\<lambda>_. True" "\<lambda>s. condcb_keep s c" s "[0..<length (elems (condcb_keep s c))]"]
  by (simp add: call_cblist_keep_def map_nth grows_def)

lemma remove_loop_result:
  assumes "cb_flag (condcb s c)"
  shows "fst (call_loop run (\<lambda>s. condcb s c) (rev [0..<length (elems (condcb s c))]) s) = rev (elems (condcb s c))
    \<and> grows s (snd (call_loop run (\<lambda>s. condcb s c) (rev [0..<length (elems (condcb s c))]) s))
    \<and> (ccd_ok s \<longrightarrow> ccd_ok (snd (call_loop run (\<lambda>s. condcb s c) (rev [0..<length (elems (condcb s c))]) s)))"
  using call_loop_result [of "\<lambda>s. cb_flag (condcb s c)" "\<lambda>s. condcb s c" s "rev [0..<length (elems (condcb s c))]"]
    assms
  by (simp add: rev_map [symmetric] map_nth grows_def)

lemma call_cblist_remove_result:
  assumes ok: "ccd_ok s" and idle: "\<not> cb_flag (condcb s c)"
  shows "fst (call_cblist_remove run c s) = rev (elems (condcb s c))
    \<and> elems (condcb (snd (call_loop run (\<lambda>s. condcb s c) (rev [0..<length (elems (condcb s c))]) (set_flag c True s))) c)
        = elems (condcb s c) @ elems (condcb (snd (call_cblist_remove run c s)) c)
    \<and> set (elems (condcb s c)) \<inter> set (elems (condcb (snd (call_cblist_remove run c s)) c)) = {}
    \<and> grows s (snd (call_cblist_remove run c s)) \<and> ccd_ok (snd (call_cblist_remove run c s))"
proof (cases "elems (condcb s c) = []")
  case True
  then show ?thesis
    using ok by (simp add: call_cblist_remove_def set_flag_def)
next
  case False
  let ?n = "length (elems (condcb s c))"
  let ?s0 = "set_flag c True s"
  let ?r = "call_loop run (\<lambda>s. condcb s c) (rev [0..<?n]) ?s0"
  define s1 where "s1 = snd ?r"
  have e0: "elems (condcb ?s0 c) = elems (condcb s c)"
    by (simp add: set_flag_def)
  have calls: "fst ?r = rev (elems (condcb s c))" and g: "grows ?s0 s1" and ok1: "ccd_ok s1"
    using remove_loop_result [of ?s0 c] ok by (simp_all add: e0 s1_def ok_set_flag) (simp_all add: set_flag_def)
  have "prefix (elems (condcb s c)) (elems (condcb s1 c))"
    using g by (auto simp: grows_def set_flag_def dest: spec [of _ c])
  then obtain new where new: "elems (condcb s1 c) = elems (condcb s c) @ new"
    by (auto simp: prefix_def)
  define s2 where "s2 = s1\<lparr>condcb := (condcb s1)(c := (condcb s1 c)\<lparr>elems := new, cb_flag := False\<rparr>),
    num_timed_cond_cbs := (if isTimed c then num_timed_cond_cbs s1 - int ?n else num_timed_cond_cbs s1)\<rparr>"
  have res: "call_cblist_remove run c s = (rev (elems (condcb s c)), s2)"
    using False idle calls
    by (simp add: call_cblist_remove_def Let_def split_beta s1_def [symmetric] remove_n_elems_def new set_flag_def [of c False] s2_def)
  have l1: "list_ok (condcb s1 c)"
    using ok1 by (simp add: ccd_ok_def)
  then have dist: "set (elems (condcb s c)) \<inter> set new = {}"
    by (auto simp: list_ok_def new)
  have l2: "list_ok ((condcb s1 c)\<lparr>elems := new, cb_flag := False\<rparr>)"
    using l1 by (auto simp: list_ok_def new)
  have ok2: "ccd_ok s2"
    using ok1 l2 by (auto simp: ccd_ok_def s2_def timed_count_upd new)
  have "grows s s2"
    unfolding grows_def
  proof
    fix k
    show "prefix (elems (condcb_keep s k)) (elems (condcb_keep s2 k)) \<and> cb_flag (condcb s2 k) = cb_flag (condcb s k)
      \<and> (cb_flag (condcb s k) \<longrightarrow> prefix (elems (condcb s k)) (elems (condcb s2 k)))
      \<and> nextId (condcb s k) \<le> nextId (condcb s2 k)
      \<and> (\<forall>x \<in> set (elems (condcb s2 k)). x \<in> set (elems (condcb s k)) \<or> nextId (condcb s k) \<le> cc_id x)"
      using g [unfolded grows_def, rule_format, of k] idle
      by (cases "k = c") (simp_all add: s2_def set_flag_def new)
  qed
  with res dist ok2 new show ?thesis
    by (simp add: s2_def s1_def)
qed

lemma raise_result:
  assumes ok: "ccd_ok s" and idle: "\<not> cb_flag (condcb s c)"
  shows "(\<exists>later. fst (CcdRaiseCondition run c s) = rev (elems (condcb s c)) @ elems (condcb_keep s c) @ later)
    \<and> set (elems (condcb s c)) \<inter> set (elems (condcb (snd (CcdRaiseCondition run c s)) c)) = {}
    \<and> grows s (snd (CcdRaiseCondition run c s)) \<and> ccd_ok (snd (CcdRaiseCondition run c s))"
proof -
  define s1 where "s1 = snd (call_cblist_remove run c s)"
  define s2 where "s2 = snd (call_cblist_keep run c s1)"
  have r: "fst (call_cblist_remove run c s) = rev (elems (condcb s c))"
    "set (elems (condcb s c)) \<inter> set (elems (condcb s1 c)) = {}" "grows s s1" "ccd_ok s1"
    using call_cblist_remove_result [OF assms] by (auto simp: s1_def)
  have k: "fst (call_cblist_keep run c s1) = elems (condcb_keep s1 c)" "grows s1 s2" "ccd_ok s2"
    using call_cblist_keep_result [of c s1] r(4) by (auto simp: s2_def)
  have res: "CcdRaiseCondition run c s = (rev (elems (condcb s c)) @ elems (condcb_keep s1 c), s2)"
    by (simp add: CcdRaiseCondition_def split_beta r(1) k(1) s1_def [symmetric] s2_def [symmetric])
  obtain later where later: "elems (condcb_keep s1 c) = elems (condcb_keep s c) @ later"
    using r(3) by (auto simp: grows_def prefix_def dest: spec [of _ c])
  have n: "nextId (condcb s c) \<le> nextId (condcb s1 c)"
    using r(3) by (simp add: grows_def)
  have new: "\<forall>x \<in> set (elems (condcb s2 c)). x \<in> set (elems (condcb s1 c)) \<or> nextId (condcb s1 c) \<le> cc_id x"
    using k(2) by (simp add: grows_def)
  have old: "\<forall>x \<in> set (elems (condcb s c)). cc_id x < nextId (condcb s c)"
    using ok by (simp add: ccd_ok_def list_ok_def)
  have "set (elems (condcb s c)) \<inter> set (elems (condcb s2 c)) = {}"
    using n new old r(2) by fastforce
  with later k(3) grows_trans [OF r(3) k(2)] show ?thesis
    by (simp add: res)
qed

text \<open>A condition that is being raised already runs its permanent callbacks only.\<close>

lemma raise_reentrant:
  assumes "cb_flag (condcb s c)"
  shows "fst (CcdRaiseCondition run c s) = elems (condcb_keep s c)
    \<and> grows s (snd (CcdRaiseCondition run c s)) \<and> (ccd_ok s \<longrightarrow> ccd_ok (snd (CcdRaiseCondition run c s)))"
  using call_cblist_keep_result [of c s] assms
  by (simp add: CcdRaiseCondition_def call_cblist_remove_def split_beta)

lemma raise_keeps_contract:
  assumes "ccd_ok s"
  shows "grows s (snd (CcdRaiseCondition run c s)) \<and> ccd_ok (snd (CcdRaiseCondition run c s))"
  using raise_reentrant [of s c] raise_result [OF assms, of c] assms by blast

lemma periodic_keeps_contract:
  "ccd_ok s \<Longrightarrow> ccd_ok (snd (periodic_loop run cur i s)) \<and> grows s (snd (periodic_loop run cur i s))"
proof (induction "CCD_PERIODIC_MAX - i" arbitrary: i s)
  case 0
  then show ?case
    by (simp add: periodic_loop.simps)
next
  case (Suc n)
  let ?s1 = "snd (CcdRaiseCondition run (CcdPERIODIC_FIRST + i) s)"
  let ?s2 = "?s1\<lparr>nextCall := (nextCall ?s1)[i := cur + periodicCallInterval ! i]\<rparr>"
  have r: "grows s ?s1" "ccd_ok ?s1"
    using raise_keeps_contract [OF Suc.prems] by auto
  have s2: "grows ?s1 ?s2" "ccd_ok ?s2"
    using r(2) by (simp_all add: grows_def ccd_ok_def)
  have "n = CCD_PERIODIC_MAX - (i + 1)"
    using Suc.hyps(2) by simp
  from Suc.hyps(1) [OF this s2(2)] have "ccd_ok (snd (periodic_loop run cur (i + 1) ?s2))"
    "grows s (snd (periodic_loop run cur (i + 1) ?s2))"
    using grows_trans [OF r(1) grows_trans [OF s2(1)]] by auto
  then show ?case
    using Suc.prems by (subst (1 2) periodic_loop.simps) (simp add: Let_def split_beta)
qed

end

text \<open>Timed callbacks that register nothing that is already due and leave the scheduling of checks to the checks:
  they do not touch the deadlines of the periodic conditions, and keep the number of iterations to the next check
  between 1 and 20.\<close>

definition checks_ok :: "('f, 'a) ccd \<Rightarrow> bool" where
  "checks_ok s \<longleftrightarrow> 1 \<le> numchecks s \<and> numchecks s \<le> 20"

definition no_due :: "real \<Rightarrow> ('f, 'a) ccd \<Rightarrow> bool" where
  "no_due cur s \<longleftrightarrow> filter (\<lambda>e. he_time e < cur) (ccd_timers s) = []"

text \<open>The parts of a state that no list operation touches.\<close>

definition off_lists :: "(real list \<Rightarrow> ('f, 'a) heap_elem list \<Rightarrow> int \<Rightarrow> bool) \<Rightarrow> ('f, 'a) ccd \<Rightarrow> bool" where
  "off_lists Q s \<longleftrightarrow> Q (nextCall s) (ccd_timers s) (numchecks s)"

lemma call_loop_keeps:
  assumes "\<And>f a s. off_lists Q s \<Longrightarrow> off_lists Q (run f a s)"
  shows "off_lists Q s \<Longrightarrow> off_lists Q (snd (call_loop run sel is s))"
  by (induction "is" arbitrary: s) (simp_all add: split_beta Let_def assms)

lemma raise_keeps:
  assumes "\<And>f a s. off_lists Q s \<Longrightarrow> off_lists Q (run f a s)" "off_lists Q s"
  shows "off_lists Q (snd (CcdRaiseCondition run c s))"
proof -
  have [simp]: "off_lists Q (set_flag c b t) = off_lists Q t"
    "off_lists Q (t\<lparr>condcb := x, num_timed_cond_cbs := n\<rparr>) = off_lists Q t" for b t x n
    by (simp_all add: off_lists_def set_flag_def)
  note keep = call_loop_keeps [of Q run, OF assms(1)]
  have "off_lists Q (snd (call_cblist_remove run c s))"
    using assms(2) keep by (simp add: call_cblist_remove_def Let_def split_beta)
  then show ?thesis by (simp add: CcdRaiseCondition_def split_beta call_cblist_keep_def keep)
qed

locale timed_callbacks = callbacks +
  fixes cur :: real
  assumes run_heap: "filter (\<lambda>e. he_time e < cur) (ccd_timers (run f a s)) = filter (\<lambda>e. he_time e < cur) (ccd_timers s)"
    and run_nextCall: "nextCall (run f a s) = nextCall s"
    and run_checks: "checks_ok s \<Longrightarrow> checks_ok (run f a s)"
begin

lemma raise_in_check:
  assumes "no_due cur s" "checks_ok s"
  shows "nextCall (snd (CcdRaiseCondition run c s)) = nextCall s \<and> no_due cur (snd (CcdRaiseCondition run c s))
    \<and> checks_ok (snd (CcdRaiseCondition run c s))"
proof -
  define Q where "Q = (\<lambda>ns (es :: ('a, 'b) heap_elem list) n. ns = nextCall s \<and> filter (\<lambda>e. he_time e < cur) es = []
    \<and> (1 :: int) \<le> n \<and> n \<le> 20)"
  have Q: "off_lists Q t \<longleftrightarrow> nextCall t = nextCall s \<and> no_due cur t \<and> checks_ok t" for t
    by (simp add: off_lists_def Q_def no_due_def checks_ok_def)
  have "off_lists Q (run f a t)" if "off_lists Q t" for f a t
    using that run_heap [of f a t] run_nextCall [of f a t] run_checks [of t f a] unfolding Q by (simp add: no_due_def)
  moreover have "off_lists Q s" unfolding Q using assms by simp
  ultimately show ?thesis using raise_keeps [of Q run s c] unfolding Q by blast
qed

lemma periodic_in_check:
  assumes "ccd_ok s" "no_due cur s" "checks_ok s"
  shows "fst (periodic_loop run cur i s)
      = map ((+) CcdPERIODIC_FIRST) (takeWhile (\<lambda>j. nextCall s ! j \<le> cur) [i..<CCD_PERIODIC_MAX])
    \<and> nextCall (snd (periodic_loop run cur i s)) = map (\<lambda>j. if j \<in> set (takeWhile (\<lambda>j. nextCall s ! j \<le> cur) [i..<CCD_PERIODIC_MAX])
         then cur + periodicCallInterval ! j else nextCall s ! j) [0..<CCD_PERIODIC_MAX]
    \<and> no_due cur (snd (periodic_loop run cur i s)) \<and> checks_ok (snd (periodic_loop run cur i s))"
  using assms
proof (induction "CCD_PERIODIC_MAX - i" arbitrary: i s)
  case 0
  have "map ((!) (nextCall s)) [0..<CCD_PERIODIC_MAX] = nextCall s"
    using "0.prems"(1) by (metis ccd_ok_def map_nth)
  then show ?case using 0 by (simp add: periodic_loop.simps)
next
  case (Suc n)
  then have i: "i < CCD_PERIODIC_MAX" and n: "n = CCD_PERIODIC_MAX - (i + 1)" by simp_all
  have self: "map ((!) (nextCall s)) [0..<CCD_PERIODIC_MAX] = nextCall s"
    using Suc.prems(1) by (metis ccd_ok_def map_nth)
  show ?case
  proof (cases "nextCall s ! i \<le> cur")
    case False
    then show ?thesis using i self Suc.prems(2,3) by (simp add: periodic_loop.simps upt_conv_Cons)
  next
    case True
    let ?s1 = "snd (CcdRaiseCondition run (CcdPERIODIC_FIRST + i) s)"
    let ?s2 = "?s1\<lparr>nextCall := (nextCall s)[i := cur + periodicCallInterval ! i]\<rparr>"
    have s1: "nextCall ?s1 = nextCall s" "no_due cur ?s1" "checks_ok ?s1" "ccd_ok ?s1"
      using raise_in_check [OF Suc.prems(2,3)] raise_keeps_contract [OF Suc.prems(1)] by auto
    have "length (nextCall s) = CCD_PERIODIC_MAX" using Suc.prems(1) by (simp add: ccd_ok_def)
    then have s2: "ccd_ok ?s2" "no_due cur ?s2" "checks_ok ?s2"
      using s1 by (simp_all add: ccd_ok_def no_due_def checks_ok_def)
    have tw: "takeWhile (\<lambda>j. nextCall ?s2 ! j \<le> cur) [i + 1..<CCD_PERIODIC_MAX]
        = takeWhile (\<lambda>j. nextCall s ! j \<le> cur) [i + 1..<CCD_PERIODIC_MAX]"
      by (intro takeWhile_cong) auto
    have loop: "periodic_loop run cur i s
        = ((CcdPERIODIC_FIRST + i) # fst (periodic_loop run cur (i + 1) ?s2), snd (periodic_loop run cur (i + 1) ?s2))"
      using i True s1(1) by (subst periodic_loop.simps) (simp add: Let_def split_beta)
    note IH = Suc.hyps(1) [OF n s2, unfolded tw]
    have "map (\<lambda>j. if j \<in> set (takeWhile (\<lambda>j. nextCall s ! j \<le> cur) [i + 1..<CCD_PERIODIC_MAX])
         then cur + periodicCallInterval ! j else nextCall ?s2 ! j) [0..<CCD_PERIODIC_MAX]
      = map (\<lambda>j. if j \<in> set (takeWhile (\<lambda>j. nextCall s ! j \<le> cur) [i..<CCD_PERIODIC_MAX])
         then cur + periodicCallInterval ! j else nextCall s ! j) [0..<CCD_PERIODIC_MAX]"
      using i True \<open>length (nextCall s) = CCD_PERIODIC_MAX\<close>
      by (intro map_cong) (auto simp: upt_conv_Cons nth_list_update)
    then show ?thesis unfolding loop using IH i True by (simp add: upt_conv_Cons)
  qed
qed

lemma heap_update_result:
  "ccd_ok s \<Longrightarrow> \<exists>s'. ccd_heap_update run cur called s = Some (called @ filter (\<lambda>e. he_time e < cur) (ccd_timers s), s')
     \<and> (\<forall>e \<in> set (ccd_timers s'). cur \<le> he_time e) \<and> ccd_ok s' \<and> grows s s'
     \<and> nextCall s' = nextCall s \<and> (checks_ok s \<longrightarrow> checks_ok s')"
proof (induction "length (filter (\<lambda>e. he_time e < cur) (ccd_timers s))" arbitrary: called s)
  case 0
  then have "\<forall>e \<in> set (ccd_timers s). cur \<le> he_time e"
    by (auto simp: filter_empty_conv not_less)
  with 0 show ?case
    by (subst ccd_heap_update.simps) (auto split: list.splits)
next
  case (Suc n)
  obtain e es where h: "ccd_timers s = e # es"
    using Suc.hyps(2) by (cases "ccd_timers s") auto
  have due: "he_time e < cur"
  proof (rule ccontr)
    assume "\<not> he_time e < cur"
    moreover have "\<forall>x \<in> set es. he_time e \<le> he_time x"
      using Suc.prems by (simp add: ccd_ok_def h)
    ultimately have "filter (\<lambda>e. he_time e < cur) (ccd_timers s) = []"
      by (auto simp: h filter_empty_conv)
    with Suc.hyps(2) show False
      by simp
  qed
  let ?s0 = "s\<lparr>ccd_timers := es\<rparr>"
  let ?s1 = "run (he_fn e) (he_arg e) ?s0"
  have ok0: "ccd_ok ?s0" and g0: "grows s ?s0"
    using Suc.prems by (simp_all add: ccd_ok_def h grows_def)
  have c: "nextCall ?s1 = nextCall s" "checks_ok s \<longrightarrow> checks_ok ?s1"
    using run_nextCall [of _ _ ?s0] run_checks [of ?s0] by (simp_all add: checks_ok_def)
  have f: "filter (\<lambda>e. he_time e < cur) (ccd_timers ?s1) = filter (\<lambda>e. he_time e < cur) es"
    using run_heap [of "he_fn e" "he_arg e" ?s0] by simp
  have "n = length (filter (\<lambda>e. he_time e < cur) (ccd_timers ?s1))"
    using Suc.hyps(2) due by (simp add: f h)
  from Suc.hyps(1) [OF this run_ok [OF ok0], of "called @ [e]"]
  obtain s' where "ccd_heap_update run cur (called @ [e]) ?s1
      = Some ((called @ [e]) @ filter (\<lambda>e. he_time e < cur) es, s')"
    "\<forall>e \<in> set (ccd_timers s'). cur \<le> he_time e" "ccd_ok s'" "grows ?s1 s'"
    "nextCall s' = nextCall s" "checks_ok s \<longrightarrow> checks_ok s'"
    using c by (auto simp: f)
  then show ?case
    using due grows_trans [OF g0 grows_trans [OF run_grows]]
    by (subst ccd_heap_update.simps) (auto simp: h)
qed

lemma CcdCallBacks_result:
  assumes "ccd_ok s"
  shows "\<exists>s'. CcdCallBacks run cur s = Some (filter (\<lambda>e. he_time e < cur) (ccd_timers s),
        map ((+) CcdPERIODIC_FIRST) (takeWhile (\<lambda>j. nextCall s ! j \<le> cur) [0..<CCD_PERIODIC_MAX]), s')
    \<and> nextCall s' = map (\<lambda>j. if j \<in> set (takeWhile (\<lambda>j. nextCall s ! j \<le> cur) [0..<CCD_PERIODIC_MAX])
         then cur + periodicCallInterval ! j else nextCall s ! j) [0..<CCD_PERIODIC_MAX]
    \<and> ccd_ok s' \<and> no_due cur s' \<and> checks_ok s'"
proof -
  let ?k = "next_skip (nSkip s) (cur - lastCheck s) (resolution s)"
  let ?s1 = "s\<lparr>nSkip := ?k, numchecks := int ?k, lastCheck := cur\<rparr>"
  have "ccd_ok ?s1" "checks_ok ?s1"
    using assms next_skip_bounds [of "nSkip s" "cur - lastCheck s" "resolution s"] by (simp_all add: ccd_ok_def checks_ok_def)
  with heap_update_result [of ?s1 "[]"] obtain s2
    where h: "ccd_heap_update run cur [] ?s1 = Some (filter (\<lambda>e. he_time e < cur) (ccd_timers s), s2)" "ccd_ok s2"
      "no_due cur s2" "nextCall s2 = nextCall s" "checks_ok s2"
    by (auto simp: no_due_def filter_empty_conv not_less)
  have "CcdCallBacks run cur s
      = Some (filter (\<lambda>e. he_time e < cur) (ccd_timers s), periodic_loop run cur 0 s2)"
    using h(1) by (simp add: CcdCallBacks_def Let_def)
  moreover have "ccd_ok (snd (periodic_loop run cur 0 s2))" using periodic_keeps_contract [OF h(2)] by blast
  ultimately show ?thesis using periodic_in_check [OF h(2,3,5), of 0, unfolded h(4)] by (auto simp: prod_eq_iff)
qed

end

text \<open>The callbacks made of the operations of this file: register again once or for good, ask for a
  later call, restart the checks.\<close>

datatype ccd_action = OnCondition nat | OnConditionKeep nat | After nat | Reset

fun run_action :: "real \<Rightarrow> (ccd_action, 'a) runner" where
  "run_action now (OnCondition c) a s = snd (CcdCallOnCondition c (OnCondition c) a s)"
| "run_action now (OnConditionKeep c) a s = snd (CcdCallOnConditionKeep c (OnConditionKeep c) a s)"
| "run_action now (After d) a s = CcdCallFnAfter now (After d) a (real d) s"
| "run_action now Reset a s = CcdCallBacksReset now s"

lemma run_action_ok: "ccd_ok s \<Longrightarrow> ccd_ok (run_action now f a s)"
  by (cases f) (auto simp: ok_CcdCallOnCondition ok_CcdCallOnConditionKeep CcdCallFnAfter_def ok_ccd_heap_insert
      CcdCallBacksReset_def, auto simp: ccd_ok_def)

lemma run_action_grows: "grows s (run_action now f a s)"
  by (cases f) (auto simp: grows_CcdCallOnCondition grows_CcdCallOnConditionKeep CcdCallFnAfter_def
      ccd_heap_insert_def CcdCallBacksReset_def, auto simp: grows_def)

lemma run_action_timers:
  "filter (\<lambda>e. he_time e < now) (ccd_timers (run_action now f a s)) = filter (\<lambda>e. he_time e < now) (ccd_timers s)"
proof (cases f)
  case (After d)
  have "filter (\<lambda>e. he_time e \<le> now + real d / 1000 \<and> he_time e < now) (ccd_timers s)
      = filter (\<lambda>e. he_time e < now) (ccd_timers s)"
    by (rule filter_cong) auto
  moreover have "filter (\<lambda>e. now + real d / 1000 < he_time e \<and> he_time e < now) (ccd_timers s) = []"
    by (auto simp: filter_empty_conv)
  ultimately show ?thesis
    by (simp add: After CcdCallFnAfter_def ccd_heap_insert_def conj_commute)
qed (simp_all add: CcdCallOnCondition_def CcdCallOnConditionKeep_def CcdCallBacksReset_def append_elem_def Let_def)

lemma run_action_checks:
  "nextCall (run_action now f a s) = nextCall s" "checks_ok s \<Longrightarrow> checks_ok (run_action now f a s)"
  by (cases f; simp add: CcdCallOnCondition_def CcdCallOnConditionKeep_def CcdCallBacksReset_def CcdCallFnAfter_def
      ccd_heap_insert_def append_elem_def Let_def checks_ok_def)+

interpretation action_cbs: timed_callbacks "run_action now" now
  by unfold_locales (simp_all add: run_action_ok run_action_grows run_action_timers run_action_checks)

lemma action_callbacks: "callbacks (run_action now)"
  by (rule action_cbs.callbacks_axioms)

lemma action_timed_callbacks: "timed_callbacks (run_action now) now"
  by (rule action_cbs.timed_callbacks_axioms)

section \<open>Properties\<close>

text \<open>C29. With callbacks that keep the contract, every operation keeps the state well-formed:
  the handles of a list stay distinct and below its counter, and the count that lets the scheduler
  skip the clock stays the number of callbacks registered for periodic conditions.\<close>

theorem ccd_state_typed:
  assumes "callbacks run" and "ccd_ok s"
  shows "ccd_ok (CcdModuleInit now f a) \<and> ccd_ok (snd (CcdCallOnCondition c f a s))
    \<and> ccd_ok (snd (CcdCallOnConditionKeep c f a s)) \<and> ccd_ok (CcdCancelCallOnCondition c i s)
    \<and> ccd_ok (CcdCancelCallOnConditionKeep c i s) \<and> ccd_ok (CcdCallFnAfter now f a d s)
    \<and> ccd_ok (CcdCallFnAfterOnPE now f a d pe s) \<and> ccd_ok (CcdCallBacksReset now s)
    \<and> ccd_ok (snd (CcdRaiseCondition run c s)) \<and> ccd_ok (snd (periodic_loop run now 0 s))"
  using assms(2) callbacks.raise_keeps_contract [OF assms] callbacks.periodic_keeps_contract [OF assms]
  by (simp add: ok_CcdModuleInit ok_CcdCallOnCondition ok_CcdCallOnConditionKeep ok_CcdCancelCallOnCondition
      ok_CcdCancelCallOnConditionKeep CcdCallFnAfter_def CcdCallFnAfterOnPE_def ok_ccd_heap_insert)
    (simp add: CcdCallBacksReset_def ccd_ok_def)

theorem ccd_state_typed_witness:
  "ccd_ok (snd (CcdRaiseCondition (run_action 0) 5 (snd (CcdCallOnCondition 5 (OnCondition 5) () (CcdModuleInit 0 Reset ())))))"
proof -
  have "ccd_ok (snd (CcdCallOnCondition 5 (OnCondition 5) () (CcdModuleInit 0 Reset ())))"
    by (rule ok_CcdCallOnCondition [OF ok_CcdModuleInit])
  from ccd_state_typed [OF action_callbacks this] show ?thesis
    by blast
qed

text \<open>C30. Raising a condition calls its one-shot callbacks, the last registered first, then its permanent
  ones in the order of registration, those the one-shot callbacks added among them last.  Every one-shot callback
  called is gone from the list, and exactly what the calls registered after them for the condition stays for the
  next time.\<close>

theorem raise_calls_every_callback:
  assumes "callbacks run" and "ccd_ok s" and "\<not> cb_flag (condcb s c)"
  shows "(\<exists>later. fst (CcdRaiseCondition run c s) = rev (elems (condcb s c)) @ elems (condcb_keep s c) @ later)
    \<and> set (elems (condcb s c)) \<inter> set (elems (condcb (snd (CcdRaiseCondition run c s)) c)) = {}
    \<and> elems (condcb (snd (call_loop run (\<lambda>s. condcb s c) (rev [0..<length (elems (condcb s c))]) (set_flag c True s))) c)
        = elems (condcb s c) @ elems (condcb (snd (call_cblist_remove run c s)) c)
    \<and> \<not> cb_flag (condcb (snd (CcdRaiseCondition run c s)) c)
    \<and> prefix (elems (condcb_keep s c)) (elems (condcb_keep (snd (CcdRaiseCondition run c s)) c))"
proof -
  have g: "grows s (snd (CcdRaiseCondition run c s))"
    using callbacks.raise_result [OF assms] by blast
  have "\<not> cb_flag (condcb (snd (CcdRaiseCondition run c s)) c)"
    "prefix (elems (condcb_keep s c)) (elems (condcb_keep (snd (CcdRaiseCondition run c s)) c))"
    using g [unfolded grows_def, rule_format, of c] assms(3) by blast+
  with callbacks.raise_result [OF assms] callbacks.call_cblist_remove_result [OF assms] show ?thesis
    by blast
qed

theorem raise_calls_every_callback_witness:
  "\<exists>later. fst (CcdRaiseCondition (run_action 0) 5 (snd (CcdCallOnCondition 5 (OnCondition 5) () (CcdModuleInit 0 Reset ()))))
     = [\<lparr>cc_fn = OnCondition 5, cc_arg = (), cc_id = 1\<rparr>] @ later"
proof -
  let ?s = "snd (CcdCallOnCondition 5 (OnCondition 5) () (CcdModuleInit 0 Reset ()))"
  have "elems (condcb ?s 5) = [\<lparr>cc_fn = OnCondition 5, cc_arg = (), cc_id = 1\<rparr>]" "\<not> cb_flag (condcb ?s 5)"
    by (simp_all add: CcdCallOnCondition_def CcdCallOnConditionKeep_def CcdModuleInit_def append_elem_def Let_def)
  moreover have "ccd_ok ?s"
    by (rule ok_CcdCallOnCondition [OF ok_CcdModuleInit])
  ultimately show ?thesis
    using raise_calls_every_callback [OF action_callbacks, of ?s 5 0] by auto
qed

text \<open>C31. With callbacks that keep the contract, register no call that is already due and do not run or
  reschedule checks themselves, a check returns.  It has called exactly the timed callbacks that were due, the
  earliest first, and then raised the periodic conditions from the shortest interval up to the first one that was
  not due, whose deadlines alone move, each to its interval from now.  The state it leaves is well-formed, holds no
  timed callback that is due, and asks for the next check after 1 to 20 scheduler iterations.\<close>

theorem check_runs_due_callbacks:
  assumes "timed_callbacks run cur" and "ccd_ok s"
  shows "\<exists>called raised s'. CcdCallBacks run cur s = Some (called, map ((+) CcdPERIODIC_FIRST) raised, s')
    \<and> called = filter (\<lambda>e. he_time e < cur) (ccd_timers s) \<and> sorted (map he_time called)
    \<and> raised = takeWhile (\<lambda>i. nextCall s ! i \<le> cur) [0..<CCD_PERIODIC_MAX]
    \<and> nextCall s' = map (\<lambda>i. if i \<in> set raised then cur + periodicCallInterval ! i else nextCall s ! i) [0..<CCD_PERIODIC_MAX]
    \<and> (\<forall>e \<in> set (ccd_timers s'). cur \<le> he_time e) \<and> ccd_ok s' \<and> 1 \<le> numchecks s' \<and> numchecks s' \<le> 20"
proof -
  have "sorted (map he_time (filter (\<lambda>e. he_time e < cur) (ccd_timers s)))"
    using assms(2) by (simp add: ccd_ok_def sorted_filter)
  moreover have "no_due cur t \<Longrightarrow> \<forall>e \<in> set (ccd_timers t). cur \<le> he_time e" for t :: "('a, 'b) ccd"
    by (auto simp: no_due_def filter_empty_conv not_less)
  ultimately show ?thesis
    using timed_callbacks.CcdCallBacks_result [OF assms] unfolding checks_ok_def by blast
qed

theorem check_runs_due_callbacks_witness:
  "\<exists>s'. CcdCallBacks (run_action 1) 1 (CcdCallFnAfter 0 (After 5) () 5 (CcdModuleInit 0 Reset ()))
     = Some ([\<lparr>he_time = 0.005, he_fn = After 5, he_arg = (), he_pe = - 2\<rparr>], [5, 6, 7, 8], s') \<and> numchecks s' \<le> 20"
proof -
  let ?s = "CcdCallFnAfter 0 (After 5) () 5 (CcdModuleInit 0 Reset ())"
  have "ccd_ok ?s"
    unfolding CcdCallFnAfter_def by (rule ok_ccd_heap_insert [OF ok_CcdModuleInit])
  moreover have "ccd_timers ?s = [\<lparr>he_time = 0.005, he_fn = After 5, he_arg = (), he_pe = - 2\<rparr>]"
      and n: "nextCall ?s = periodicCallInterval"
    by (simp_all add: CcdCallFnAfter_def ccd_heap_insert_def CcdModuleInit_def CcdCallOnConditionKeep_def
      append_elem_def Let_def CcdIGNOREPE_def)
  moreover have "map ((+) CcdPERIODIC_FIRST) (takeWhile (\<lambda>i. nextCall ?s ! i \<le> 1) [0..<CCD_PERIODIC_MAX]) = [5, 6, 7, 8]"
    unfolding n by (simp add: periodicCallInterval_def CCD_PERIODIC_MAX_def CcdPERIODIC_FIRST_def CcdPERIODIC_LAST_def upt_rec)
  ultimately show ?thesis
    using check_runs_due_callbacks [OF action_timed_callbacks, of ?s 1] by auto
qed

section \<open>A sequence of checks\<close>

fun checks :: "('f, 'a) runner \<Rightarrow> real list \<Rightarrow> ('f, 'a) ccd \<Rightarrow> nat list list" where
  "checks run [] s = []"
| "checks run (t # ts) s =
     (case CcdCallBacks run t s of None \<Rightarrow> [] | Some (called, raised, s') \<Rightarrow> raised # checks run ts s')"

text \<open>Where no callback is registered a check only moves the deadlines.\<close>

definition quiet :: "('f, 'a) ccd \<Rightarrow> bool" where
  "quiet s \<longleftrightarrow> ccd_timers s = []
     \<and> (\<forall>c \<ge> CcdPERIODIC_FIRST. elems (condcb s c) = [] \<and> elems (condcb_keep s c) = [])"

fun due :: "real \<Rightarrow> nat \<Rightarrow> real list \<Rightarrow> real list \<Rightarrow> nat list \<times> real list" where
  "due cur c (n # ns) (v # vs) =
     (if n \<le> cur then (let (r, ms) = due cur (Suc c) ns vs in (c # r, (cur + v) # ms)) else ([], n # ns))"
| "due cur c ns vs = ([], ns)"

lemma quiet_raise: "quiet s \<Longrightarrow> CcdPERIODIC_FIRST \<le> c \<Longrightarrow> CcdRaiseCondition run c s = ([], s)"
  by (simp add: quiet_def CcdRaiseCondition_def call_cblist_remove_def call_cblist_keep_def)

lemma quiet_periodic:
  assumes "quiet s" and "nextCall s = pre @ ns" and "length pre = i" and "length ns = length vs"
    and "drop i periodicCallInterval = vs"
  shows "periodic_loop run cur i s =
    (fst (due cur (CcdPERIODIC_FIRST + i) ns vs), s\<lparr>nextCall := pre @ snd (due cur (CcdPERIODIC_FIRST + i) ns vs)\<rparr>)"
  using assms
proof (induction vs arbitrary: i pre ns s)
  case Nil
  then have "\<not> i < CCD_PERIODIC_MAX"
    by (simp add: periodicCallInterval_def CCD_PERIODIC_MAX_def CcdPERIODIC_FIRST_def CcdPERIODIC_LAST_def)
  with Nil show ?case
    by (subst periodic_loop.simps) simp
next
  case (Cons v vs)
  obtain n ms where ns: "ns = n # ms"
    using Cons.prems(4) by (cases ns) auto
  have i: "i < length periodicCallInterval" "periodicCallInterval ! i = v" "drop (Suc i) periodicCallInterval = vs"
    using Cons.prems(5) by (auto simp: drop_Suc drop_tl nth_via_drop intro: ccontr)
  have lt: "i < CCD_PERIODIC_MAX"
    using i(1) by (simp add: periodicCallInterval_def CCD_PERIODIC_MAX_def CcdPERIODIC_FIRST_def CcdPERIODIC_LAST_def)
  let ?s = "s\<lparr>nextCall := (pre @ [cur + v]) @ ms\<rparr>"
  have q: "quiet ?s"
    using Cons.prems(1) by (simp add: quiet_def)
  have IH: "periodic_loop run cur (Suc i) ?s =
    (fst (due cur (CcdPERIODIC_FIRST + Suc i) ms vs),
     ?s\<lparr>nextCall := (pre @ [cur + v]) @ snd (due cur (CcdPERIODIC_FIRST + Suc i) ms vs)\<rparr>)"
    by (rule Cons.IH) (use q Cons.prems(3,4) i(3) ns in simp_all)
  have nth: "(pre @ n # ms) ! i = n" and upd: "(pre @ n # ms)[i := cur + v] = pre @ (cur + v) # ms"
    using Cons.prems(3) by (auto simp: nth_append list_update_append)
  have self: "s\<lparr>nextCall := pre @ n # ms\<rparr> = s"
    using Cons.prems(2) by (simp add: ns)
  show ?case
    using IH lt i(2) Cons.prems(2)
    by (subst periodic_loop.simps) (simp add: quiet_raise [OF Cons.prems(1)] nth upd self ns split_beta Let_def)
qed

lemma quiet_check:
  assumes "quiet s" and "length (nextCall s) = length periodicCallInterval"
  shows "\<exists>k. CcdCallBacks run cur s = Some ([], fst (due cur CcdPERIODIC_FIRST (nextCall s) periodicCallInterval),
    s\<lparr>nSkip := k, numchecks := int k, lastCheck := cur,
      nextCall := snd (due cur CcdPERIODIC_FIRST (nextCall s) periodicCallInterval)\<rparr>)"
proof -
  let ?k = "next_skip (nSkip s) (cur - lastCheck s) (resolution s)"
  let ?s = "s\<lparr>nSkip := ?k, numchecks := int ?k, lastCheck := cur\<rparr>"
  have q: "quiet ?s"
    using assms(1) by (simp add: quiet_def)
  have "ccd_heap_update run cur [] ?s = Some ([], ?s)"
    using assms(1) by (subst ccd_heap_update.simps) (simp add: quiet_def)
  with quiet_periodic [OF q, of "[]" "nextCall s" 0 periodicCallInterval run cur] assms(2) show ?thesis
    by (auto simp: CcdCallBacks_def Let_def)
qed

lemma length_due: "length (snd (due cur c ns vs)) = length ns"
  by (induction cur c ns vs rule: due.induct) (auto simp: split_beta)

fun due_checks :: "real list \<Rightarrow> real list \<Rightarrow> nat list list" where
  "due_checks [] ns = []"
| "due_checks (t # ts) ns =
     fst (due t CcdPERIODIC_FIRST ns periodicCallInterval)
       # due_checks ts (snd (due t CcdPERIODIC_FIRST ns periodicCallInterval))"

lemma checks_quiet:
  assumes "quiet s" and "length (nextCall s) = length periodicCallInterval"
  shows "checks run ts s = due_checks ts (nextCall s)"
  using assms
proof (induction ts arbitrary: s)
  case (Cons t ts)
  obtain k where k: "CcdCallBacks run t s =
      Some ([], fst (due t CcdPERIODIC_FIRST (nextCall s) periodicCallInterval),
        s\<lparr>nSkip := k, numchecks := int k, lastCheck := t,
          nextCall := snd (due t CcdPERIODIC_FIRST (nextCall s) periodicCallInterval)\<rparr>)"
    using quiet_check [OF Cons.prems] by blast
  show ?case
    using Cons.prems by (simp add: k Cons.IH quiet_def length_due)
qed simp

lemma quiet_start:
  "quiet (CcdModuleInit 0 f a) \<and> nextCall (CcdModuleInit 0 f a) = periodicCallInterval"
  by (simp add: quiet_def CcdModuleInit_def CcdCallOnConditionKeep_def append_elem_def Let_def CcdPERIODIC_FIRST_def)

text \<open>The loop over the periodic conditions stops at the first one that is not due.  Of a
  process started at 0 and checked every minute, the five-minute condition, due at 300, is not
  raised then, because the two-minute condition is due only at 360; it is raised after six minutes.\<close>

theorem five_minute_condition_is_late:
  "checks (run_action 0) [60, 120, 180, 240, 300, 360] (CcdModuleInit 0 Reset ())
     = [[5..<12], [5..<13], [5..<12], [5..<13], [5..<12], [5..<14]]"
proof -
  have "checks (run_action 0) [60, 120, 180, 240, 300, 360] (CcdModuleInit 0 Reset ())
      = due_checks [60, 120, 180, 240, 300, 360] periodicCallInterval"
    using quiet_start [of Reset "()"] by (subst checks_quiet) simp_all
  also have "\<dots> = [[5..<12], [5..<13], [5..<12], [5..<13], [5..<12], [5..<14]]"
    by (simp add: periodicCallInterval_def CcdPERIODIC_FIRST_def upt_rec)
  finally show ?thesis .
qed

end
