(* ===== verification/Persistent_Protocol.thy ===== *)
theory Persistent_Protocol
  imports Persistent
begin

text \<open>
  The credit protocol of persistent channels between PEs: a system of PEs with their tables, the receive
  buffers of each process, the messages and the puts in flight, and a step relation that runs the operations and handlers
  of \<^verbatim>\<open>Persistent\<close> in any order.  A put is complete locally before its notification is sent, and its data are in
  the buffer before the notification is handled; this is the ordering the source relies on.  Channels are made by
  \<^verbatim>\<open>CmiCreatePersistent\<close> and are not torn down here: \<^verbatim>\<open>CmiDestroyPersistent\<close>, \<^verbatim>\<open>persistentDestroyHandler\<close> and
  \<^verbatim>\<open>CmiDestroyAllPersistent\<close>, which free buffers a handler may still hold, are no steps, and neither is the pair
  \<^verbatim>\<open>CmiCreateReceiverPersistent\<close> and \<^verbatim>\<open>CmiRegisterReceivePersistent\<close>.
\<close>

section \<open>The system\<close>

type_synonym chan = "int \<times> nat"

text \<open>The fields after the messages and puts in flight are a record of the history: what was sent on
  a channel, what was written to a buffer, what reached a handler, and for which channel receive slots and
  buffers were made.  No step depends on them.\<close>

record 'm psys =
  tab :: "int \<Rightarrow> 'm ppe"
  pm :: "int \<Rightarrow> 'm pmem"
  net :: "(int \<times> 'm pmsg) multiset"
  puts :: "(int \<times> nat option \<times> nat \<times> 'm PutContext) multiset"
  sent :: "chan \<Rightarrow> 'm list"
  issued :: "chan \<Rightarrow> 'm list"
  handled :: "chan \<Rightarrow> 'm list"
  rowner :: "int \<Rightarrow> nat \<Rightarrow> chan option"
  owner :: "int \<Rightarrow> nat \<Rightarrow> chan option"

definition rk :: "penv \<Rightarrow> int \<Rightarrow> int" where
  "rk env pe = pv_global env (pv_nodeOf env pe)"

fun out_net :: "'m pout list \<Rightarrow> (int \<times> 'm pmsg) multiset" where
  "out_net [] = {#}"
| "out_net (SendTo d m # os) = add_mset (d, m) (out_net os)"
| "out_net (_ # os) = out_net os"

fun out_puts :: "'m pout list \<Rightarrow> (int \<times> nat option \<times> nat \<times> 'm PutContext) multiset" where
  "out_puts [] = {#}"
| "out_puts (IssueRput n r d m k ctx # os) = add_mset (n, r, d, ctx) (out_puts os)"
| "out_puts (_ # os) = out_puts os"

text \<open>The messages written to a buffer, in order: each is put or travels in its notification.\<close>

fun out_issued :: "'m pout list \<Rightarrow> 'm list" where
  "out_issued [] = []"
| "out_issued (IssueRput n r d m k ctx # os) = m # out_issued os"
| "out_issued (SendTo d (DataMsg dh sh sp i n (Some m)) # os) = m # out_issued os"
| "out_issued (_ # os) = out_issued os"

lemma out_append [simp]:
  "out_net (xs @ ys) = out_net xs + out_net ys"
  "out_puts (xs @ ys) = out_puts xs + out_puts ys"
  "out_issued (xs @ ys) = out_issued xs @ out_issued ys"
proof -
  show "out_net (xs @ ys) = out_net xs + out_net ys"
    by (induction xs rule: out_net.induct) auto
  show "out_puts (xs @ ys) = out_puts xs + out_puts ys"
    by (induction xs rule: out_puts.induct) auto
  show "out_issued (xs @ ys) = out_issued xs @ out_issued ys"
    by (induction xs rule: out_issued.induct) auto
qed

definition emit :: "'m pout list \<Rightarrow> 'm psys \<Rightarrow> 'm psys" where
  "emit outs s = s\<lparr>net := net s + out_net outs, puts := puts s + out_puts outs\<rparr>"

definition note_issued :: "chan \<Rightarrow> 'm pout list \<Rightarrow> 'm psys \<Rightarrow> 'm psys" where
  "note_issued c outs s = s\<lparr>issued := (issued s)(c := issued s c @ out_issued outs)\<rparr>"

definition take_msg :: "int \<times> 'm pmsg \<Rightarrow> 'm psys \<Rightarrow> 'm psys" where
  "take_msg x s = s\<lparr>net := net s - {#x#}\<rparr>"

text \<open>Fresh memory for a receive slot: an unused address for the slot and unused, distinct addresses for the
  buffers, each registered where puts are available.\<close>

definition fresh_recv :: "penv \<Rightarrow> 'm psys \<Rightarrow> int \<Rightarrow> nat \<Rightarrow> nat list \<Rightarrow> bool" where
  "fresh_recv env s q r bases \<longleftrightarrow>
     length bases = PERSIST_BUFFERS_NUM \<and> distinct bases \<and> rowner s q r = None \<and> r \<notin> set (recvVec (tab s q))
     \<and> (\<forall>b \<in> set bases. owner s (rk env q) (b + kMsgOffset) = None)"

inductive pstep :: "penv \<Rightarrow> 'm psys \<Rightarrow> 'm psys \<Rightarrow> bool" for env where
  create:
    "sendHeap (tab s p) a = None \<Longrightarrow> a \<notin> set (sendVec (tab s p)) \<Longrightarrow> 0 < mb \<Longrightarrow> mb \<le> 2 ^ 31 - 16
     \<Longrightarrow> CmiCreatePersistent env p a q mb (tab s p) = Inr (outs, h, st)
     \<Longrightarrow> pstep env s (emit outs (s\<lparr>tab := (tab s)(p := st)\<rparr>))"
| send:
    "sendHeap (tab s p) a = Some slot \<Longrightarrow> \<not> isLocal slot \<Longrightarrow> 0 \<le> n
     \<Longrightarrow> CmiSendPersistentMsg env p (Some a) n m (tab s p) = Inr (outs, st)
     \<Longrightarrow> pstep env s (note_issued (p, a) outs (emit outs
           (s\<lparr>tab := (tab s)(p := st), sent := (sent s)((p, a) := sent s (p, a) @ [m])\<rparr>)))"
| request:
    "(q, RequestMsg p mb (Some a)) \<in># net s \<Longrightarrow> fresh_recv env s q r bases
     \<Longrightarrow> persistentRequestHandler env r (map Some bases) (map Some bases) p mb (Some a) (pm s (rk env q), tab s q)
           = Inr (outs, mem, st)
     \<Longrightarrow> pstep env s (emit outs (take_msg (q, RequestMsg p mb (Some a)) (s\<lparr>tab := (tab s)(q := st),
           pm := (pm s)(rk env q := mem), rowner := (rowner s)(q := (rowner s q)(r \<mapsto> (p, a))),
           owner := (owner s)(rk env q := (\<lambda>x. if x \<in> (\<lambda>b. b + kMsgOffset) ` set bases then Some (p, a)
                                                else owner s (rk env q) x))\<rparr>)))"
| granted:
    "(p, ReqGrantedMsg (Some a) dh descs) \<in># net s
     \<Longrightarrow> persistentReqGrantedHandler env p (Some a) dh descs (tab s p) = (outs, st)
     \<Longrightarrow> pstep env s (note_issued (p, a) outs (emit outs
           (take_msg (p, ReqGrantedMsg (Some a) dh descs) (s\<lparr>tab := (tab s)(p := st)\<rparr>))))"
| data:
    "(q, DataMsg dh (Some a) p i n payload) \<in># net s
     \<Longrightarrow> persistentDataHandler dh (Some a) p i n payload (pm s (rk env q), tab s q) = Inr ([HandleMessage x], mem, st)
     \<Longrightarrow> mem x = Some b \<Longrightarrow> b_data b = Some m
     \<Longrightarrow> pstep env s (take_msg (q, DataMsg dh (Some a) p i n payload)
           (s\<lparr>tab := (tab s)(q := st), pm := (pm s)(rk env q := mem),
              handled := (handled s)((p, a) := handled s (p, a) @ [m])\<rparr>))"
| credit:
    "(p, CreditMsg (Some a) i) \<in># net s
     \<Longrightarrow> persistentCreditHandler env p (Some a) i (tab s p) = Inr (outs, st)
     \<Longrightarrow> pstep env s (note_issued (p, a) outs (emit outs
           (take_msg (p, CreditMsg (Some a) i) (s\<lparr>tab := (tab s)(p := st)\<rparr>))))"
| put_done:
    "(k, Some base, d, ctx) \<in># puts s \<Longrightarrow> pm s k (base + d) = Some b
     \<Longrightarrow> pstep env s (emit (persistentPutDone ctx)
           (s\<lparr>puts := puts s - {#(k, Some base, d, ctx)#},
              pm := (pm s)(k := (pm s k)(base + d \<mapsto> b\<lparr>b_data := Some (pc_msg ctx)\<rparr>))\<rparr>))"
| release:
    "pm s (rk env q) x = Some b \<Longrightarrow> b_srcHandle b = Some a
     \<Longrightarrow> free_received x (pm s (rk env q)) = Inr (outs, mem)
     \<Longrightarrow> pstep env s (emit outs (s\<lparr>pm := (pm s)(rk env q := mem)\<rparr>))"

definition psys_init :: "'m psys" where
  "psys_init = \<lparr>tab = (\<lambda>_. CmiPersistentInit), pm = (\<lambda>_. Map.empty), net = {#}, puts = {#}, sent = (\<lambda>_. []),
     issued = (\<lambda>_. []), handled = (\<lambda>_. []), rowner = (\<lambda>_. Map.empty), owner = (\<lambda>_. Map.empty)\<rparr>"

inductive preach :: "penv \<Rightarrow> 'm psys \<Rightarrow> bool" for env where
  start: "preach env psys_init"
| step: "preach env s \<Longrightarrow> pstep env s s' \<Longrightarrow> preach env s'"

section \<open>The state of a buffer\<close>

text \<open>Each buffer of a channel goes through five states; its messages and puts in flight, its flag at the
  sender and its header at the receiver are a function of its state.\<close>

datatype 'm bstate = Idle | InPut 'm int | InData 'm int bool | Held 'm | InCredit

fun conc_msg :: "int \<Rightarrow> int \<Rightarrow> nat \<Rightarrow> nat \<Rightarrow> nat \<Rightarrow> 'm bstate \<Rightarrow> (int \<times> 'm pmsg) multiset" where
  "conc_msg q p a r i (InData m n inl) = {#(q, DataMsg (Some r) (Some a) p (int i) n (if inl then Some m else None))#}"
| "conc_msg q p a r i InCredit = {#(p, CreditMsg (Some a) (int i))#}"
| "conc_msg q p a r i _ = {#}"

fun conc_put ::
  "int \<Rightarrow> int \<Rightarrow> PersistentBufDesc list \<Rightarrow> int \<Rightarrow> nat \<Rightarrow> nat \<Rightarrow> nat \<Rightarrow> 'm bstate
     \<Rightarrow> (int \<times> nat option \<times> nat \<times> 'm PutContext) multiset" where
  "conc_put k q descs p a r i (InPut m n) =
     {#(k, bd_rmr (descs ! i), bd_disp (descs ! i),
        \<lparr>pc_destHandler = Some r, pc_srcHandler = Some a, pc_destPE = q, pc_srcPE = p, pc_bufIndex = i,
         pc_size = n, pc_msg = m\<rparr>)#}"
| "conc_put k q descs p a r i _ = {#}"

fun content :: "'m bstate \<Rightarrow> 'm multiset" where
  "content (InPut m n) = {#m#}"
| "content (InData m n inl) = {#m#}"
| "content _ = {#}"

fun buf_ok :: "int \<Rightarrow> nat \<Rightarrow> 'm bstate \<Rightarrow> 'm pbuf \<Rightarrow> bool" where
  "buf_ok p a (Held m) b \<longleftrightarrow> b_srcHandle b = Some a \<and> b_srcPE b = p \<and> b_data b = Some m \<and> c_ref b = CMK_PERSISTENT_REFBASE + 1"
| "buf_ok p a (InData m n inl) b \<longleftrightarrow> b_srcHandle b = None \<and> (\<not> inl \<longrightarrow> b_data b = Some m)"
| "buf_ok p a _ b \<longleftrightarrow> b_srcHandle b = None"

fun size_ok :: "int \<Rightarrow> 'm bstate \<Rightarrow> bool" where
  "size_ok k (InPut m n) \<longleftrightarrow> 0 \<le> n \<and> n \<le> k"
| "size_ok k (InData m n inl) \<longleftrightarrow> 0 \<le> n \<and> n \<le> k"
| "size_ok k _ \<longleftrightarrow> True"

fun is_put :: "'m bstate \<Rightarrow> bool" where
  "is_put (InPut m n) \<longleftrightarrow> True"
| "is_put _ \<longleftrightarrow> False"

text \<open>The channel a message belongs to.\<close>

fun chan_of :: "int \<times> 'm pmsg \<Rightarrow> (int \<times> phandle) option" where
  "chan_of (d, RequestMsg p mb h) = Some (p, h)"
| "chan_of (d, ReqGrantedMsg h dh descs) = Some (d, h)"
| "chan_of (d, DataMsg dh h p i n payload) = Some (p, h)"
| "chan_of (d, CreditMsg h i) = Some (d, h)"
| "chan_of (d, DestroyMsg h) = None"

fun put_chan :: "int \<times> nat option \<times> nat \<times> 'm PutContext \<Rightarrow> int \<times> phandle" where
  "put_chan (k, r, d, ctx) = (pc_srcPE ctx, pc_srcHandler ctx)"

definition msgs_of :: "'m psys \<Rightarrow> chan \<Rightarrow> (int \<times> 'm pmsg) multiset" where
  "msgs_of s c = {#x \<in># net s. chan_of x = Some (fst c, Some (snd c))#}"

definition puts_of :: "'m psys \<Rightarrow> chan \<Rightarrow> (int \<times> nat option \<times> nat \<times> 'm PutContext) multiset" where
  "puts_of s c = {#x \<in># puts s. put_chan x = (fst c, Some (snd c))#}"

section \<open>Writing to free buffers\<close>

abbreviation NB :: nat where
  "NB \<equiv> PERSIST_BUFFERS_NUM"

definition all_msgs :: "int \<Rightarrow> 'm PersistentSendsTable \<Rightarrow> nat \<Rightarrow> nat \<Rightarrow> (nat \<Rightarrow> 'm bstate) \<Rightarrow> (int \<times> 'm pmsg) multiset" where
  "all_msgs p slot a r ts = (\<Sum>i < NB. conc_msg (destPE slot) p a r i (ts i))"

definition all_puts ::
  "int \<Rightarrow> 'm PersistentSendsTable \<Rightarrow> nat \<Rightarrow> nat \<Rightarrow> (nat \<Rightarrow> 'm bstate) \<Rightarrow> (int \<times> nat option \<times> nat \<times> 'm PutContext) multiset" where
  "all_puts p slot a r ts = (\<Sum>i < NB. conc_put (destNodeGlobal slot) (destPE slot) (bufs slot) p a r i (ts i))"

definition all_content :: "(nat \<Rightarrow> 'm bstate) \<Rightarrow> 'm multiset" where
  "all_content ts = (\<Sum>i < NB. content (ts i))"

definition busy_ok :: "'m PersistentSendsTable \<Rightarrow> (nat \<Rightarrow> 'm bstate) \<Rightarrow> bool" where
  "busy_ok slot ts \<longleftrightarrow> length (busy slot) = NB \<and> nextBuf slot < NB \<and> (\<forall>i < NB. busy slot ! i \<longleftrightarrow> ts i \<noteq> Idle)
     \<and> (\<forall>i < NB. size_ok (s_sizeMax slot) (ts i)) \<and> (\<forall>i < NB. is_put (ts i) \<longrightarrow> useRdma slot)
     \<and> (\<forall>x \<in> set (pending slot). 0 \<le> snd x \<and> snd x \<le> s_sizeMax slot)"

text \<open>Two slots that differ in nothing but the use of their buffers and their queue.\<close>

definition same_slot :: "'m PersistentSendsTable \<Rightarrow> 'm PersistentSendsTable \<Rightarrow> bool" where
  "same_slot s s' \<longleftrightarrow> s' = s\<lparr>busy := busy s', nextBuf := nextBuf s', pending := pending s'\<rparr>"

lemma same_slot_refl [simp]: "same_slot s s"
  by (simp add: same_slot_def)

lemma same_slot_trans: "same_slot s1 s2 \<Longrightarrow> same_slot s2 s3 \<Longrightarrow> same_slot s1 s3"
  unfolding same_slot_def by (cases s1, cases s2, cases s3) auto

lemma same_slot_fields:
  assumes "same_slot s s'"
  shows "destPE s' = destPE s" "destNode s' = destNode s" "destNodeGlobal s' = destNodeGlobal s" "s_sizeMax s' = s_sizeMax s"
    "isLocal s' = isLocal s" "useRdma s' = useRdma s" "setupDone s' = setupDone s" "destHandle s' = destHandle s" "bufs s' = bufs s"
  using assms unfolding same_slot_def by (cases s, cases s', auto)+

text \<open>Writing messages of the queue to idle buffers.\<close>

definition issues ::
  "int \<Rightarrow> nat \<Rightarrow> nat \<Rightarrow> 'm PersistentSendsTable \<Rightarrow> (nat \<Rightarrow> 'm bstate) \<Rightarrow> 'm pout list \<Rightarrow> 'm PersistentSendsTable
     \<Rightarrow> (nat \<Rightarrow> 'm bstate) \<Rightarrow> bool" where
  "issues p a r slot ts outs slot' ts' \<longleftrightarrow>
     same_slot slot slot' \<and> busy_ok slot' ts'
     \<and> (\<forall>i b. buf_ok p a (ts i) b \<longrightarrow> buf_ok p a (ts' i) b)
     \<and> out_net outs + all_msgs p slot a r ts = all_msgs p slot a r ts'
     \<and> out_puts outs + all_puts p slot a r ts = all_puts p slot a r ts'
     \<and> mset (out_issued outs) + all_content ts = all_content ts'
     \<and> map fst (pending slot) = out_issued outs @ map fst (pending slot')"

lemma NB_pos [simp]: "0 < NB"
  by (simp add: PERSIST_BUFFERS_NUM_def)

lemma sum_upd:
  fixes f :: "nat \<Rightarrow> 'b \<Rightarrow> 'c multiset"
  assumes "i < n"
  shows "(\<Sum>j < n. f j ((ts(i := t)) j)) + f i (ts i) = (\<Sum>j < n. f j (ts j)) + f i t"
proof -
  have "(\<Sum>j \<in> {..<n} - {i}. f j ((ts(i := t)) j)) = (\<Sum>j \<in> {..<n} - {i}. f j (ts j))"
    by (rule sum.cong) auto
  then show ?thesis
    using assms by (simp add: sum.remove [of "{..<n}" i])
qed

lemma sum_swap:
  fixes f :: "nat \<Rightarrow> 'b \<Rightarrow> 'c multiset"
  assumes "i < n"
  shows "(\<Sum>j < n. f j (ts j)) - f i (ts i) + f i t = (\<Sum>j < n. f j ((ts(i := t)) j))"
proof -
  have "(\<Sum>j \<in> {..<n} - {i}. f j ((ts(i := t)) j)) = (\<Sum>j \<in> {..<n} - {i}. f j (ts j))"
    by (rule sum.cong) auto
  then show ?thesis
    using assms by (simp add: sum.remove [of "{..<n}" i])
qed

lemmas upd_msgs = sum_upd [of _ NB "\<lambda>j. conc_msg q p a r j" for q p a r]
lemmas upd_puts = sum_upd [of _ NB "\<lambda>j. conc_put k q descs p a r j" for k q descs p a r]
lemmas upd_content = sum_upd [of _ NB "\<lambda>j. content"]

lemma findFree_None:
  assumes "busy_ok slot ts" and "findFreeBuffer slot = (None, slot')"
  shows "slot' = slot \<and> (\<forall>i < NB. ts i \<noteq> Idle)"
proof -
  have f: "find (\<lambda>i. \<not> busy slot ! ((nextBuf slot + i) mod NB)) [0..<NB] = None" and s: "slot' = slot"
    using assms(2) by (auto simp: findFreeBuffer_def Let_def split: option.splits)
  have all: "\<forall>i < NB. busy slot ! ((nextBuf slot + i) mod NB)"
    using f by (auto simp: find_None_iff)
  have "busy slot ! i" if "i < NB" for i
  proof -
    let ?j = "(i + NB - nextBuf slot) mod NB"
    have "nextBuf slot < NB"
      using assms(1) by (simp add: busy_ok_def)
    then have "(nextBuf slot + ?j) mod NB = (nextBuf slot + (i + NB - nextBuf slot)) mod NB"
      by (simp add: mod_add_right_eq)
    also have "\<dots> = i"
      using \<open>nextBuf slot < NB\<close> that by simp
    finally have "(nextBuf slot + ?j) mod NB = i" .
    moreover have "?j < NB"
      by simp
    ultimately show ?thesis
      using all by metis
  qed
  with s assms(1) show ?thesis
    by (simp add: busy_ok_def)
qed

lemma findFree_Some:
  assumes "busy_ok slot ts" and "findFreeBuffer slot = (Some i, slot')"
  shows "i < NB \<and> ts i = Idle \<and> same_slot slot slot' \<and> busy_ok slot' ts \<and> pending slot' = pending slot"
proof -
  obtain j where j: "find (\<lambda>i. \<not> busy slot ! ((nextBuf slot + i) mod NB)) [0..<NB] = Some j"
    "i = (nextBuf slot + j) mod NB" "slot' = slot\<lparr>nextBuf := (i + 1) mod NB\<rparr>"
    using assms(2) by (auto simp: findFreeBuffer_def Let_def split: option.splits)
  have "\<not> busy slot ! i"
    using j(1,2) by (auto simp: find_Some_iff)
  moreover have "i < NB"
    by (simp add: j(2))
  ultimately show ?thesis
    using assms(1) by (auto simp: busy_ok_def j(3) same_slot_def)
qed

lemma write_issues:
  assumes "busy_ok slot ts" and "i < NB" and "ts i = Idle" and "0 \<le> n" and "n \<le> s_sizeMax slot"
    and "destHandle slot = Some r" and "writeToBuffer env p a i n m slot = (outs, slot')"
  shows "\<exists>t. same_slot slot slot' \<and> busy_ok slot' (ts(i := t)) \<and> pending slot' = pending slot \<and> out_issued outs = [m]
     \<and> (\<forall>j b. buf_ok p a (ts j) b \<longrightarrow> buf_ok p a ((ts(i := t)) j) b)
     \<and> out_net outs + all_msgs p slot a r ts = all_msgs p slot a r (ts(i := t))
     \<and> out_puts outs + all_puts p slot a r ts = all_puts p slot a r (ts(i := t))
     \<and> {#m#} + all_content ts = all_content (ts(i := t))"
proof -
  define t where "t = (if useRdma slot \<and> \<not> pv_ipc env (destNode slot) then InPut m n else InData m n True)"
  have s': "slot' = slot\<lparr>busy := (busy slot)[i := True]\<rparr>"
    using assms(7) by (auto simp: writeToBuffer_def Let_def split: if_splits)
  have ss: "same_slot slot slot'" and pend: "pending slot' = pending slot"
    by (simp_all add: s' same_slot_def)
  have b: "busy_ok slot' (ts(i := t))"
    using assms(1-5) by (auto simp: busy_ok_def s' nth_list_update t_def)
  have keep: "\<forall>j b. buf_ok p a (ts j) b \<longrightarrow> buf_ok p a ((ts(i := t)) j) b"
    using assms(3) by (simp add: t_def)
  have c: "{#m#} + all_content ts = all_content (ts(i := t))"
    using upd_content [OF assms(2), of ts t] assms(3) by (simp add: all_content_def t_def split: if_splits)
  have o: "out_issued outs = [m]" "out_net outs = conc_msg (destPE slot) p a r i t"
    "out_puts outs = conc_put (destNodeGlobal slot) (destPE slot) (bufs slot) p a r i t"
    using assms(6,7) by (auto simp: writeToBuffer_def sendNotification_def Let_def t_def split: if_splits)
  have "out_net outs + all_msgs p slot a r ts = all_msgs p slot a r (ts(i := t))"
    using upd_msgs [OF assms(2), of "destPE slot" p a r ts t] assms(3) by (simp add: all_msgs_def o(2))
  moreover have "out_puts outs + all_puts p slot a r ts = all_puts p slot a r (ts(i := t))"
    using upd_puts [OF assms(2), of "destNodeGlobal slot" "destPE slot" "bufs slot" p a r ts t] assms(3)
    by (simp add: all_puts_def o(3))
  ultimately show ?thesis
    using ss b pend o(1) keep c by blast
qed

lemma same_slot_sums:
  assumes "same_slot slot slot'"
  shows "all_msgs p slot' a r ts = all_msgs p slot a r ts" "all_puts p slot' a r ts = all_puts p slot a r ts"
  using same_slot_fields [OF assms] by (simp_all add: all_msgs_def all_puts_def)

lemma issues_refl: "busy_ok slot ts \<Longrightarrow> issues p a r slot ts [] slot ts"
  by (simp add: issues_def)

text \<open>One message of the queue written to a free buffer.\<close>

definition writes ::
  "int \<Rightarrow> nat \<Rightarrow> nat \<Rightarrow> 'm PersistentSendsTable \<Rightarrow> (nat \<Rightarrow> 'm bstate) \<Rightarrow> 'm \<Rightarrow> 'm pout list \<Rightarrow> 'm PersistentSendsTable
     \<Rightarrow> (nat \<Rightarrow> 'm bstate) \<Rightarrow> bool" where
  "writes p a r slot ts m outs slot' ts' \<longleftrightarrow>
     same_slot slot slot' \<and> busy_ok slot' ts' \<and> out_issued outs = [m]
     \<and> (\<forall>i b. buf_ok p a (ts i) b \<longrightarrow> buf_ok p a (ts' i) b)
     \<and> out_net outs + all_msgs p slot a r ts = all_msgs p slot a r ts'
     \<and> out_puts outs + all_puts p slot a r ts = all_puts p slot a r ts'
     \<and> {#m#} + all_content ts = all_content ts'"

lemma add_chain: "a + x = y \<Longrightarrow> b + y = z \<Longrightarrow> (a + b) + x = z" for a :: "'b multiset"
  by (metis union_assoc union_commute)

lemma issues_step:
  assumes w: "writes p a r slot ts m o1 slot1 ts1" and pend: "pending slot = (m, n) # pending slot1"
    and i: "issues p a r slot1 ts1 o2 slot2 ts2"
  shows "issues p a r slot ts (o1 @ o2) slot2 ts2"
proof -
  have same: "same_slot slot slot1"
    using w by (simp add: writes_def)
  have "out_net o1 + all_msgs p slot a r ts = all_msgs p slot a r ts1"
    "out_net o2 + all_msgs p slot a r ts1 = all_msgs p slot a r ts2"
    using w i by (simp_all add: writes_def issues_def same_slot_sums [OF same])
  then have 1: "out_net (o1 @ o2) + all_msgs p slot a r ts = all_msgs p slot a r ts2"
    by (simp add: add_chain)
  have "out_puts o1 + all_puts p slot a r ts = all_puts p slot a r ts1"
    "out_puts o2 + all_puts p slot a r ts1 = all_puts p slot a r ts2"
    using w i by (simp_all add: writes_def issues_def same_slot_sums [OF same])
  then have 2: "out_puts (o1 @ o2) + all_puts p slot a r ts = all_puts p slot a r ts2"
    by (simp add: add_chain)
  have c: "{#m#} + all_content ts = all_content ts1" "mset (out_issued o2) + all_content ts1 = all_content ts2"
    and o: "out_issued o1 = [m]"
    using w i by (simp_all add: writes_def issues_def)
  have 3: "mset (out_issued (o1 @ o2)) + all_content ts = all_content ts2"
    using add_chain [OF c] by (simp add: o)
  have 4: "same_slot slot slot2"
    using i same_slot_trans [OF same] by (simp add: issues_def)
  have 5: "\<forall>i b. buf_ok p a (ts i) b \<longrightarrow> buf_ok p a (ts2 i) b" "busy_ok slot2 ts2"
    using w i by (simp_all add: writes_def issues_def)
  have "map fst (pending slot) = out_issued (o1 @ o2) @ map fst (pending slot2)"
    using i pend o by (simp add: issues_def)
  with 1 2 3 4 5 show ?thesis
    by (simp add: issues_def)
qed

lemma busy_ok_pop: "busy_ok slot ts \<Longrightarrow> pending slot = x # rest \<Longrightarrow> busy_ok (slot\<lparr>pending := rest\<rparr>) ts"
  by (auto simp: busy_ok_def)

lemma same_slot_pending: "same_slot s s' \<Longrightarrow> same_slot s (s'\<lparr>pending := xs\<rparr>)"
  unfolding same_slot_def by (cases s, cases s') auto

text \<open>A message written to the buffer found, from a slot that has handed it over.\<close>

lemma found_writes:
  assumes b: "busy_ok slot ts" and d: "destHandle slot = Some r" and n: "0 \<le> n" "n \<le> s_sizeMax slot"
    and f: "findFreeBuffer slot = (Some i, slot1)" and rest: "busy_ok (slot1\<lparr>pending := rest\<rparr>) ts"
    and w: "writeToBuffer env p a i n m (slot1\<lparr>pending := rest\<rparr>) = (outs, slot2)"
  shows "\<exists>ts'. writes p a r slot ts m outs slot2 ts' \<and> pending slot2 = rest"
proof -
  let ?slot1 = "slot1\<lparr>pending := rest\<rparr>"
  have free: "i < NB" "ts i = Idle" "same_slot slot ?slot1"
    using findFree_Some [OF b f] same_slot_pending by auto
  note same = same_slot_fields [OF free(3)]
  have "n \<le> s_sizeMax ?slot1" "destHandle ?slot1 = Some r"
    using n(2) d same(4,8) by simp_all
  from write_issues [OF rest free(1,2) n(1) this w]
  obtain t where "same_slot ?slot1 slot2" "busy_ok slot2 (ts(i := t))" "pending slot2 = rest" "out_issued outs = [m]"
    "\<forall>j b. buf_ok p a (ts j) b \<longrightarrow> buf_ok p a ((ts(i := t)) j) b"
    "out_net outs + all_msgs p ?slot1 a r ts = all_msgs p ?slot1 a r (ts(i := t))"
    "out_puts outs + all_puts p ?slot1 a r ts = all_puts p ?slot1 a r (ts(i := t))"
    "{#m#} + all_content ts = all_content (ts(i := t))"
    by auto
  then have "writes p a r slot ts m outs slot2 (ts(i := t))" "pending slot2 = rest"
    using same_slot_trans [OF free(3)] by (simp_all add: writes_def same_slot_sums [OF free(3)])
  then show ?thesis
    by blast
qed

lemma flush_issues:
  assumes "busy_ok slot ts" and "destHandle slot = Some r" and "flushPending env p a slot = (outs, slot')"
  shows "\<exists>ts'. issues p a r slot ts outs slot' ts' \<and> (pending slot' \<noteq> [] \<longrightarrow> (\<forall>i < NB. ts' i \<noteq> Idle))"
  using assms
proof (induction "length (pending slot)" arbitrary: slot ts outs)
  case 0
  then have "outs = []" "slot' = slot"
    by (subst (asm) flushPending.simps, simp)+
  with 0 show ?case
    using issues_refl by force
next
  case (Suc k)
  obtain m n rest where pend: "pending slot = (m, n) # rest"
    using Suc.hyps(2) by (cases "pending slot") auto
  obtain f slot1 where f: "findFreeBuffer slot = (f, slot1)"
    by fastforce
  show ?case
  proof (cases f)
    case None
    then have "outs = []" "slot' = slot"
      using Suc.prems(3) f pend by (subst (asm) flushPending.simps, simp)+
    with None f findFree_None [OF Suc.prems(1)] issues_refl [OF Suc.prems(1)] show ?thesis
      by force
  next
    case (Some i)
    note found = f [unfolded Some]
    have b1: "busy_ok (slot1\<lparr>pending := rest\<rparr>) ts"
      using findFree_Some [OF Suc.prems(1) found] pend by (intro busy_ok_pop) auto
    obtain o1 slot2 where w: "writeToBuffer env p a i n m (slot1\<lparr>pending := rest\<rparr>) = (o1, slot2)"
      by fastforce
    obtain o2 slot3 where fl: "flushPending env p a slot2 = (o2, slot3)"
      by fastforce
    have res: "outs = o1 @ o2" "slot' = slot3"
      using Suc.prems(3) found pend w fl by (subst (asm) flushPending.simps, simp)+
    have n: "0 \<le> n" "n \<le> s_sizeMax slot"
      using Suc.prems(1) pend by (auto simp: busy_ok_def)
    obtain ts1 where ts1: "writes p a r slot ts m o1 slot2 ts1" "pending slot2 = rest"
      using found_writes [OF Suc.prems(1,2) n found b1 w] by blast
    have "k = length (pending slot2)" "busy_ok slot2 ts1" "destHandle slot2 = Some r" "flushPending env p a slot2 = (o2, slot')"
      using Suc.hyps(2) pend ts1 Suc.prems(2) same_slot_fields(8) [of slot slot2] fl res by (auto simp: writes_def)
    from Suc.hyps(1) [OF this] obtain ts' where
      ts': "issues p a r slot2 ts1 o2 slot' ts'" "pending slot' \<noteq> [] \<longrightarrow> (\<forall>i < NB. ts' i \<noteq> Idle)"
      by blast
    have "issues p a r slot ts outs slot' ts'"
      unfolding res(1) by (rule issues_step [OF ts1(1) _ ts'(1), of n]) (simp add: pend ts1(2))
    with ts'(2) show ?thesis
      by blast
  qed
qed

section \<open>The invariant of a channel\<close>

definition slot_ok :: "penv \<Rightarrow> 'm PersistentSendsTable \<Rightarrow> bool" where
  "slot_ok env slot \<longleftrightarrow> destNodeGlobal slot = rk env (destPE slot) \<and> 0 < s_sizeMax slot
     \<and> align_int (s_sizeMax slot) = s_sizeMax slot \<and> (useRdma slot \<longrightarrow> pv_rdma env)"

text \<open>The receive slot made for a channel, and the descriptors of its buffers.\<close>

definition recv_ok :: "penv \<Rightarrow> 'm psys \<Rightarrow> chan \<Rightarrow> int \<Rightarrow> nat \<Rightarrow> int \<Rightarrow> PersistentBufDesc list \<Rightarrow> bool" where
  "recv_ok env s c q r k descs \<longleftrightarrow>
     rowner s q r = Some c
     \<and> (\<exists>rs. lookupRecvSlot (Some r) (tab s q) = Some (r, rs) \<and> r_sizeMax rs = k \<and> r_msgPtr rs = map bd_addr descs)
     \<and> length descs = NB \<and> distinct (map bd_addr descs)
     \<and> (\<forall>j x. owner s j x = Some c \<longleftrightarrow> j = rk env q \<and> x \<in> bd_addr ` set descs)
     \<and> (\<forall>d \<in> set descs. (pv_rdma env \<longrightarrow> bd_rmr d \<noteq> None) \<and> (\<forall>base. bd_rmr d = Some base \<longrightarrow> base + bd_disp d = bd_addr d))"

definition bufs_ok :: "penv \<Rightarrow> 'm psys \<Rightarrow> chan \<Rightarrow> int \<Rightarrow> PersistentBufDesc list \<Rightarrow> (nat \<Rightarrow> 'm bstate) \<Rightarrow> bool" where
  "bufs_ok env s c q descs ts \<longleftrightarrow>
     (\<forall>i < NB. \<exists>b. pm s (rk env q) (bd_addr (descs ! i)) = Some b \<and> magic b = kBufMagic \<and> b_index b = i
        \<and> buf_ok (fst c) (snd c) (ts i) b)"

text \<open>Before the destination has answered.\<close>

definition waiting :: "penv \<Rightarrow> 'm psys \<Rightarrow> chan \<Rightarrow> 'm PersistentSendsTable \<Rightarrow> bool" where
  "waiting env s c slot \<longleftrightarrow>
     \<not> setupDone slot \<and> busy_ok slot (\<lambda>_. Idle) \<and> puts_of s c = {#} \<and> issued s c = [] \<and> handled s c = []
     \<and> sent s c = map fst (pending slot)
     \<and> (msgs_of s c = {#(destPE slot, RequestMsg (fst c) (s_sizeMax slot) (Some (snd c)))#}
          \<and> (\<forall>j x. owner s j x \<noteq> Some c)
        \<or> (\<exists>r descs. msgs_of s c = {#(fst c, ReqGrantedMsg (Some (snd c)) (Some r) descs)#}
             \<and> recv_ok env s c (destPE slot) r (s_sizeMax slot) descs
             \<and> bufs_ok env s c (destPE slot) descs (\<lambda>_. Idle)))"

text \<open>Once it has.\<close>

definition live :: "penv \<Rightarrow> 'm psys \<Rightarrow> chan \<Rightarrow> 'm PersistentSendsTable \<Rightarrow> nat \<Rightarrow> (nat \<Rightarrow> 'm bstate) \<Rightarrow> bool" where
  "live env s c slot r ts \<longleftrightarrow>
     setupDone slot \<and> destHandle slot = Some r \<and> busy_ok slot ts
     \<and> recv_ok env s c (destPE slot) r (s_sizeMax slot) (bufs slot)
     \<and> bufs_ok env s c (destPE slot) (bufs slot) ts
     \<and> msgs_of s c = all_msgs (fst c) slot (snd c) r ts \<and> puts_of s c = all_puts (fst c) slot (snd c) r ts
     \<and> mset (issued s c) = mset (handled s c) + all_content ts
     \<and> sent s c = issued s c @ map fst (pending slot)
     \<and> (pending slot \<noteq> [] \<longrightarrow> (\<forall>i < NB. ts i \<noteq> Idle))"

definition silent :: "'m psys \<Rightarrow> chan \<Rightarrow> bool" where
  "silent s c \<longleftrightarrow> msgs_of s c = {#} \<and> puts_of s c = {#} \<and> (\<forall>j x. owner s j x \<noteq> Some c)"

definition chan_ok :: "penv \<Rightarrow> 'm psys \<Rightarrow> chan \<Rightarrow> bool" where
  "chan_ok env s c \<longleftrightarrow>
     (case sendHeap (tab s (fst c)) (snd c) of
        None \<Rightarrow> silent s c \<and> sent s c = [] \<and> issued s c = [] \<and> handled s c = []
      | Some slot \<Rightarrow>
          snd c \<in> set (sendVec (tab s (fst c)))
          \<and> (if isLocal slot then silent s c
             else slot_ok env slot \<and> (waiting env s c slot \<or> (\<exists>r ts. live env s c slot r ts))))"

text \<open>Everything in flight belongs to a channel, and so does every buffer.\<close>

definition labelled :: "'m psys \<Rightarrow> bool" where
  "labelled s \<longleftrightarrow> (\<forall>x \<in># net s. \<exists>p a. chan_of x = Some (p, Some a)) \<and> (\<forall>x \<in># puts s. \<exists>p a. put_chan x = (p, Some a))
     \<and> (\<forall>j x. pm s j x \<noteq> None \<longrightarrow> owner s j x \<noteq> None)"

definition psys_ok :: "penv \<Rightarrow> 'm psys \<Rightarrow> bool" where
  "psys_ok env s \<longleftrightarrow> (\<forall>c. chan_ok env s c) \<and> labelled s"

text \<open>A step that leaves everything of a channel alone.\<close>

definition same_for :: "chan \<Rightarrow> 'm psys \<Rightarrow> 'm psys \<Rightarrow> bool" where
  "same_for c s s' \<longleftrightarrow>
     sendHeap (tab s' (fst c)) (snd c) = sendHeap (tab s (fst c)) (snd c)
     \<and> (snd c \<in> set (sendVec (tab s' (fst c))) \<longleftrightarrow> snd c \<in> set (sendVec (tab s (fst c))))
     \<and> msgs_of s' c = msgs_of s c \<and> puts_of s' c = puts_of s c
     \<and> sent s' c = sent s c \<and> issued s' c = issued s c \<and> handled s' c = handled s c
     \<and> (\<forall>q r. rowner s q r = Some c \<longrightarrow> rowner s' q r = Some c \<and> lookupRecvSlot (Some r) (tab s' q) = lookupRecvSlot (Some r) (tab s q))
     \<and> (\<forall>j x. owner s' j x = Some c \<longleftrightarrow> owner s j x = Some c)
     \<and> (\<forall>j x. owner s j x = Some c \<longrightarrow> pm s' j x = pm s j x)"

lemma same_history:
  assumes "same_for c s s'"
  shows "msgs_of s' c = msgs_of s c" "puts_of s' c = puts_of s c" "sent s' c = sent s c" "issued s' c = issued s c"
    "handled s' c = handled s c" "owner s' j x = Some c \<longleftrightarrow> owner s j x = Some c"
  using assms by (simp_all add: same_for_def)

lemma same_recv_ok:
  assumes "same_for c s s'" and "recv_ok env s c q r k descs"
  shows "recv_ok env s' c q r k descs"
proof -
  have "rowner s q r = Some c"
    using assms(2) by (simp add: recv_ok_def)
  then have "rowner s' q r = Some c" "lookupRecvSlot (Some r) (tab s' q) = lookupRecvSlot (Some r) (tab s q)"
    using assms(1) by (simp_all add: same_for_def)
  with assms(2) show ?thesis
    by (simp add: recv_ok_def same_history(6) [OF assms(1)])
qed

lemma recv_owner:
  assumes "recv_ok env s c q r k descs" and "i < NB"
  shows "owner s (rk env q) (bd_addr (descs ! i)) = Some c"
  using assms by (simp add: recv_ok_def)

lemma same_bufs_ok:
  assumes "same_for c s s'" and "recv_ok env s c q r k descs" and "bufs_ok env s c q descs ts"
  shows "bufs_ok env s' c q descs ts"
proof -
  have "pm s' (rk env q) (bd_addr (descs ! i)) = pm s (rk env q) (bd_addr (descs ! i))" if "i < NB" for i
    using recv_owner [OF assms(2) that] assms(1) by (simp add: same_for_def)
  with assms(3) show ?thesis
    by (simp add: bufs_ok_def)
qed

lemma same_live:
  assumes "same_for c s s'" and "live env s c slot r ts"
  shows "live env s' c slot r ts"
proof -
  have r: "recv_ok env s c (destPE slot) r (s_sizeMax slot) (bufs slot)" and b: "bufs_ok env s c (destPE slot) (bufs slot) ts"
    using assms(2) by (simp_all add: live_def)
  show ?thesis
    using assms(2) same_recv_ok [OF assms(1) r] same_bufs_ok [OF assms(1) r b]
    by (simp add: live_def same_history [OF assms(1)])
qed

lemma same_waiting:
  assumes "same_for c s s'" and "waiting env s c slot"
  shows "waiting env s' c slot"
proof -
  have "\<exists>r descs. msgs_of s c = {#(fst c, ReqGrantedMsg (Some (snd c)) (Some r) descs)#}
      \<and> recv_ok env s' c (destPE slot) r (s_sizeMax slot) descs \<and> bufs_ok env s' c (destPE slot) descs (\<lambda>_. Idle)"
    if "msgs_of s c = {#(fst c, ReqGrantedMsg (Some (snd c)) (Some r) descs)#}"
      "recv_ok env s c (destPE slot) r (s_sizeMax slot) descs" "bufs_ok env s c (destPE slot) descs (\<lambda>_. Idle)" for r descs
    using that same_recv_ok [OF assms(1) that(2)] same_bufs_ok [OF assms(1) that(2,3)] by blast
  then show ?thesis
    using assms(2) by (simp add: waiting_def same_history [OF assms(1)]) blast
qed

lemma same_chan_ok:
  assumes "same_for c s s'" and "chan_ok env s c"
  shows "chan_ok env s' c"
proof -
  have sil: "silent s' c = silent s c"
    by (simp add: silent_def same_history [OF assms(1)])
  have t: "sendHeap (tab s' (fst c)) (snd c) = sendHeap (tab s (fst c)) (snd c)"
    "snd c \<in> set (sendVec (tab s' (fst c))) \<longleftrightarrow> snd c \<in> set (sendVec (tab s (fst c)))"
    using assms(1) by (simp_all add: same_for_def)
  show ?thesis
  proof (cases "sendHeap (tab s (fst c)) (snd c)")
    case None
    with assms(2) show ?thesis
      by (simp add: chan_ok_def t sil same_history [OF assms(1)])
  next
    case (Some slot)
    have "waiting env s' c slot \<or> (\<exists>r ts. live env s' c slot r ts)" if "\<not> isLocal slot"
    proof -
      have "waiting env s c slot \<or> (\<exists>r ts. live env s c slot r ts)"
        using assms(2) Some that by (simp add: chan_ok_def)
      then show ?thesis
        using same_live [OF assms(1), of env slot] same_waiting [OF assms(1), of env slot] by blast
    qed
    with assms(2) Some show ?thesis
      by (simp add: chan_ok_def t sil split: if_splits)
  qed
qed

lemma psys_ok_step:
  assumes "psys_ok env s" and "\<And>c'. c' \<noteq> c \<Longrightarrow> same_for c' s s'" and "chan_ok env s' c" and "labelled s'"
  shows "psys_ok env s'"
  unfolding psys_ok_def
proof (intro conjI allI)
  fix c'
  show "chan_ok env s' c'"
  proof (cases "c' = c")
    case False
    then show ?thesis
      using same_chan_ok [OF assms(2)] assms(1) [unfolded psys_ok_def, THEN conjunct1, THEN spec, of c'] by blast
  qed (simp add: assms(3))
qed (rule assms(4))

text \<open>Messages and puts of channels may be added, any may be removed.\<close>

lemma labelled_step:
  assumes "labelled s" and "net s' \<subseteq># net s + M" and "\<forall>x \<in># M. chan_of x = Some (p, Some a)"
    and "puts s' \<subseteq># puts s + P" and "\<forall>x \<in># P. put_chan x = (p, Some a)"
    and "\<And>j x. pm s' j x \<noteq> None \<Longrightarrow> owner s' j x \<noteq> None"
  shows "labelled s'"
proof -
  have "x \<in># net s \<or> x \<in># M" if "x \<in># net s'" for x
    using mset_subset_eqD [OF assms(2) that] by simp
  moreover have "x \<in># puts s \<or> x \<in># P" if "x \<in># puts s'" for x
    using mset_subset_eqD [OF assms(4) that] by simp
  ultimately show ?thesis
    using assms(1,3,5,6) unfolding labelled_def by meson
qed

end
