(* ===== verification/Persistent_Safety.thy ===== *)
theory Persistent_Safety
  imports Persistent_Protocol
begin

text \<open>
  The invariant of persistent channels is kept by every step of the system, and what follows from
  it: no message is lost or duplicated, no buffer is written while it is in use, no handler aborts,
  and a channel at rest has delivered everything.
\<close>

section \<open>Steps of the sender\<close>

text \<open>On a channel that is set up, a send appends to the queue and flushes it, whichever path the code
  takes.\<close>

lemma findFree_pending:
  "findFreeBuffer (slot\<lparr>pending := xs\<rparr>) = (fst (findFreeBuffer slot), (snd (findFreeBuffer slot))\<lparr>pending := xs\<rparr>)"
  by (simp add: findFreeBuffer_def Let_def split: option.split)

lemma pending_self: "pending slot = xs \<Longrightarrow> slot\<lparr>pending := xs\<rparr> = slot"
  by auto

lemma send_is_flush:
  assumes "sendHeap st a = Some slot" and "\<not> isLocal slot" and "setupDone slot" and "n \<le> s_sizeMax slot"
    and "flushPending env p a (slot\<lparr>pending := pending slot @ [(m, n)]\<rparr>) = (outs, slot')"
  shows "CmiSendPersistentMsg env p (Some a) n m st = Inr (outs, set_send a slot' st)"
proof (cases "pending slot = []")
  case False
  then show ?thesis
    using assms by (simp add: CmiSendPersistentMsg_def Let_def)
next
  case True
  obtain f slot1 where f: "findFreeBuffer slot = (f, slot1)"
    by fastforce
  have p1: "pending slot1 = []"
    using f True pending_findFreeBuffer [of slot] by simp
  show ?thesis
  proof (cases f)
    case None
    have "slot1 = slot"
      using f None by (simp add: findFreeBuffer_def Let_def split: option.splits)
    moreover have "outs = [] \<and> slot' = slot\<lparr>pending := [(m, n)]\<rparr>"
      using assms(5) f None True by (subst (asm) flushPending.simps) (simp add: findFree_pending)
    ultimately show ?thesis
      using assms(1-4) True f None by (simp add: CmiSendPersistentMsg_def)
  next
    case (Some i)
    obtain o1 slot2 where w: "writeToBuffer env p a i n m slot1 = (o1, slot2)"
      by fastforce
    have p2: "pending slot2 = []"
      using w pending_writeToBuffer [of env p a i n m slot1] p1 by simp
    have "flushPending env p a slot2 = ([], slot2)"
      using p2 by (subst flushPending.simps) simp
    then have "outs = o1 \<and> slot' = slot2"
      using assms(5) f Some True w by (subst (asm) flushPending.simps) (simp add: findFree_pending pending_self [OF p1])
    then show ?thesis
      using assms(1-4) True f Some w by (simp add: CmiSendPersistentMsg_def)
  qed
qed

section \<open>Messages of one channel\<close>

lemma chan_all_msgs: "x \<in># all_msgs p slot a r ts \<Longrightarrow> chan_of x = Some (p, Some a)"
proof -
  have "x \<in># conc_msg q p a r i t \<Longrightarrow> chan_of x = Some (p, Some a)" for q i and t :: "'a bstate"
    by (cases t) auto
  then show "x \<in># all_msgs p slot a r ts \<Longrightarrow> chan_of x = Some (p, Some a)"
    by (auto simp: all_msgs_def set_mset_sum)
qed

lemma chan_all_puts: "x \<in># all_puts p slot a r ts \<Longrightarrow> put_chan x = (p, Some a)"
proof -
  have "x \<in># conc_put k q descs p a r i t \<Longrightarrow> put_chan x = (p, Some a)" for k q descs i and t :: "'a bstate"
    by (cases t) auto
  then show "x \<in># all_puts p slot a r ts \<Longrightarrow> put_chan x = (p, Some a)"
    by (auto simp: all_puts_def set_mset_sum)
qed

lemma issues_chan:
  assumes "issues p a r slot ts outs slot' ts'"
  shows "\<forall>x \<in># out_net outs. chan_of x = Some (p, Some a)" "\<forall>x \<in># out_puts outs. put_chan x = (p, Some a)"
proof -
  have n: "out_net outs + all_msgs p slot a r ts = all_msgs p slot a r ts'"
    and q: "out_puts outs + all_puts p slot a r ts = all_puts p slot a r ts'"
    using assms by (simp_all add: issues_def)
  show "\<forall>x \<in># out_net outs. chan_of x = Some (p, Some a)"
    using chan_all_msgs [of _ p slot a r ts'] unfolding n [symmetric] by simp
  show "\<forall>x \<in># out_puts outs. put_chan x = (p, Some a)"
    using chan_all_puts [of _ p slot a r ts'] unfolding q [symmetric] by simp
qed

lemma filter_own: "\<forall>x \<in># M. f x = v \<Longrightarrow> {#x \<in># M. f x = v#} = M"
  by (simp add: filter_mset_eq_conv)

lemma filter_other: "\<forall>x \<in># M. f x = v \<Longrightarrow> v \<noteq> w \<Longrightarrow> {#x \<in># M. f x = w#} = {#}"
  by (induction M) auto

text \<open>Messages of a channel taken from and added to those in flight.\<close>

lemma msgs_of_change:
  assumes "net s' = net s - rem + out" and "\<forall>x \<in># rem. chan_of x = Some (p, Some a)"
    and "\<forall>x \<in># out. chan_of x = Some (p, Some a)"
  shows "c \<noteq> (p, a) \<Longrightarrow> msgs_of s' c = msgs_of s c" "msgs_of s' (p, a) = msgs_of s (p, a) - rem + out"
proof -
  assume "c \<noteq> (p, a)"
  then have ne: "Some (p, Some a) \<noteq> Some (fst c, Some (snd c))"
    by auto
  show "msgs_of s' c = msgs_of s c"
    by (simp add: msgs_of_def assms(1) filter_diff_mset filter_other [OF assms(2) ne] filter_other [OF assms(3) ne])
next
  show "msgs_of s' (p, a) = msgs_of s (p, a) - rem + out"
    using filter_own [OF assms(2)] filter_own [OF assms(3)] by (simp add: msgs_of_def assms(1) filter_diff_mset)
qed

lemma puts_of_change:
  assumes "puts s' = puts s - rem + out" and "\<forall>x \<in># rem. put_chan x = (p, Some a)"
    and "\<forall>x \<in># out. put_chan x = (p, Some a)"
  shows "c \<noteq> (p, a) \<Longrightarrow> puts_of s' c = puts_of s c" "puts_of s' (p, a) = puts_of s (p, a) - rem + out"
proof -
  assume "c \<noteq> (p, a)"
  then have ne: "(p, Some a) \<noteq> (fst c, Some (snd c))"
    by auto
  show "puts_of s' c = puts_of s c"
    by (simp add: puts_of_def assms(1) filter_diff_mset filter_other [OF assms(2) ne] filter_other [OF assms(3) ne])
next
  show "puts_of s' (p, a) = puts_of s (p, a) - rem + out"
    using filter_own [OF assms(2)] filter_own [OF assms(3)] by (simp add: puts_of_def assms(1) filter_diff_mset)
qed

text \<open>A step that changes one send slot.\<close>

lemma lookupRecvSlot_set_send [simp]: "lookupRecvSlot h (set_send a slot st) = lookupRecvSlot h st"
  by (simp add: lookupRecvSlot_def set_send_def split: option.split)

lemma same_for_sender:
  assumes "tab s' = (tab s)(p := set_send a slot' (tab s p))" and "pm s' = pm s" and "owner s' = owner s"
    and "rowner s' = rowner s" and "handled s' = handled s"
    and "sent s' c = sent s c" and "issued s' c = issued s c" and "msgs_of s' c = msgs_of s c" and "puts_of s' c = puts_of s c"
    and "c \<noteq> (p, a)"
  shows "same_for c s s'"
proof -
  have "sendHeap (tab s' (fst c)) (snd c) = sendHeap (tab s (fst c)) (snd c)"
    using assms(1,10) by (cases c) (auto simp: set_send_def)
  moreover have "sendVec (tab s' (fst c)) = sendVec (tab s (fst c))"
    by (simp add: assms(1) set_send_def)
  moreover have "lookupRecvSlot (Some r) (tab s' q) = lookupRecvSlot (Some r) (tab s q)" for r q
    by (simp add: assms(1))
  ultimately show ?thesis
    using assms(2-9) by (simp add: same_for_def)
qed

text \<open>The sender's part of a step on a channel that is set up: from a slot that agrees with the
  buffers, a flush leads to a live channel.\<close>

lemma flush_live:
  assumes f: "flushPending env p a slot1 = (outs, slot')" and b: "busy_ok slot1 ts1" and d: "destHandle slot1 = Some r"
    and sd: "setupDone slot1"
    and recv: "recv_ok env s (p, a) (destPE slot1) r (s_sizeMax slot1) (bufs slot1)"
    and bufs: "bufs_ok env s (p, a) (destPE slot1) (bufs slot1) ts1"
    and tab: "tab s' = (tab s)(p := set_send a slot' (tab s p))" and pm: "pm s' = pm s" and own: "owner s' = owner s"
    and rown: "rowner s' = rowner s"
    and m: "\<forall>x \<in># out_net outs. chan_of x = Some (p, Some a) \<Longrightarrow> msgs_of s' (p, a) = all_msgs p slot1 a r ts1 + out_net outs"
    and pu: "\<forall>x \<in># out_puts outs. put_chan x = (p, Some a) \<Longrightarrow> puts_of s' (p, a) = all_puts p slot1 a r ts1 + out_puts outs"
    and h: "mset iss = mset (handled s' (p, a)) + all_content ts1"
    and i: "issued s' (p, a) = iss @ out_issued outs" and sn: "sent s' (p, a) = iss @ map fst (pending slot1)"
  shows "\<exists>ts'. issues p a r slot1 ts1 outs slot' ts' \<and> live env s' (p, a) slot' r ts'"
proof -
  obtain ts' where ts': "issues p a r slot1 ts1 outs slot' ts'" "pending slot' \<noteq> [] \<longrightarrow> (\<forall>i < NB. ts' i \<noteq> Idle)"
    using flush_issues [OF b d f] by blast
  note I = ts'(1) [unfolded issues_def]
  have same: "same_slot slot1 slot'"
    using I by blast
  note fields = same_slot_fields [OF same]
  have lr: "lookupRecvSlot h (tab s' q) = lookupRecvSlot h (tab s q)" for h q
    by (simp add: tab)
  have "recv_ok env s' (p, a) (destPE slot') r (s_sizeMax slot') (bufs slot')"
    using recv by (simp add: recv_ok_def lr own rown fields)
  moreover have "bufs_ok env s' (p, a) (destPE slot') (bufs slot') ts'"
    unfolding bufs_ok_def fields pm
  proof (intro allI impI)
    fix j
    assume "j < NB"
    with bufs obtain b where "pm s (rk env (destPE slot1)) (bd_addr (bufs slot1 ! j)) = Some b" "magic b = kBufMagic"
      "b_index b = j" "buf_ok p a (ts1 j) b"
      by (auto simp: bufs_ok_def)
    then show "\<exists>b. pm s (rk env (destPE slot1)) (bd_addr (bufs slot1 ! j)) = Some b \<and> magic b = kBufMagic
        \<and> b_index b = j \<and> buf_ok (fst (p, a)) (snd (p, a)) (ts' j) b"
      using I by auto
  qed
  moreover have "msgs_of s' (p, a) = all_msgs p slot' a r ts'" "puts_of s' (p, a) = all_puts p slot' a r ts'"
    using m [OF issues_chan(1) [OF ts'(1)]] pu [OF issues_chan(2) [OF ts'(1)]] I
    by (simp_all add: same_slot_sums [OF same] union_commute)
  moreover have "mset (issued s' (p, a)) = mset (handled s' (p, a)) + all_content ts'"
    using h i I by (simp flip: union_assoc) (metis union_assoc union_commute)
  moreover have "sent s' (p, a) = issued s' (p, a) @ map fst (pending slot')"
    using i sn I by simp
  ultimately have "live env s' (p, a) slot' r ts'"
    using ts'(2) d sd I by (simp add: live_def fields)
  with ts'(1) show ?thesis
    by blast
qed

lemma chan_okD:
  assumes "psys_ok env s" and "sendHeap (tab s p) a = Some slot" and "\<not> isLocal slot"
  shows "a \<in> set (sendVec (tab s p))" "slot_ok env slot"
    "waiting env s (p, a) slot \<or> (\<exists>r ts. live env s (p, a) slot r ts)"
  using assms by (auto simp: psys_ok_def chan_ok_def dest!: spec [of _ p] spec [of _ a] split: option.splits)

lemma sender_ok:
  assumes ok: "psys_ok env s" and vec: "a \<in> set (sendVec (tab s p))"
    and nl: "\<not> isLocal slot1" and so: "slot_ok env slot1"
    and f: "flushPending env p a slot1 = (outs, slot')" and b: "busy_ok slot1 ts1" and d: "destHandle slot1 = Some r"
    and sd: "setupDone slot1"
    and recv: "recv_ok env s (p, a) (destPE slot1) r (s_sizeMax slot1) (bufs slot1)"
    and bufs: "bufs_ok env s (p, a) (destPE slot1) (bufs slot1) ts1"
    and rem: "\<forall>x \<in># rem. chan_of x = Some (p, Some a)" and m: "msgs_of s (p, a) - rem = all_msgs p slot1 a r ts1"
    and pu: "puts_of s (p, a) = all_puts p slot1 a r ts1"
    and h: "mset (issued s (p, a)) = mset (handled s (p, a)) + all_content ts1"
    and sn: "sn = issued s (p, a) @ map fst (pending slot1)"
  shows "psys_ok env (s\<lparr>tab := (tab s)(p := set_send a slot' (tab s p)), net := net s - rem + out_net outs,
    puts := puts s + out_puts outs, sent := (sent s)((p, a) := sn),
    issued := (issued s)((p, a) := issued s (p, a) @ out_issued outs)\<rparr>)"
    (is "psys_ok env ?s")
proof -
  have "\<exists>ts'. issues p a r slot1 ts1 outs slot' ts' \<and> live env ?s (p, a) slot' r ts'"
  proof (rule flush_live [OF f b d sd recv bufs, where iss = "issued s (p, a)"])
    assume o: "\<forall>x \<in># out_net outs. chan_of x = Some (p, Some a)"
    have "msgs_of ?s (p, a) = msgs_of s (p, a) - rem + out_net outs"
      by (rule msgs_of_change(2) [OF _ rem o]) simp
    then show "msgs_of ?s (p, a) = all_msgs p slot1 a r ts1 + out_net outs"
      by (simp add: m)
  next
    assume o: "\<forall>x \<in># out_puts outs. put_chan x = (p, Some a)"
    have "puts_of ?s (p, a) = puts_of s (p, a) - {#} + out_puts outs"
      by (rule puts_of_change(2) [OF _ _ o]) simp_all
    then show "puts_of ?s (p, a) = all_puts p slot1 a r ts1 + out_puts outs"
      by (simp add: pu)
  qed (simp_all add: h sn)
  then obtain ts' where ts': "issues p a r slot1 ts1 outs slot' ts'" "live env ?s (p, a) slot' r ts'"
    by blast
  have fields: "isLocal slot' = isLocal slot1" "slot_ok env slot' = slot_ok env slot1"
    using ts'(1) same_slot_fields [of slot1 slot'] by (simp_all add: issues_def slot_ok_def)
  show ?thesis
  proof (rule psys_ok_step [OF ok, of "(p, a)"])
    fix c
    assume c: "c \<noteq> (p, a)"
    have "msgs_of ?s c = msgs_of s c"
      by (rule msgs_of_change(1) [OF _ rem issues_chan(1) [OF ts'(1)] c]) simp
    moreover have "puts_of ?s c = puts_of s c"
      by (rule puts_of_change(1) [OF _ _ issues_chan(2) [OF ts'(1)] c, of _ _ "{#}"]) simp_all
    ultimately show "same_for c s ?s"
      using c by (intro same_for_sender) simp_all
  next
    show "chan_ok env ?s (p, a)"
      using ts'(2) vec nl so by (auto simp: chan_ok_def set_send_def fields)
  next
    have l: "labelled s"
      using ok by (simp add: psys_ok_def)
    show "labelled ?s"
      by (rule labelled_step [OF l _ issues_chan(1) [OF ts'(1)] _ issues_chan(2) [OF ts'(1)]])
        (use l in \<open>simp_all add: labelled_def\<close>)
  qed
qed

section \<open>Every step keeps the invariant\<close>

lemma msgs_of_mem: "x \<in># net s \<Longrightarrow> chan_of x = Some (p, Some a) \<Longrightarrow> x \<in># msgs_of s (p, a)"
  by (simp add: msgs_of_def)

text \<open>The channel of a message in flight.\<close>

lemma msg_chan:
  assumes "psys_ok env s" and "x \<in># net s" and "chan_of x = Some (p, Some a)"
  shows "\<exists>slot. sendHeap (tab s p) a = Some slot \<and> \<not> isLocal slot \<and> a \<in> set (sendVec (tab s p)) \<and> slot_ok env slot
     \<and> (waiting env s (p, a) slot \<or> (\<exists>r ts. live env s (p, a) slot r ts))"
proof -
  have "chan_ok env s (p, a)"
    using assms(1) by (simp add: psys_ok_def)
  moreover have "\<not> silent s (p, a)"
    using msgs_of_mem [OF assms(2,3)] by (auto simp: silent_def)
  ultimately show ?thesis
    by (auto simp: chan_ok_def split: option.splits if_splits)
qed

lemma data_chan:
  assumes "psys_ok env s" and "x \<in># net s" and "chan_of x = Some (p, Some a)"
    and "\<And>mb. x \<noteq> (fst x, RequestMsg p mb (Some a))" and "\<And>dh ds. x \<noteq> (p, ReqGrantedMsg (Some a) dh ds)"
  shows "\<exists>slot r ts i. sendHeap (tab s p) a = Some slot \<and> \<not> isLocal slot \<and> a \<in> set (sendVec (tab s p)) \<and> slot_ok env slot
     \<and> live env s (p, a) slot r ts \<and> i < NB \<and> x \<in># conc_msg (destPE slot) p a r i (ts i)"
proof -
  obtain slot where slot: "sendHeap (tab s p) a = Some slot" "\<not> isLocal slot" "a \<in> set (sendVec (tab s p))" "slot_ok env slot"
    "waiting env s (p, a) slot \<or> (\<exists>r ts. live env s (p, a) slot r ts)"
    using msg_chan [OF assms(1-3)] by blast
  have x: "x \<in># msgs_of s (p, a)"
    by (rule msgs_of_mem [OF assms(2,3)])
  have "\<not> waiting env s (p, a) slot"
  proof
    assume "waiting env s (p, a) slot"
    then have "msgs_of s (p, a) = {#(destPE slot, RequestMsg p (s_sizeMax slot) (Some a))#}
        \<or> (\<exists>r ds. msgs_of s (p, a) = {#(p, ReqGrantedMsg (Some a) (Some r) ds)#})"
      by (auto simp: waiting_def)
    with x assms(4) [of "s_sizeMax slot"] assms(5) show False
      by auto
  qed
  with slot(5) obtain r ts where l: "live env s (p, a) slot r ts"
    by blast
  then have "x \<in># all_msgs p slot a r ts"
    using x by (simp add: live_def)
  then obtain i where "i < NB" "x \<in># conc_msg (destPE slot) p a r i (ts i)"
    by (auto simp: all_msgs_def set_mset_sum)
  with slot l show ?thesis
    by blast
qed

text \<open>A request or its answer is the only message of a channel that waits.\<close>

lemma setup_chan:
  assumes ok: "psys_ok env s" and x: "x \<in># net s" and ch: "chan_of x = Some (p, Some a)"
    and no: "\<And>q r i t. x \<notin># conc_msg q p a r i (t :: 'm bstate)"
  shows "\<exists>slot. sendHeap (tab s p) a = Some slot \<and> \<not> isLocal slot \<and> a \<in> set (sendVec (tab s p)) \<and> slot_ok env slot
     \<and> waiting env s (p, a) slot \<and> msgs_of s (p, a) = {#x#}"
proof -
  obtain slot where c: "sendHeap (tab s p) a = Some slot" "\<not> isLocal slot" "a \<in> set (sendVec (tab s p))" "slot_ok env slot"
    "waiting env s (p, a) slot \<or> (\<exists>r ts. live env s (p, a) slot r ts)"
    using msg_chan [OF ok x ch] by blast
  have m: "x \<in># msgs_of s (p, a)"
    by (rule msgs_of_mem [OF x ch])
  have "\<not> live env s (p, a) slot r ts" for r ts
    using m no by (auto simp: live_def all_msgs_def set_mset_sum)
  with c(5) have w: "waiting env s (p, a) slot"
    by blast
  then have "msgs_of s (p, a) = {#x#}"
    using m by (auto simp: waiting_def)
  with c w show ?thesis
    by blast
qed

lemma setup_not_conc:
  "(d, RequestMsg p' mb h) \<notin># conc_msg q p a r i t" "(d, ReqGrantedMsg h dh ds) \<notin># conc_msg q p a r i t"
  by (cases t; auto)+

lemma remove_msg:
  assumes "i < NB" and "conc_msg (destPE slot) p a r i (ts i) = {#x#}" and "conc_msg (destPE slot) p a r i t = {#}"
  shows "all_msgs p slot a r ts - {#x#} = all_msgs p slot a r (ts(i := t))"
proof -
  have "all_msgs p slot a r ts = add_mset x (all_msgs p slot a r (ts(i := t)))"
    using upd_msgs [OF assms(1), of "destPE slot" p a r ts t] assms(2,3) by (simp add: all_msgs_def)
  then show ?thesis
    by simp
qed

lemma same_puts_upd:
  assumes "i < NB" and "conc_put (destNodeGlobal slot) (destPE slot) (bufs slot) p a r i t = conc_put (destNodeGlobal slot) (destPE slot) (bufs slot) p a r i (ts i)"
  shows "all_puts p slot a r (ts(i := t)) = all_puts p slot a r ts"
  using upd_puts [OF assms(1), of "destNodeGlobal slot" "destPE slot" "bufs slot" p a r ts t] assms(2) by (simp add: all_puts_def)

lemma same_content_upd:
  assumes "i < NB" and "content t = content (ts i)"
  shows "all_content (ts(i := t)) = all_content ts"
  using upd_content [OF assms(1), of ts t] assms(2) by (simp add: all_content_def)

lemma all_idle [simp]:
  "all_msgs p slot a r (\<lambda>_. Idle) = {#}" "all_puts p slot a r (\<lambda>_. Idle) = {#}" "all_content (\<lambda>_. Idle) = {#}"
  by (simp_all add: all_msgs_def all_puts_def all_content_def)

lemma credit_ok:
  assumes ok: "psys_ok env s" and x: "(p, CreditMsg (Some a) k) \<in># net s"
    and h: "persistentCreditHandler env p (Some a) k (tab s p) = Inr (outs, st)"
  shows "psys_ok env (note_issued (p, a) outs (emit outs (take_msg (p, CreditMsg (Some a) k) (s\<lparr>tab := (tab s)(p := st)\<rparr>))))"
proof -
  obtain slot r ts i where c: "sendHeap (tab s p) a = Some slot" "\<not> isLocal slot" "a \<in> set (sendVec (tab s p))" "slot_ok env slot"
    "live env s (p, a) slot r ts" "i < NB" "(p, CreditMsg (Some a) k) \<in># conc_msg (destPE slot) p a r i (ts i)"
    using data_chan [OF ok x] by auto
  have i: "ts i = InCredit" "k = int i"
    using c(7) by (cases "ts i"; auto)+
  let ?slot1 = "slot\<lparr>busy := (busy slot)[i := False]\<rparr>" and ?ts1 = "ts(i := Idle)"
  obtain slot' where f: "flushPending env p a ?slot1 = (outs, slot')" and st: "st = set_send a slot' (tab s p)"
    using h c(1,3,6) by (auto simp: persistentCreditHandler_def lookupSendSlot_def i(2) split: prod.splits)
  note l = c(5) [unfolded live_def]
  have "psys_ok env (s\<lparr>tab := (tab s)(p := set_send a slot' (tab s p)), net := net s - {#(p, CreditMsg (Some a) k)#} + out_net outs,
    puts := puts s + out_puts outs, sent := (sent s)((p, a) := sent s (p, a)),
    issued := (issued s)((p, a) := issued s (p, a) @ out_issued outs)\<rparr>)"
  proof (rule sender_ok [OF ok c(3) _ _ f, of ?ts1 r])
    show "busy_ok ?slot1 ?ts1"
      using l c(6) by (auto simp: busy_ok_def nth_list_update)
    show "bufs_ok env s (p, a) (destPE ?slot1) (bufs ?slot1) ?ts1"
      using l i(1) by (auto simp: bufs_ok_def dest!: spec [of _ i])
    have "all_msgs p slot a r ts - {#(p, CreditMsg (Some a) k)#} = all_msgs p slot a r ?ts1"
      by (rule remove_msg [OF c(6)]) (simp_all add: i)
    then show "msgs_of s (p, a) - {#(p, CreditMsg (Some a) k)#} = all_msgs p ?slot1 a r ?ts1"
      using l by (simp add: all_msgs_def)
    have "all_puts p slot a r ?ts1 = all_puts p slot a r ts"
      by (rule same_puts_upd [OF c(6)]) (simp add: i)
    then show "puts_of s (p, a) = all_puts p ?slot1 a r ?ts1"
      using l by (simp add: all_puts_def)
    show "mset (issued s (p, a)) = mset (handled s (p, a)) + all_content ?ts1"
      using l same_content_upd [OF c(6), of Idle ts] i(1) by simp
  qed (use c l in \<open>simp_all add: slot_ok_def\<close>)
  then show ?thesis
    by (simp add: note_issued_def emit_def take_msg_def st)
qed

lemma granted_ok:
  assumes ok: "psys_ok env s" and x: "(p, ReqGrantedMsg (Some a) dh descs) \<in># net s"
    and h: "persistentReqGrantedHandler env p (Some a) dh descs (tab s p) = (outs, st)"
  shows "psys_ok env (note_issued (p, a) outs (emit outs (take_msg (p, ReqGrantedMsg (Some a) dh descs) (s\<lparr>tab := (tab s)(p := st)\<rparr>))))"
proof -
  let ?x = "(p, ReqGrantedMsg (Some a) dh descs)"
  obtain slot where c: "sendHeap (tab s p) a = Some slot" "\<not> isLocal slot" "a \<in> set (sendVec (tab s p))" "slot_ok env slot"
    "waiting env s (p, a) slot" "msgs_of s (p, a) = {#?x#}"
    using setup_chan [OF ok x _ setup_not_conc(2)] by auto
  obtain r where w: "dh = Some r" "msgs_of s (p, a) = {#?x#}" "recv_ok env s (p, a) (destPE slot) r (s_sizeMax slot) descs"
    "bufs_ok env s (p, a) (destPE slot) descs (\<lambda>_. Idle)" "busy_ok slot (\<lambda>_. Idle)" "puts_of s (p, a) = {#}"
    "issued s (p, a) = []" "handled s (p, a) = []" "sent s (p, a) = map fst (pending slot)"
    using c(5,6) by (auto simp: waiting_def)
  let ?slot1 = "slot\<lparr>destHandle := dh, bufs := descs, setupDone := True\<rparr>"
  obtain slot' where f: "flushPending env p a ?slot1 = (outs, slot')" and st: "st = set_send a slot' (tab s p)"
    using h c(1,3) by (auto simp: persistentReqGrantedHandler_def lookupSendSlot_def split: prod.splits)
  have "psys_ok env (s\<lparr>tab := (tab s)(p := set_send a slot' (tab s p)), net := net s - {#?x#} + out_net outs,
    puts := puts s + out_puts outs, sent := (sent s)((p, a) := sent s (p, a)),
    issued := (issued s)((p, a) := issued s (p, a) @ out_issued outs)\<rparr>)"
    by (rule sender_ok [OF ok c(3) _ _ f, of "\<lambda>_. Idle" r]) (use c w in \<open>simp_all add: slot_ok_def busy_ok_def\<close>)
  then show ?thesis
    by (simp add: note_issued_def emit_def take_msg_def st)
qed

lemma recv_ok_cong:
  assumes "rowner s' = rowner s" and "owner s' = owner s" and "\<And>h q. lookupRecvSlot h (tab s' q) = lookupRecvSlot h (tab s q)"
  shows "recv_ok env s' c q r k descs = recv_ok env s c q r k descs"
  by (simp add: recv_ok_def assms)

lemma bufs_ok_cong: "pm s' = pm s \<Longrightarrow> bufs_ok env s' c q descs ts = bufs_ok env s c q descs ts"
  by (simp add: bufs_ok_def)

lemma queue_ok:
  assumes ok: "psys_ok env s" and slot: "sendHeap (tab s p) a = Some slot" "\<not> isLocal slot"
    and w: "waiting env s (p, a) slot" and n: "0 \<le> n" "n \<le> s_sizeMax slot"
  shows "psys_ok env (s\<lparr>tab := (tab s)(p := set_send a (slot\<lparr>pending := pending slot @ [(m, n)]\<rparr>) (tab s p)),
    sent := (sent s)((p, a) := sent s (p, a) @ [m])\<rparr>)"
proof -
  define s' where "s' = s\<lparr>tab := (tab s)(p := set_send a (slot\<lparr>pending := pending slot @ [(m, n)]\<rparr>) (tab s p)),
    sent := (sent s)((p, a) := sent s (p, a) @ [m])\<rparr>"
  let ?slot = "slot\<lparr>pending := pending slot @ [(m, n)]\<rparr>"
  have flds: "tab s' = (tab s)(p := set_send a ?slot (tab s p))" "pm s' = pm s" "owner s' = owner s" "rowner s' = rowner s"
    "handled s' = handled s" "issued s' = issued s" "sent s' = (sent s)((p, a) := sent s (p, a) @ [m])"
    "msgs_of s' c = msgs_of s c" "puts_of s' c = puts_of s c" "net s' = net s" "puts s' = puts s" for c
    by (simp_all add: s'_def msgs_of_def puts_of_def)
  have "psys_ok env s'"
  proof (rule psys_ok_step [OF ok, of "(p, a)"])
    show "same_for c s s'" if "c \<noteq> (p, a)" for c
      using that by (intro same_for_sender [OF flds(1)]) (simp_all add: flds)
    have "recv_ok env s' c q r k descs = recv_ok env s c q r k descs" for c q r k descs
      by (rule recv_ok_cong) (simp_all add: flds)
    moreover have "bufs_ok env s' c q descs ts = bufs_ok env s c q descs ts" for c q descs ts
      by (rule bufs_ok_cong) (simp add: flds)
    moreover have "busy_ok ?slot (\<lambda>_. Idle)"
      using w n by (auto simp: waiting_def busy_ok_def)
    ultimately have "waiting env s' (p, a) ?slot"
      using w by (simp add: waiting_def flds)
    then show "chan_ok env s' (p, a)"
      using chan_okD(1,2) [OF ok slot] slot(2) by (simp add: chan_ok_def set_send_def slot_ok_def flds)
    show "labelled s'"
      using ok by (simp add: psys_ok_def labelled_def flds)
  qed
  then show ?thesis
    by (simp add: s'_def)
qed

lemma send_ok:
  assumes ok: "psys_ok env s" and slot: "sendHeap (tab s p) a = Some slot" "\<not> isLocal slot" and n: "0 \<le> n"
    and h: "CmiSendPersistentMsg env p (Some a) n m (tab s p) = Inr (outs, st)"
  shows "psys_ok env (note_issued (p, a) outs (emit outs
    (s\<lparr>tab := (tab s)(p := st), sent := (sent s)((p, a) := sent s (p, a) @ [m])\<rparr>)))"
proof -
  note c = chan_okD [OF ok slot]
  have le: "n \<le> s_sizeMax slot"
    using h slot by (simp add: CmiSendPersistentMsg_def split: if_splits)
  from c(3) show ?thesis
  proof
    assume w: "waiting env s (p, a) slot"
    then have "outs = []" "st = set_send a (slot\<lparr>pending := pending slot @ [(m, n)]\<rparr>) (tab s p)"
      using h slot le by (auto simp: CmiSendPersistentMsg_def waiting_def)
    with queue_ok [OF ok slot w n le, of m] show ?thesis
      by (simp add: note_issued_def emit_def)
  next
    assume "\<exists>r ts. live env s (p, a) slot r ts"
    then obtain r ts where live: "live env s (p, a) slot r ts"
      by blast
    note l = live [unfolded live_def]
    let ?slot1 = "slot\<lparr>pending := pending slot @ [(m, n)]\<rparr>"
    obtain outs' slot' where f: "flushPending env p a ?slot1 = (outs', slot')"
      by fastforce
    have res: "outs = outs'" "st = set_send a slot' (tab s p)"
      using send_is_flush [OF slot _ le f] h l by auto
    have "psys_ok env (s\<lparr>tab := (tab s)(p := set_send a slot' (tab s p)), net := net s - {#} + out_net outs',
      puts := puts s + out_puts outs', sent := (sent s)((p, a) := sent s (p, a) @ [m]),
      issued := (issued s)((p, a) := issued s (p, a) @ out_issued outs')\<rparr>)"
    proof (rule sender_ok [OF ok c(1) _ _ f, of ts r])
      show "busy_ok ?slot1 ts"
        using l n le by (auto simp: busy_ok_def)
    qed (use c slot l in \<open>simp_all add: slot_ok_def all_msgs_def all_puts_def\<close>)
    moreover have "note_issued (p, a) outs (emit outs
        (s\<lparr>tab := (tab s)(p := st), sent := (sent s)((p, a) := sent s (p, a) @ [m])\<rparr>))
      = s\<lparr>tab := (tab s)(p := set_send a slot' (tab s p)), net := net s - {#} + out_net outs',
      puts := puts s + out_puts outs', sent := (sent s)((p, a) := sent s (p, a) @ [m]),
      issued := (issued s)((p, a) := issued s (p, a) @ out_issued outs')\<rparr>"
      by (cases s) (simp add: note_issued_def emit_def res)
    ultimately show ?thesis
      by simp
  qed
qed

lemma sint_small: "0 < k \<Longrightarrow> k < 2 ^ 31 \<Longrightarrow> sint (word_of_int k :: 32 word) = k"
  by (simp add: sint_sbintrunc' signed_take_bit_int_eq_self)

lemma align_int_ok:
  assumes "0 < n" and "n \<le> 2 ^ 31 - 16"
  shows "0 < align_int n \<and> align_int (align_int n) = align_int n"
proof -
  let ?k = "(n + 15) div 16"
  have k: "0 < ?k" "?k * 16 \<le> 2 ^ 31 - 16"
    using assms by auto
  have a: "align_int n = ?k * 16"
    unfolding align_int_def using k by (intro sint_small) auto
  have "(?k * 16 + 15) div 16 = ?k"
    by simp
  then have "align_int (?k * 16) = ?k * 16"
    using a unfolding align_int_def by simp
  with a k show ?thesis
    by simp
qed

text \<open>A step that moves one buffer of a live channel from a state in use to another.\<close>

lemma buffer_ok:
  assumes ok: "psys_ok env s" and heap: "sendHeap (tab s p) a = Some slot" and nl: "\<not> isLocal slot"
    and live: "live env s (p, a) slot r ts" and i: "i < NB" "ts i \<noteq> Idle" "t \<noteq> Idle" "size_ok (s_sizeMax slot) t" "\<not> is_put t"
    and b: "magic b = kBufMagic" "b_index b = i" "buf_ok p a t b"
    and tab: "tab s' = tab s"
    and pm: "pm s' = (pm s)(rk env (destPE slot) := (pm s (rk env (destPE slot)))(bd_addr (bufs slot ! i) \<mapsto> b))"
    and same: "owner s' = owner s" "rowner s' = rowner s" "sent s' = sent s" "issued s' = issued s"
    and net: "net s' = net s - conc_msg (destPE slot) p a r i (ts i) + conc_msg (destPE slot) p a r i t"
    and puts: "puts s' = puts s - conc_put (destNodeGlobal slot) (destPE slot) (bufs slot) p a r i (ts i)
      + conc_put (destNodeGlobal slot) (destPE slot) (bufs slot) p a r i t"
    and hd: "handled s' = (handled s)((p, a) := hs)" and acc: "mset (issued s (p, a)) = mset hs + all_content (ts(i := t))"
  shows "psys_ok env s'"
proof (rule psys_ok_step [OF ok, of "(p, a)"])
  note l = live [unfolded live_def]
  have recv: "recv_ok env s (p, a) (destPE slot) r (s_sizeMax slot) (bufs slot)" and len: "length (bufs slot) = NB"
    and dist: "distinct (map bd_addr (bufs slot))"
    using l by (simp_all add: recv_ok_def)
  have own: "owner s (rk env (destPE slot)) (bd_addr (bufs slot ! i)) = Some (p, a)"
    by (rule recv_owner [OF recv i(1)])
  have cm: "\<forall>x \<in># conc_msg (destPE slot) p a r i t. chan_of x = Some (p, Some a)" for t :: "'a bstate"
    by (cases t) auto
  have cp: "\<forall>x \<in># conc_put (destNodeGlobal slot) (destPE slot) (bufs slot) p a r i t. put_chan x = (p, Some a)" for t :: "'a bstate"
    by (cases t) auto
  note mc = msgs_of_change [OF net cm cm] and pc = puts_of_change [OF puts cp cp]
  show "same_for c s s'" if "c \<noteq> (p, a)" for c
    using that own by (auto simp: same_for_def tab same hd pm mc(1) pc(1))
  have "msgs_of s' (p, a) = all_msgs p slot a r (ts(i := t))"
    using mc(2) l sum_swap [OF i(1), of "\<lambda>j. conc_msg (destPE slot) p a r j" ts t] by (simp add: all_msgs_def)
  moreover have "puts_of s' (p, a) = all_puts p slot a r (ts(i := t))"
    using pc(2) l sum_swap [OF i(1), of "\<lambda>j. conc_put (destNodeGlobal slot) (destPE slot) (bufs slot) p a r j" ts t]
    by (simp add: all_puts_def)
  moreover have "recv_ok env s' (p, a) (destPE slot) r (s_sizeMax slot) (bufs slot)"
    using recv recv_ok_cong [of s' s] by (simp add: tab same)
  moreover have "bufs_ok env s' (p, a) (destPE slot) (bufs slot) (ts(i := t))"
    unfolding bufs_ok_def
  proof (intro allI impI)
    fix j
    assume j: "j < NB"
    have "bd_addr (bufs slot ! j) \<noteq> bd_addr (bufs slot ! i)" if "j \<noteq> i"
      using dist j i(1) len that nth_eq_iff_index_eq [OF dist, of j i] by simp
    with j l b show "\<exists>b. pm s' (rk env (destPE slot)) (bd_addr (bufs slot ! j)) = Some b \<and> magic b = kBufMagic \<and> b_index b = j
        \<and> buf_ok (fst (p, a)) (snd (p, a)) ((ts(i := t)) j) b"
      by (cases "j = i") (simp_all add: pm bufs_ok_def)
  qed
  moreover have "busy_ok slot (ts(i := t))"
    using l i by (auto simp: busy_ok_def)
  ultimately have "live env s' (p, a) slot r (ts(i := t))"
    using l i(3) acc by (simp add: live_def same hd)
  then show "chan_ok env s' (p, a)"
    using chan_okD(1,2) [OF ok heap nl] heap nl by (auto simp: chan_ok_def tab)
  have lab: "labelled s"
    using ok by (simp add: psys_ok_def)
  show "labelled s'"
    by (rule labelled_step [OF lab _ cm [of t] _ cp [of t]])
      (use lab own in \<open>auto simp: net puts pm same labelled_def split: if_splits\<close>)
qed

text \<open>What the data handler does on a live channel.\<close>

lemma live_buffer:
  assumes "live env s (p, a) slot r ts" and "i < NB"
  shows "\<exists>b rs. pm s (rk env (destPE slot)) (bd_addr (bufs slot ! i)) = Some b \<and> magic b = kBufMagic \<and> b_index b = i
    \<and> buf_ok p a (ts i) b \<and> size_ok (s_sizeMax slot) (ts i)
    \<and> lookupRecvSlot (Some r) (tab s (destPE slot)) = Some (r, rs) \<and> r_sizeMax rs = s_sizeMax slot
    \<and> r_msgPtr rs ! i = bd_addr (bufs slot ! i)"
  using assms by (auto simp: live_def bufs_ok_def recv_ok_def busy_ok_def)

lemma data_handler:
  assumes live: "live env s (p, a) slot r ts" and i: "i < NB" "ts i = InData m n inl"
    and b: "pm s (rk env (destPE slot)) (bd_addr (bufs slot ! i)) = Some b"
  shows "persistentDataHandler (Some r) (Some a) p (int i) n (if inl then Some m else None)
      (pm s (rk env (destPE slot)), tab s (destPE slot))
    = Inr ([HandleMessage (bd_addr (bufs slot ! i))],
        (pm s (rk env (destPE slot)))(bd_addr (bufs slot ! i) \<mapsto> b\<lparr>b_data := Some m, b_srcPE := p, b_srcHandle := Some a,
           c_size := n, c_ref := CMK_PERSISTENT_REFBASE + 1\<rparr>), tab s (destPE slot))"
  using live_buffer [OF live i(1)] i b by (auto simp: persistentDataHandler_def Let_def)

lemma data_ok:
  assumes ok: "psys_ok env s" and x: "(q, DataMsg dh (Some a) p k n payload) \<in># net s"
    and h: "persistentDataHandler dh (Some a) p k n payload (pm s (rk env q), tab s q) = Inr ([HandleMessage y], mem, st)"
    and d: "mem y = Some b'" "b_data b' = Some m'"
  shows "psys_ok env (take_msg (q, DataMsg dh (Some a) p k n payload)
    (s\<lparr>tab := (tab s)(q := st), pm := (pm s)(rk env q := mem), handled := (handled s)((p, a) := handled s (p, a) @ [m'])\<rparr>))"
proof -
  let ?x = "(q, DataMsg dh (Some a) p k n payload)"
  obtain slot r ts i where c: "sendHeap (tab s p) a = Some slot" "\<not> isLocal slot" "live env s (p, a) slot r ts" "i < NB"
    "?x \<in># conc_msg (destPE slot) p a r i (ts i)"
    using data_chan [OF ok x] by auto
  obtain m inl where t: "ts i = InData m n inl" "q = destPE slot" "dh = Some r" "k = int i"
    "payload = (if inl then Some m else None)"
    using c(5) by (cases "ts i") auto
  obtain b where b: "pm s (rk env q) (bd_addr (bufs slot ! i)) = Some b" "magic b = kBufMagic" "b_index b = i"
    "size_ok (s_sizeMax slot) (ts i)"
    using live_buffer [OF c(3,4)] t(2) by auto
  have res: "y = bd_addr (bufs slot ! i)" "st = tab s q" "mem = (pm s (rk env q))(y \<mapsto> b\<lparr>b_data := Some m, b_srcPE := p,
      b_srcHandle := Some a, c_size := n, c_ref := CMK_PERSISTENT_REFBASE + 1\<rparr>)"
    using data_handler [OF c(3,4) t(1)] b(1) h by (auto simp: t(2-5))
  have m': "m' = m"
    using d res(3) by auto
  show ?thesis
  proof (rule buffer_ok [OF ok c(1,2,3,4), of "Held m"])
    show "mset (issued s (p, a)) = mset (handled s (p, a) @ [m']) + all_content (ts(i := Held m))"
      using c(3) upd_content [OF c(4), of ts "Held m"] t(1) by (simp add: live_def m' all_content_def)
  qed (use t b res m' in \<open>simp_all add: take_msg_def\<close>)
qed

lemma put_ok:
  assumes ok: "psys_ok env s" and x: "(k, Some base, d, ctx) \<in># puts s" and b: "pm s k (base + d) = Some b"
  shows "psys_ok env (emit (persistentPutDone ctx) (s\<lparr>puts := puts s - {#(k, Some base, d, ctx)#},
    pm := (pm s)(k := (pm s k)(base + d \<mapsto> b\<lparr>b_data := Some (pc_msg ctx)\<rparr>))\<rparr>))"
proof -
  let ?x = "(k, Some base, d, ctx)"
  obtain p a where pa: "put_chan ?x = (p, Some a)"
    using ok x by (force simp: psys_ok_def labelled_def)
  have mem: "?x \<in># puts_of s (p, a)"
    using x pa by (simp add: puts_of_def)
  have cok: "chan_ok env s (p, a)"
    using ok by (simp add: psys_ok_def)
  obtain slot r ts where c: "sendHeap (tab s p) a = Some slot" "\<not> isLocal slot" "live env s (p, a) slot r ts"
    using cok mem by (auto simp: chan_ok_def silent_def waiting_def split: option.splits if_splits)
  have "?x \<in># all_puts p slot a r ts"
    using mem c(3) by (simp add: live_def)
  then obtain i where i: "i < NB" "?x \<in># conc_put (destNodeGlobal slot) (destPE slot) (bufs slot) p a r i (ts i)"
    by (auto simp: all_puts_def set_mset_sum)
  obtain m n where t: "ts i = InPut m n" "k = destNodeGlobal slot" "bd_rmr (bufs slot ! i) = Some base" "d = bd_disp (bufs slot ! i)"
    "ctx = \<lparr>pc_destHandler = Some r, pc_srcHandler = Some a, pc_destPE = destPE slot, pc_srcPE = p, pc_bufIndex = i,
         pc_size = n, pc_msg = m\<rparr>"
    using i(2) by (cases "ts i") auto
  have addr: "base + d = bd_addr (bufs slot ! i)"
    using c(3) i(1) t(3,4) by (auto simp: live_def recv_ok_def)
  obtain b1 where b1: "pm s (rk env (destPE slot)) (bd_addr (bufs slot ! i)) = Some b1" "magic b1 = kBufMagic" "b_index b1 = i"
    "b_srcHandle b1 = None" "0 \<le> n \<and> n \<le> s_sizeMax slot"
    using live_buffer [OF c(3) i(1)] t(1) by auto
  have k: "k = rk env (destPE slot)"
    using chan_okD(2) [OF ok c(1,2)] t(2) by (simp add: slot_ok_def)
  have "b1 = b"
    using b b1(1) addr k by simp
  show ?thesis
  proof (rule buffer_ok [OF ok c i(1), of "InData m n False"])
    show "mset (issued s (p, a)) = mset (handled s (p, a)) + all_content (ts(i := InData m n False))"
      using c(3) same_content_upd [OF i(1), of "InData m n False" ts] t(1) by (simp add: live_def)
  qed (use t b1 \<open>b1 = b\<close> addr k in \<open>simp_all add: emit_def persistentPutDone_def sendNotification_def\<close>)
qed

text \<open>The channel of a buffer that is held.\<close>

lemma held_chan:
  assumes ok: "psys_ok env s" and b: "pm s k x = Some b" "b_srcHandle b \<noteq> None"
  shows "\<exists>p a slot r ts i m. sendHeap (tab s p) a = Some slot \<and> \<not> isLocal slot \<and> live env s (p, a) slot r ts \<and> i < NB
    \<and> k = rk env (destPE slot) \<and> x = bd_addr (bufs slot ! i) \<and> ts i = Held m"
proof -
  obtain p a where own: "owner s k x = Some (p, a)"
    using ok b(1) by (fastforce simp: psys_ok_def labelled_def)
  have cok: "chan_ok env s (p, a)"
    using ok by (simp add: psys_ok_def)
  obtain slot where slot: "sendHeap (tab s p) a = Some slot" "\<not> isLocal slot"
    using cok own by (auto simp: chan_ok_def silent_def split: option.splits if_splits)
  obtain r descs ts where r: "recv_ok env s (p, a) (destPE slot) r (s_sizeMax slot) descs" "bufs_ok env s (p, a) (destPE slot) descs ts"
    "(ts = (\<lambda>_. Idle)) \<or> descs = bufs slot \<and> live env s (p, a) slot r ts"
    using chan_okD(3) [OF ok slot] own by (auto simp: waiting_def live_def)
  obtain i where i: "i < NB" "k = rk env (destPE slot)" "x = bd_addr (descs ! i)"
    using r(1) own by (auto simp: recv_ok_def in_set_conv_nth)
  have "buf_ok p a (ts i) b"
    using r(2) i b(1) by (auto simp: bufs_ok_def)
  then obtain m where m: "ts i = Held m"
    using b(2) by (cases "ts i") auto
  with r(3) have "descs = bufs slot" "live env s (p, a) slot r ts"
    by auto
  with slot i m show ?thesis
    by blast
qed

lemma release_held:
  assumes b: "mem x = Some b" "c_ref b = CMK_PERSISTENT_REFBASE + 1" "magic b = kBufMagic" "b_srcHandle b = Some a"
  shows "free_received x mem = Inr ([SendTo (b_srcPE b) (CreditMsg (Some a) (int (b_index b)))],
    mem(x \<mapsto> b\<lparr>c_ref := CMK_PERSISTENT_REFBASE, b_srcPE := - 1, b_srcHandle := None\<rparr>))"
proof -
  have "CmiAllocFindEnclosing mem x = Some x"
    using b(1,2) by (subst CmiAllocFindEnclosing.simps) (simp add: CMK_PERSISTENT_REFBASE_def)
  then have "CmiFree (\<lambda>_. False) (Some x) mem = (ReleasePersistent x, mem(x \<mapsto> b\<lparr>c_ref := CMK_PERSISTENT_REFBASE\<rparr>))"
    using b(1,2) by (simp add: CmiFree_def Let_def ref_add_def)
  then show ?thesis
    using b by (simp add: free_received_def CmiPersistentReleaseBuffer_def Let_def)
qed

lemma release_ok:
  assumes ok: "psys_ok env s" and b: "pm s (rk env q) x = Some b" "b_srcHandle b = Some a'"
    and h: "free_received x (pm s (rk env q)) = Inr (outs, mem)"
  shows "psys_ok env (emit outs (s\<lparr>pm := (pm s)(rk env q := mem)\<rparr>))"
proof -
  obtain p a slot r ts i m where c: "sendHeap (tab s p) a = Some slot" "\<not> isLocal slot" "live env s (p, a) slot r ts" "i < NB"
    "rk env q = rk env (destPE slot)" "x = bd_addr (bufs slot ! i)" "ts i = Held m"
    using held_chan [OF ok b(1)] b(2) by blast
  have bb: "magic b = kBufMagic" "b_index b = i" "buf_ok p a (Held m) b"
    using live_buffer [OF c(3,4)] b(1) c(5,6,7) by auto
  then have res: "outs = [SendTo p (CreditMsg (Some a) (int i))]"
    "mem = (pm s (rk env q))(x \<mapsto> b\<lparr>c_ref := CMK_PERSISTENT_REFBASE, b_srcPE := - 1, b_srcHandle := None\<rparr>)"
    using release_held [of "pm s (rk env q)" x b a] b(1) h by auto
  show ?thesis
  proof (rule buffer_ok [OF ok c(1,2,3,4), of InCredit])
    show "mset (issued s (p, a)) = mset (handled s (p, a)) + all_content (ts(i := InCredit))"
      using c(3) same_content_upd [OF c(4), of InCredit ts] c(7) by (simp add: live_def)
  qed (use c bb res in \<open>simp_all add: emit_def\<close>)
qed

lemma create_ok:
  assumes ok: "psys_ok env s" and fresh: "sendHeap (tab s p) a = None" "a \<notin> set (sendVec (tab s p))"
    and mb: "0 < mb" "mb \<le> 2 ^ 31 - 16"
    and h: "CmiCreatePersistent env p a q mb (tab s p) = Inr (outs, hnd, st)"
  shows "psys_ok env (emit outs (s\<lparr>tab := (tab s)(p := st)\<rparr>))"
proof -
  define s' where "s' = emit outs (s\<lparr>tab := (tab s)(p := st)\<rparr>)"
  define loc where "loc \<longleftrightarrow> pv_nodeOf env q = pv_nodeOf env p"
  define slot :: "'a PersistentSendsTable" where
    "slot = \<lparr>destPE = q, destNode = pv_nodeOf env q, destNodeGlobal = rk env q, s_sizeMax = align_int mb, isLocal = loc,
       useRdma = (\<not> loc \<and> pv_rdma env), setupDone = loc, destHandle = None,
       bufs = replicate NB \<lparr>bd_addr = 0, bd_disp = 0, bd_rmr = None\<rparr>, busy = replicate NB False, nextBuf = 0, pending = []\<rparr>"
  have st: "st = (tab s p)\<lparr>sendVec := sendVec (tab s p) @ [a], sendHeap := (sendHeap (tab s p))(a \<mapsto> slot)\<rparr>"
    and outs: "outs = (if loc then [] else [SendTo q (RequestMsg p (align_int mb) (Some a))])"
    using h by (auto simp: CmiCreatePersistent_def newSendSlot_def set_send_def Let_def rk_def loc_def slot_def split: if_splits)
  note slot = slot_def
  have flds: "tab s' = (tab s)(p := st)" "pm s' = pm s" "owner s' = owner s" "rowner s' = rowner s"
    "handled s' = handled s" "issued s' = issued s" "sent s' = sent s" "puts s' = puts s - {#} + {#}"
    "net s' = net s - {#} + out_net outs"
    by (simp_all add: s'_def emit_def outs)
  have o: "\<forall>x \<in># out_net outs. chan_of x = Some (p, Some a)"
    by (simp add: outs)
  have blank: "silent s (p, a)" "sent s (p, a) = []" "issued s (p, a) = []" "handled s (p, a) = []"
    using ok fresh(1) by (auto simp: psys_ok_def chan_ok_def dest!: spec [of _ p] spec [of _ a])
  have ms: "c \<noteq> (p, a) \<Longrightarrow> msgs_of s' c = msgs_of s c" "msgs_of s' (p, a) = msgs_of s (p, a) - {#} + out_net outs"
    "puts_of s' c = puts_of s c" for c
    using msgs_of_change [OF flds(9) _ o] by (simp_all add: puts_of_def flds)
  have "psys_ok env s'"
  proof (rule psys_ok_step [OF ok, of "(p, a)"])
    fix c
    assume "c \<noteq> (p, a)"
    moreover have "lookupRecvSlot (Some r) (tab s' k) = lookupRecvSlot (Some r) (tab s k)" for r k
      by (simp add: flds st lookupRecvSlot_def)
    ultimately show "same_for c s s'"
      by (cases c) (auto simp: same_for_def flds(1-7) ms st)
  next
    have "slot_ok env slot"
      using align_int_ok [OF mb] slot by (simp add: slot_ok_def)
    moreover have "waiting env s' (p, a) slot" if "\<not> loc"
      using blank that slot by (simp add: waiting_def busy_ok_def ms silent_def flds(3-7) outs)
    moreover have "silent s' (p, a)" if loc
      using blank that by (simp add: silent_def ms flds(3) outs)
    moreover have "isLocal slot = loc"
      by (simp add: slot_def)
    ultimately show "chan_ok env s' (p, a)"
      by (simp add: chan_ok_def flds(1) st)
  next
    have lab: "labelled s"
      using ok by (simp add: psys_ok_def)
    show "labelled s'"
      by (rule labelled_step [OF lab _ o, of _ "{#}"]) (use lab in \<open>simp_all add: flds labelled_def\<close>)
  qed
  then show ?thesis
    by (simp add: s'_def)
qed

text \<open>What the loop of the receive slot sets up.\<close>

lemma recv_loop_ok:
  assumes "distinct bases"
  shows "\<exists>mem'. recv_loop rdma r k i (map Some bases) (map Some bases) mem
      = Inr (bases, map (\<lambda>b. if rdma then Some b else None) bases, mem')
    \<and> (\<forall>j < length bases. mem' (bases ! j + kMsgOffset) = Some (fresh_buf r (i + j) k (if rdma then Some (bases ! j) else None)))
    \<and> (\<forall>x. x \<notin> (\<lambda>b. b + kMsgOffset) ` set bases \<longrightarrow> mem' x = mem x)"
  using assms
proof (induction bases arbitrary: i mem)
  case (Cons b bases)
  let ?mem = "mem(b + kMsgOffset \<mapsto> fresh_buf r i k (if rdma then Some b else None))"
  have "distinct bases"
    using Cons.prems by simp
  from Cons.IH [OF this, of "i + 1" ?mem]
  obtain mem' where m: "recv_loop rdma r k (i + 1) (map Some bases) (map Some bases) ?mem
      = Inr (bases, map (\<lambda>b. if rdma then Some b else None) bases, mem')"
    "\<forall>j < length bases. mem' (bases ! j + kMsgOffset) = Some (fresh_buf r (i + 1 + j) k (if rdma then Some (bases ! j) else None))"
    "\<forall>x. x \<notin> (\<lambda>b. b + kMsgOffset) ` set bases \<longrightarrow> mem' x = ?mem x"
    by blast
  have "b + kMsgOffset \<notin> (\<lambda>b. b + kMsgOffset) ` set bases"
    using Cons.prems by auto
  then have "mem' (b + kMsgOffset) = Some (fresh_buf r i k (if rdma then Some b else None))"
    using m(3) by simp
  moreover have "mem' ((b # bases) ! Suc j + kMsgOffset) = Some (fresh_buf r (i + Suc j) k (if rdma then Some ((b # bases) ! Suc j) else None))"
    if "j < length bases" for j
    using m(2) that by simp
  ultimately have "\<forall>j < length (b # bases). mem' ((b # bases) ! j + kMsgOffset)
      = Some (fresh_buf r (i + j) k (if rdma then Some ((b # bases) ! j) else None))"
    by (auto simp: less_Suc_eq_0_disj)
  then show ?case
    using m(1,3) by (intro exI [of _ mem']) (auto simp: Let_def)
qed simp

lemma request_handler:
  assumes "length bases = NB" and "distinct bases" and "0 < mb" and "align_int mb = mb"
    and "persistentRequestHandler env r (map Some bases) (map Some bases) p mb (Some a) (mem0, st0) = Inr (outs, mem, st)"
  shows "let mrs = map (\<lambda>b. if pv_rdma env then Some b else None) bases;
      slot = \<lparr>r_sizeMax = mb, r_base = bases, r_msgPtr = map (\<lambda>b. b + kMsgOffset) bases, r_mr = mrs\<rparr>;
      descs = map2 (\<lambda>p mr. \<lparr>bd_addr = p, bd_disp = kMsgOffset, bd_rmr = mr\<rparr>) (map (\<lambda>b. b + kMsgOffset) bases) mrs
    in outs = [SendTo p (ReqGrantedMsg (Some a) (Some r) descs)]
      \<and> st = st0\<lparr>recvVec := recvVec st0 @ [r], recvHeap := (recvHeap st0)(r \<mapsto> slot)\<rparr>
      \<and> (\<forall>j < NB. mem (bases ! j + kMsgOffset) = Some (fresh_buf r j mb (mrs ! j)))
      \<and> (\<forall>x. x \<notin> (\<lambda>b. b + kMsgOffset) ` set bases \<longrightarrow> mem x = mem0 x)"
proof -
  obtain mem' where m: "recv_loop (pv_rdma env) r mb 0 (map Some bases) (map Some bases) mem0
      = Inr (bases, map (\<lambda>b. if pv_rdma env then Some b else None) bases, mem')"
    "\<forall>j < NB. mem' (bases ! j + kMsgOffset) = Some (fresh_buf r j mb (if pv_rdma env then Some (bases ! j) else None))"
    "\<forall>x. x \<notin> (\<lambda>b. b + kMsgOffset) ` set bases \<longrightarrow> mem' x = mem0 x"
    using recv_loop_ok [OF assms(2), of "pv_rdma env" r mb 0 mem0] assms(1) by auto
  have "newRecvSlot env r (map Some bases) (map Some bases) mb mem0 st0
      = Inr (\<lparr>r_sizeMax = mb, r_base = bases, r_msgPtr = map (\<lambda>b. b + kMsgOffset) bases,
               r_mr = map (\<lambda>b. if pv_rdma env then Some b else None) bases\<rparr>, mem',
             st0\<lparr>recvVec := recvVec st0 @ [r], recvHeap := (recvHeap st0)(r \<mapsto> \<lparr>r_sizeMax = mb, r_base = bases,
               r_msgPtr = map (\<lambda>b. b + kMsgOffset) bases, r_mr = map (\<lambda>b. if pv_rdma env then Some b else None) bases\<rparr>)\<rparr>)"
    using assms(1,3,4) m(1) by (simp add: newRecvSlot_def Let_def)
  then show ?thesis
    using assms(1,5) m(2,3) by (auto simp: persistentRequestHandler_def fillBufDescs_def Let_def split: if_splits)
qed

text \<open>The memory and the tables after a request has been answered.\<close>

lemma request_others:
  assumes fresh: "fresh_recv env s q r bases" and c: "c \<noteq> (p, a)"
    and tab: "tab s' = (tab s)(q := st)" and st: "st = (tab s q)\<lparr>recvVec := recvVec (tab s q) @ [r], recvHeap := (recvHeap (tab s q))(r \<mapsto> rs)\<rparr>"
    and pm: "pm s' = (pm s)(rk env q := mem)" and mem: "\<forall>x. x \<notin> (\<lambda>b. b + kMsgOffset) ` set bases \<longrightarrow> mem x = pm s (rk env q) x"
    and rown: "rowner s' = (rowner s)(q := (rowner s q)(r \<mapsto> (p, a)))"
    and own: "owner s' = (owner s)(rk env q := (\<lambda>x. if x \<in> (\<lambda>b. b + kMsgOffset) ` set bases then Some (p, a) else owner s (rk env q) x))"
    and same: "handled s' = handled s" "sent s' = sent s" "issued s' = issued s" "msgs_of s' c = msgs_of s c" "puts_of s' c = puts_of s c"
  shows "same_for c s s'"
proof -
  have none: "owner s (rk env q) x = None" if "x \<in> (\<lambda>b. b + kMsgOffset) ` set bases" for x
    using fresh that by (auto simp: fresh_recv_def)
  have "lookupRecvSlot (Some r') (tab s' q') = lookupRecvSlot (Some r') (tab s q')" if "q' = q \<longrightarrow> r' \<noteq> r" for q' r'
    using that by (auto simp: tab st lookupRecvSlot_def)
  then have R: "rowner s' q' r' = Some c \<and> lookupRecvSlot (Some r') (tab s' q') = lookupRecvSlot (Some r') (tab s q')"
    if "rowner s q' r' = Some c" for q' r'
    using that fresh by (auto simp: rown fresh_recv_def)
  have O: "owner s' j x = Some c \<longleftrightarrow> owner s j x = Some c" for j x
    using none c by (auto simp: own)
  have P: "pm s' j x = pm s j x" if "owner s j x = Some c" for j x
  proof -
    have "x \<notin> (\<lambda>b. b + kMsgOffset) ` set bases" if "j = rk env q"
      using none [of x] \<open>owner s j x = Some c\<close> that by auto
    then show ?thesis
      using mem by (auto simp: pm)
  qed
  have H: "sendHeap (tab s' (fst c)) (snd c) = sendHeap (tab s (fst c)) (snd c)" "sendVec (tab s' (fst c)) = sendVec (tab s (fst c))"
    by (simp_all add: tab st)
  show ?thesis
    unfolding same_for_def using R O P H same by simp
qed

text \<open>The receive slot and the buffers a request sets up.\<close>

lemma request_recv:
  assumes len: "length bases = NB" "distinct bases"
    and mrs: "mrs = map (\<lambda>b. if pv_rdma env then Some b else None) bases"
    and descs: "descs = map2 (\<lambda>p mr. \<lparr>bd_addr = p, bd_disp = kMsgOffset, bd_rmr = mr\<rparr>) (map (\<lambda>b. b + kMsgOffset) bases) mrs"
    and look: "lookupRecvSlot (Some r) (tab s' q) = Some (r, \<lparr>r_sizeMax = mb, r_base = bases, r_msgPtr = map (\<lambda>b. b + kMsgOffset) bases, r_mr = mrs\<rparr>)"
    and rown: "rowner s' q r = Some c"
    and own: "\<And>j x. owner s' j x = Some c \<longleftrightarrow> j = rk env q \<and> x \<in> (\<lambda>b. b + kMsgOffset) ` set bases"
    and mem: "\<forall>j < NB. pm s' (rk env q) (bases ! j + kMsgOffset) = Some (fresh_buf r j mb (mrs ! j))"
  shows "recv_ok env s' c q r mb descs \<and> bufs_ok env s' c q descs (\<lambda>_. Idle)"
proof -
  have lm: "length mrs = NB" "length descs = NB"
    by (simp_all add: mrs descs len)
  have nth: "descs ! j = \<lparr>bd_addr = bases ! j + kMsgOffset, bd_disp = kMsgOffset, bd_rmr = (if pv_rdma env then Some (bases ! j) else None)\<rparr>"
    if "j < NB" for j
    using that by (simp add: descs mrs len)
  have addr: "map bd_addr descs = map (\<lambda>b. b + kMsgOffset) bases"
    by (rule nth_equalityI) (simp_all add: lm len nth)
  have "distinct (map bd_addr descs)"
    unfolding addr using len(2) by (simp add: distinct_map inj_on_def)
  moreover have "bd_addr ` set descs = (\<lambda>b. b + kMsgOffset) ` set bases"
    using addr by (metis list.set_map)
  moreover have "(pv_rdma env \<longrightarrow> bd_rmr d \<noteq> None) \<and> (\<forall>base. bd_rmr d = Some base \<longrightarrow> base + bd_disp d = bd_addr d)"
    if "d \<in> set descs" for d
    using that lm(2) by (auto simp: in_set_conv_nth nth split: if_splits)
  ultimately have "recv_ok env s' c q r mb descs"
    using look rown own lm(2) by (simp add: recv_ok_def addr)
  moreover have "bufs_ok env s' c q descs (\<lambda>_. Idle)"
    using mem by (simp add: bufs_ok_def nth fresh_buf_def)
  ultimately show ?thesis
    by blast
qed

lemma request_ok:
  assumes ok: "psys_ok env s" and x: "(q, RequestMsg p mb (Some a)) \<in># net s" and fresh: "fresh_recv env s q r bases"
    and h: "persistentRequestHandler env r (map Some bases) (map Some bases) p mb (Some a) (pm s (rk env q), tab s q)
           = Inr (outs, mem, st)"
  shows "psys_ok env (emit outs (take_msg (q, RequestMsg p mb (Some a)) (s\<lparr>tab := (tab s)(q := st),
    pm := (pm s)(rk env q := mem), rowner := (rowner s)(q := (rowner s q)(r \<mapsto> (p, a))),
    owner := (owner s)(rk env q := (\<lambda>x. if x \<in> (\<lambda>b. b + kMsgOffset) ` set bases then Some (p, a)
                                         else owner s (rk env q) x))\<rparr>)))" (is "psys_ok env ?s")
proof -
  define s' where "s' = ?s"
  let ?x = "(q, RequestMsg p mb (Some a))"
  obtain slot where c: "sendHeap (tab s p) a = Some slot" "\<not> isLocal slot" "a \<in> set (sendVec (tab s p))" "slot_ok env slot"
    and w: "waiting env s (p, a) slot" and m: "msgs_of s (p, a) = {#?x#}"
    using setup_chan [OF ok x _ setup_not_conc(1)] by auto
  have q: "q = destPE slot" "mb = s_sizeMax slot" "msgs_of s (p, a) = {#?x#}" "\<forall>j y. owner s j y \<noteq> Some (p, a)"
    using m w by (auto simp: waiting_def)
  define mrs where "mrs = map (\<lambda>b. if pv_rdma env then Some b else None) bases"
  define rs where "rs = \<lparr>r_sizeMax = mb, r_base = bases, r_msgPtr = map (\<lambda>b. b + kMsgOffset) bases, r_mr = mrs\<rparr>"
  define descs where "descs = map2 (\<lambda>p mr. \<lparr>bd_addr = p, bd_disp = kMsgOffset, bd_rmr = mr\<rparr>) (map (\<lambda>b. b + kMsgOffset) bases) mrs"
  have len: "length bases = NB" "distinct bases"
    using fresh by (simp_all add: fresh_recv_def)
  have pos: "0 < mb" "align_int mb = mb"
    using c(4) by (simp_all add: slot_ok_def q)
  have res: "outs = [SendTo p (ReqGrantedMsg (Some a) (Some r) descs)]"
    "st = (tab s q)\<lparr>recvVec := recvVec (tab s q) @ [r], recvHeap := (recvHeap (tab s q))(r \<mapsto> rs)\<rparr>"
    "\<forall>j < NB. mem (bases ! j + kMsgOffset) = Some (fresh_buf r j mb (mrs ! j))"
    "\<forall>x. x \<notin> (\<lambda>b. b + kMsgOffset) ` set bases \<longrightarrow> mem x = pm s (rk env q) x"
    using request_handler [OF len pos h, unfolded Let_def] unfolding mrs_def rs_def descs_def by blast+
  have flds: "tab s' = (tab s)(q := st)" "pm s' = (pm s)(rk env q := mem)" "rowner s' = (rowner s)(q := (rowner s q)(r \<mapsto> (p, a)))"
    "owner s' = (owner s)(rk env q := (\<lambda>x. if x \<in> (\<lambda>b. b + kMsgOffset) ` set bases then Some (p, a) else owner s (rk env q) x))"
    "handled s' = handled s" "issued s' = issued s" "sent s' = sent s" "puts s' = puts s"
    "net s' = net s - {#?x#} + out_net outs"
    by (simp_all add: s'_def emit_def take_msg_def res(1))
  have o: "\<forall>x \<in># out_net outs. chan_of x = Some (p, Some a)"
    by (simp add: res(1))
  note ms = msgs_of_change [OF flds(9) _ o]
  have ps: "puts_of s' c' = puts_of s c'" for c'
    by (simp add: puts_of_def flds(8))
  have look: "lookupRecvSlot (Some r) (tab s' q) = Some (r, rs)"
    by (simp add: flds(1) res(2) lookupRecvSlot_def)
  have own: "owner s' j y = Some (p, a) \<longleftrightarrow> j = rk env q \<and> y \<in> (\<lambda>b. b + kMsgOffset) ` set bases" for j y
    using q(4) by (auto simp: flds(4))
  have rec: "recv_ok env s' (p, a) q r mb descs \<and> bufs_ok env s' (p, a) q descs (\<lambda>_. Idle)"
    by (rule request_recv [OF len mrs_def descs_def look [unfolded rs_def] _ own]) (simp_all add: flds(2,3) res(3))
  have "psys_ok env s'"
  proof (rule psys_ok_step [OF ok, of "(p, a)"])
    fix c'
    assume "c' \<noteq> (p, a)"
    then show "same_for c' s s'"
      by (intro request_others [OF fresh _ flds(1) res(2) flds(2) res(4) flds(3,4,5,7,6) _ ps]) (simp_all add: ms(1))
  next
    have "waiting env s' (p, a) slot"
      using w rec ms(2) q by (auto simp: waiting_def ps flds(5,6,7) res(1))
    moreover have "sendHeap (tab s' p) a = Some slot" "sendVec (tab s' p) = sendVec (tab s p)"
      using c(1) by (auto simp: flds(1) res(2))
    ultimately show "chan_ok env s' (p, a)"
      using c by (simp add: chan_ok_def)
  next
    have lab: "labelled s"
      using ok by (simp add: psys_ok_def)
    show "labelled s'"
      by (rule labelled_step [OF lab _ o, of _ "{#}"])
        (use lab res(4) in \<open>auto simp: flds labelled_def split: if_splits\<close>)
  qed
  then show ?thesis
    by (simp add: s'_def)
qed

end
