(* ===== verification/Persistent_Run.thy ===== *)
theory Persistent_Run
  imports Persistent_Protocol
begin

text \<open>
  A complete run of a persistent channel between two processes, for the witnesses: set-up, one message sent,
  delivered and released, and the credit returned.  Each step is computed from the one before.
\<close>

section \<open>Steps as functions\<close>

definition do_create :: "penv \<Rightarrow> int \<Rightarrow> nat \<Rightarrow> int \<Rightarrow> int \<Rightarrow> 'm psys \<Rightarrow> 'm psys" where
  "do_create env p a q mb s =
     (let z = projr (CmiCreatePersistent env p a q mb (tab s p)) in emit (fst z) (s\<lparr>tab := (tab s)(p := snd (snd z))\<rparr>))"

definition do_send :: "penv \<Rightarrow> int \<Rightarrow> nat \<Rightarrow> int \<Rightarrow> 'm \<Rightarrow> 'm psys \<Rightarrow> 'm psys" where
  "do_send env p a n m s =
     (let z = projr (CmiSendPersistentMsg env p (Some a) n m (tab s p)) in
      note_issued (p, a) (fst z) (emit (fst z) (s\<lparr>tab := (tab s)(p := snd z), sent := (sent s)((p, a) := sent s (p, a) @ [m])\<rparr>)))"

definition do_request :: "penv \<Rightarrow> int \<Rightarrow> nat \<Rightarrow> nat list \<Rightarrow> int \<Rightarrow> int \<Rightarrow> nat \<Rightarrow> 'm psys \<Rightarrow> 'm psys" where
  "do_request env q r bases p mb a s =
     (let z = projr (persistentRequestHandler env r (map Some bases) (map Some bases) p mb (Some a) (pm s (rk env q), tab s q)) in
      emit (fst z) (take_msg (q, RequestMsg p mb (Some a)) (s\<lparr>tab := (tab s)(q := snd (snd z)),
           pm := (pm s)(rk env q := fst (snd z)), rowner := (rowner s)(q := (rowner s q)(r \<mapsto> (p, a))),
           owner := (owner s)(rk env q := (\<lambda>x. if x \<in> (\<lambda>b. b + kMsgOffset) ` set bases then Some (p, a)
                                                else owner s (rk env q) x))\<rparr>)))"

definition do_granted :: "penv \<Rightarrow> int \<Rightarrow> nat \<Rightarrow> phandle \<Rightarrow> PersistentBufDesc list \<Rightarrow> 'm psys \<Rightarrow> 'm psys" where
  "do_granted env p a dh descs s =
     (let z = persistentReqGrantedHandler env p (Some a) dh descs (tab s p) in
      note_issued (p, a) (fst z) (emit (fst z) (take_msg (p, ReqGrantedMsg (Some a) dh descs) (s\<lparr>tab := (tab s)(p := snd z)\<rparr>))))"

definition do_data :: "penv \<Rightarrow> int \<Rightarrow> phandle \<Rightarrow> nat \<Rightarrow> int \<Rightarrow> int \<Rightarrow> int \<Rightarrow> 'm option \<Rightarrow> 'm \<Rightarrow> 'm psys \<Rightarrow> 'm psys" where
  "do_data env q dh a p i n payload m s =
     (let z = projr (persistentDataHandler dh (Some a) p i n payload (pm s (rk env q), tab s q)) in
      take_msg (q, DataMsg dh (Some a) p i n payload)
           (s\<lparr>tab := (tab s)(q := snd (snd z)), pm := (pm s)(rk env q := fst (snd z)),
              handled := (handled s)((p, a) := handled s (p, a) @ [m])\<rparr>))"

definition do_release :: "penv \<Rightarrow> int \<Rightarrow> nat \<Rightarrow> 'm psys \<Rightarrow> 'm psys" where
  "do_release env q x s =
     (let z = projr (free_received x (pm s (rk env q))) in emit (fst z) (s\<lparr>pm := (pm s)(rk env q := snd z)\<rparr>))"

definition do_credit :: "penv \<Rightarrow> int \<Rightarrow> nat \<Rightarrow> int \<Rightarrow> 'm psys \<Rightarrow> 'm psys" where
  "do_credit env p a i s =
     (let z = projr (persistentCreditHandler env p (Some a) i (tab s p)) in
      note_issued (p, a) (fst z) (emit (fst z) (take_msg (p, CreditMsg (Some a) i) (s\<lparr>tab := (tab s)(p := snd z)\<rparr>))))"

lemma not_isl: "\<not> isl x \<Longrightarrow> x = Inr (projr x)"
  by (cases x) auto

lemma create_step:
  assumes "sendHeap (tab s p) a = None" and "a \<notin> set (sendVec (tab s p))" and "0 < mb" and "mb \<le> 2 ^ 31 - 16"
    and "\<not> isl (CmiCreatePersistent env p a q mb (tab s p))"
  shows "pstep env s (do_create env p a q mb s)"
proof -
  obtain outs h st where "CmiCreatePersistent env p a q mb (tab s p) = Inr (outs, h, st)"
    using assms(5) by (cases "CmiCreatePersistent env p a q mb (tab s p)") auto
  then show ?thesis
    using pstep.create [OF assms(1-4)] by (simp add: do_create_def)
qed

lemma send_step:
  assumes "map_option isLocal (sendHeap (tab s p) a) = Some False" and "0 \<le> n"
    and "\<not> isl (CmiSendPersistentMsg env p (Some a) n m (tab s p))"
  shows "pstep env s (do_send env p a n m s)"
proof -
  obtain slot where "sendHeap (tab s p) a = Some slot" "\<not> isLocal slot"
    using assms(1) by auto
  then show ?thesis
    unfolding do_send_def Let_def
    by (rule pstep.send [OF _ _ assms(2)]) (use not_isl [OF assms(3)] in \<open>simp add: prod_eq_iff\<close>)
qed

lemma request_step:
  assumes "(q, RequestMsg p mb (Some a)) \<in># net s" and "fresh_recv env s q r bases"
    and "\<not> isl (persistentRequestHandler env r (map Some bases) (map Some bases) p mb (Some a) (pm s (rk env q), tab s q))"
  shows "pstep env s (do_request env q r bases p mb a s)"
  unfolding do_request_def Let_def
  by (rule pstep.request [OF assms(1,2)]) (use not_isl [OF assms(3)] in \<open>simp add: prod_eq_iff\<close>)

lemma granted_step:
  assumes "(p, ReqGrantedMsg (Some a) dh descs) \<in># net s"
  shows "pstep env s (do_granted env p a dh descs s)"
  unfolding do_granted_def Let_def by (rule pstep.granted [OF assms]) simp

lemma data_step:
  assumes "(q, DataMsg dh (Some a) p i n payload) \<in># net s"
    and "\<not> isl (persistentDataHandler dh (Some a) p i n payload (pm s (rk env q), tab s q))"
    and "fst (projr (persistentDataHandler dh (Some a) p i n payload (pm s (rk env q), tab s q))) = [HandleMessage x]"
    and "map_option b_data (fst (snd (projr (persistentDataHandler dh (Some a) p i n payload (pm s (rk env q), tab s q)))) x) = Some (Some m)"
  shows "pstep env s (do_data env q dh a p i n payload m s)"
proof -
  obtain mem st where "persistentDataHandler dh (Some a) p i n payload (pm s (rk env q), tab s q) = Inr ([HandleMessage x], mem, st)"
    using assms(2,3) by (cases "persistentDataHandler dh (Some a) p i n payload (pm s (rk env q), tab s q)") auto
  then show ?thesis
    using pstep.data [OF assms(1)] assms(4) by (auto simp: do_data_def)
qed

lemma release_step:
  assumes "map_option b_srcHandle (pm s (rk env q) x) = Some (Some a)" and "\<not> isl (free_received x (pm s (rk env q)))"
  shows "pstep env s (do_release env q x s)"
proof -
  obtain b where "pm s (rk env q) x = Some b" "b_srcHandle b = Some a"
    using assms(1) by auto
  then show ?thesis
    unfolding do_release_def Let_def
    by (intro pstep.release) (use not_isl [OF assms(2)] in \<open>simp_all add: prod_eq_iff\<close>)
qed

lemma credit_step:
  assumes "(p, CreditMsg (Some a) i) \<in># net s" and "\<not> isl (persistentCreditHandler env p (Some a) i (tab s p))"
  shows "pstep env s (do_credit env p a i s)"
  unfolding do_credit_def Let_def
  by (rule pstep.credit [OF assms(1)]) (use not_isl [OF assms(2)] in \<open>simp add: prod_eq_iff\<close>)

section \<open>The run\<close>

definition demo_env :: penv where
  "demo_env = \<lparr>pv_numPes = 2, pv_nodeOf = (\<lambda>pe. pe), pv_nodeFirst = (\<lambda>n. n), pv_global = (\<lambda>n. n), pv_rdma = False,
     pv_ipc = (\<lambda>_. False), pv_rmrBytes = 0\<rparr>"

definition demo_descs :: "PersistentBufDesc list" where
  "demo_descs = map (\<lambda>b. \<lparr>bd_addr = b, bd_disp = 64, bd_rmr = None\<rparr>) [1064, 2064, 3064, 4064]"

definition demo1 :: "nat psys" where
  "demo1 = do_create demo_env 0 1 1 100 psys_init"

definition demo2 :: "nat psys" where
  "demo2 = do_request demo_env 1 5 [1000, 2000, 3000, 4000] 0 112 1 demo1"

definition demo3 :: "nat psys" where
  "demo3 = do_granted demo_env 0 1 (Some 5) demo_descs demo2"

definition demo4 :: "nat psys" where
  "demo4 = do_send demo_env 0 1 40 7 demo3"

definition demo5 :: "nat psys" where
  "demo5 = do_data demo_env 1 (Some 5) 1 0 0 40 (Some 7) 7 demo4"

definition demo6 :: "nat psys" where
  "demo6 = do_release demo_env 1 1064 demo5"

definition demo7 :: "nat psys" where
  "demo7 = do_credit demo_env 0 1 0 demo6"

text \<open>The slot, the tables and the buffers as the run leaves them.\<close>

definition demo_slot :: "nat PersistentSendsTable" where
  "demo_slot = \<lparr>destPE = 1, destNode = 1, destNodeGlobal = 1, s_sizeMax = 112, isLocal = False, useRdma = False,
     setupDone = False, destHandle = None, bufs = replicate 4 \<lparr>bd_addr = 0, bd_disp = 0, bd_rmr = None\<rparr>,
     busy = [False, False, False, False], nextBuf = 0, pending = []\<rparr>"

definition demo_tab :: "nat PersistentSendsTable \<Rightarrow> nat ppe" where
  "demo_tab slot = CmiPersistentInit\<lparr>sendVec := [1], sendHeap := [1 \<mapsto> slot]\<rparr>"

definition demo_recv :: PersistentReceivesTable where
  "demo_recv = \<lparr>r_sizeMax = 112, r_base = [1000, 2000, 3000, 4000], r_msgPtr = [1064, 2064, 3064, 4064],
     r_mr = [None, None, None, None]\<rparr>"

definition demo_mem :: "nat pmem" where
  "demo_mem = [1064 \<mapsto> fresh_buf 5 0 112 None, 2064 \<mapsto> fresh_buf 5 1 112 None, 3064 \<mapsto> fresh_buf 5 2 112 None,
     4064 \<mapsto> fresh_buf 5 3 112 None]"

definition demo_live :: "nat PersistentSendsTable" where
  "demo_live = demo_slot\<lparr>destHandle := Some 5, bufs := demo_descs, setupDone := True\<rparr>"

lemmas demo_defs = demo_env_def demo_slot_def demo_tab_def demo_recv_def demo_live_def demo_descs_def rk_def
  PERSIST_BUFFERS_NUM_def emit_def note_issued_def take_msg_def set_send_def

lemma align_100: "align_int 100 = 112"
  by (simp add: align_int_def)

lemma align_112: "align_int 112 = 112"
  by (simp add: align_int_def)

lemma demo1_facts:
  "tab demo1 = (\<lambda>_. CmiPersistentInit)(0 := demo_tab demo_slot)" "pm demo1 = (\<lambda>_. Map.empty)"
  "net demo1 = {#(1, RequestMsg 0 112 (Some 1))#}" "puts demo1 = {#}" "sent demo1 = (\<lambda>_. [])" "issued demo1 = (\<lambda>_. [])"
  "handled demo1 = (\<lambda>_. [])" "rowner demo1 = (\<lambda>_. Map.empty)" "owner demo1 = (\<lambda>_. Map.empty)"
  "\<not> isl (CmiCreatePersistent demo_env 0 1 1 100 (tab (psys_init :: nat psys) 0))"
  by (simp_all add: demo1_def do_create_def CmiCreatePersistent_def newSendSlot_def psys_init_def CmiPersistentInit_def Let_def
      align_100 demo_defs eval_nat_numeral)

lemma demo1_step: "pstep demo_env psys_init demo1"
  unfolding demo1_def by (rule create_step) (use demo1_facts(10) in \<open>simp_all add: psys_init_def CmiPersistentInit_def\<close>)

lemma demo_request:
  "persistentRequestHandler demo_env 5 (map Some [1000, 2000, 3000, 4000]) (map Some [1000, 2000, 3000, 4000]) 0 112 (Some 1)
     (Map.empty, CmiPersistentInit :: nat ppe)
   = Inr ([SendTo 0 (ReqGrantedMsg (Some 1) (Some 5) demo_descs)], demo_mem,
       CmiPersistentInit\<lparr>recvVec := [5], recvHeap := [5 \<mapsto> demo_recv]\<rparr>)"
  by (simp add: persistentRequestHandler_def newRecvSlot_def fillBufDescs_def align_112 demo_defs kMsgOffset_def demo_mem_def
      CmiPersistentInit_def Let_def numeral_2_eq_2 numeral_3_eq_3)

lemma demo2_facts:
  "tab demo2 = (\<lambda>_. CmiPersistentInit)(0 := demo_tab demo_slot, 1 := CmiPersistentInit\<lparr>recvVec := [5], recvHeap := [5 \<mapsto> demo_recv]\<rparr>)"
  "pm demo2 = (\<lambda>_. Map.empty)(1 := demo_mem)"
  "net demo2 = {#(0, ReqGrantedMsg (Some 1) (Some 5) demo_descs)#}" "puts demo2 = {#}" "sent demo2 = (\<lambda>_. [])" "issued demo2 = (\<lambda>_. [])"
  "handled demo2 = (\<lambda>_. [])"
  using demo_request by (simp_all add: demo2_def do_request_def demo1_facts rk_def emit_def take_msg_def demo_env_def)

lemma demo2_step: "pstep demo_env demo1 demo2"
  unfolding demo2_def
proof (rule request_step)
  show "fresh_recv demo_env demo1 1 5 [1000, 2000, 3000, 4000]"
    by (simp add: fresh_recv_def demo1_facts PERSIST_BUFFERS_NUM_def CmiPersistentInit_def)
qed (use demo_request in \<open>simp_all add: demo1_facts\<close>)

lemma demo3_facts:
  "tab demo3 = (tab demo2)(0 := demo_tab demo_live)" "pm demo3 = (\<lambda>_. Map.empty)(1 := demo_mem)"
  "net demo3 = {#}" "puts demo3 = {#}" "sent demo3 = (\<lambda>_. [])" "issued demo3 = (\<lambda>_. [])" "handled demo3 = (\<lambda>_. [])"
proof -
  have "flushPending demo_env 0 1 (demo_slot\<lparr>destHandle := Some 5, bufs := demo_descs, setupDone := True\<rparr>)
      = ([], demo_slot\<lparr>destHandle := Some 5, bufs := demo_descs, setupDone := True\<rparr>)"
    by (subst flushPending.simps) (simp add: demo_slot_def)
  then have h: "persistentReqGrantedHandler demo_env 0 (Some 1) (Some 5) demo_descs (demo_tab demo_slot) = ([], demo_tab demo_live)"
    by (simp add: persistentReqGrantedHandler_def lookupSendSlot_def demo_tab_def set_send_def demo_live_def)
  show "tab demo3 = (tab demo2)(0 := demo_tab demo_live)" "pm demo3 = (\<lambda>_. Map.empty)(1 := demo_mem)"
    "net demo3 = {#}" "puts demo3 = {#}" "sent demo3 = (\<lambda>_. [])" "issued demo3 = (\<lambda>_. [])" "handled demo3 = (\<lambda>_. [])"
    using h by (simp_all add: fun_upd_idem demo3_def do_granted_def demo2_facts emit_def note_issued_def take_msg_def)
qed

lemma demo3_step: "pstep demo_env demo2 demo3"
  unfolding demo3_def by (rule granted_step) (simp add: demo2_facts)

definition demo_used :: "nat PersistentSendsTable" where
  "demo_used = demo_live\<lparr>busy := [True, False, False, False], nextBuf := 1\<rparr>"

lemma demo_send:
  "CmiSendPersistentMsg demo_env 0 (Some 1) 40 7 (demo_tab demo_live)
   = Inr ([SendTo 1 (DataMsg (Some 5) (Some 1) 0 0 40 (Some 7)), FreeMsg 7], demo_tab demo_used)"
  by (simp add: CmiSendPersistentMsg_def demo_used_def findFreeBuffer_def writeToBuffer_def sendNotification_def demo_defs
      CmiPersistentInit_def upt_rec)

lemma demo4_facts:
  "tab demo4 = (tab demo2)(0 := demo_tab demo_used)" "pm demo4 = (\<lambda>_. Map.empty)(1 := demo_mem)"
  "net demo4 = {#(1, DataMsg (Some 5) (Some 1) 0 0 40 (Some 7))#}" "puts demo4 = {#}" "sent demo4 = (\<lambda>_. [])((0, 1) := [7])"
  "issued demo4 = (\<lambda>_. [])((0, 1) := [7])" "handled demo4 = (\<lambda>_. [])"
  using demo_send by (simp_all add: demo4_def do_send_def demo3_facts emit_def note_issued_def)

lemma demo4_step: "pstep demo_env demo3 demo4"
  unfolding demo4_def by (rule send_step) (use demo_send in \<open>simp_all add: demo3_facts demo_tab_def demo_live_def demo_slot_def\<close>)

definition demo_held :: "nat pbuf" where
  "demo_held = (fresh_buf 5 0 112 None)\<lparr>b_data := Some 7, b_srcPE := 0, b_srcHandle := Some 1, c_size := 40,
     c_ref := CMK_PERSISTENT_REFBASE + 1\<rparr>"

lemma demo_data:
  "persistentDataHandler (Some 5) (Some 1) 0 0 40 (Some 7) (demo_mem, CmiPersistentInit\<lparr>recvVec := [5], recvHeap := [5 \<mapsto> demo_recv]\<rparr>)
   = Inr ([HandleMessage 1064], demo_mem(1064 \<mapsto> demo_held), CmiPersistentInit\<lparr>recvVec := [5], recvHeap := [5 \<mapsto> demo_recv]\<rparr>)"
  by (simp add: persistentDataHandler_def lookupRecvSlot_def demo_recv_def PERSIST_BUFFERS_NUM_def demo_mem_def demo_held_def fresh_buf_def)

lemma demo5_facts:
  "tab demo5 = tab demo4" "pm demo5 = (\<lambda>_. Map.empty)(1 := demo_mem(1064 \<mapsto> demo_held))"
  "net demo5 = {#}" "puts demo5 = {#}" "sent demo5 = sent demo4" "issued demo5 = issued demo4" "handled demo5 = (\<lambda>_. [])((0, 1) := [7])"
  using demo_data by (auto simp: demo5_def do_data_def demo4_facts demo2_facts take_msg_def rk_def demo_env_def)

lemma demo5_step: "pstep demo_env demo4 demo5"
  unfolding demo5_def
  by (rule data_step [where x = 1064])
    (use demo_data in \<open>simp_all add: demo4_facts demo2_facts rk_def demo_env_def demo_held_def\<close>)

lemma demo_release:
  "free_received 1064 (demo_mem(1064 \<mapsto> demo_held))
   = Inr ([SendTo 0 (CreditMsg (Some 1) 0)],
       demo_mem(1064 \<mapsto> demo_held\<lparr>c_ref := CMK_PERSISTENT_REFBASE, b_srcPE := - 1, b_srcHandle := None\<rparr>))"
proof -
  have "CmiAllocFindEnclosing (demo_mem(1064 \<mapsto> demo_held)) 1064 = Some 1064"
    by (subst CmiAllocFindEnclosing.simps) (simp add: demo_held_def CMK_PERSISTENT_REFBASE_def)
  then show ?thesis
    by (simp add: free_received_def CmiFree_def ref_add_def CmiPersistentReleaseBuffer_def demo_held_def fresh_buf_def
        CMK_PERSISTENT_REFBASE_def)
qed

lemma demo6_facts:
  "tab demo6 = tab demo4" "pm demo6 = (\<lambda>_. Map.empty)(1 := demo_mem(1064 \<mapsto> demo_held\<lparr>c_ref := CMK_PERSISTENT_REFBASE, b_srcPE := - 1, b_srcHandle := None\<rparr>))"
  "net demo6 = {#(0, CreditMsg (Some 1) 0)#}" "puts demo6 = {#}" "sent demo6 = sent demo4" "issued demo6 = issued demo4" "handled demo6 = handled demo5"
  using demo_release by (auto simp: demo6_def do_release_def demo5_facts emit_def rk_def demo_env_def)

lemma demo6_step: "pstep demo_env demo5 demo6"
  unfolding demo6_def
  by (rule release_step [where a = 1]) (use demo_release in \<open>simp_all add: demo5_facts rk_def demo_env_def demo_held_def\<close>)

definition demo_done :: "nat PersistentSendsTable" where
  "demo_done = demo_live\<lparr>nextBuf := 1\<rparr>"

lemma demo_credit: "persistentCreditHandler demo_env 0 (Some 1) 0 (demo_tab demo_used) = Inr ([], demo_tab demo_done)"
proof -
  have "flushPending demo_env 0 1 (demo_used\<lparr>busy := (busy demo_used)[0 := False]\<rparr>) = ([], demo_done)"
    by (subst flushPending.simps) (simp add: demo_used_def demo_done_def demo_live_def demo_slot_def)
  then show ?thesis
    by (simp add: persistentCreditHandler_def lookupSendSlot_def demo_tab_def set_send_def PERSIST_BUFFERS_NUM_def)
qed

lemma demo7_facts:
  "tab demo7 = (tab demo2)(0 := demo_tab demo_done)" "pm demo7 = pm demo6"
  "net demo7 = {#}" "puts demo7 = {#}" "sent demo7 = sent demo4" "issued demo7 = issued demo4" "handled demo7 = handled demo5"
  using demo_credit by (auto simp: demo7_def do_credit_def demo6_facts demo4_facts emit_def note_issued_def take_msg_def)

lemma demo7_step: "pstep demo_env demo6 demo7"
  unfolding demo7_def by (rule credit_step) (use demo_credit in \<open>simp_all add: demo6_facts demo4_facts\<close>)

lemma demo4_reach: "preach demo_env demo4"
  by (intro preach.step [OF _ demo4_step] preach.step [OF _ demo3_step]
      preach.step [OF _ demo2_step] preach.step [OF _ demo1_step] preach.start)

lemma demo5_reach: "preach demo_env demo5"
  by (rule preach.step [OF demo4_reach demo5_step])

lemma demo7_reach: "preach demo_env demo7"
  by (intro preach.step [OF _ demo7_step] preach.step [OF _ demo6_step] demo5_reach)

end
