(* ===== verification/Persistent_Claims.thy ===== *)
theory Persistent_Claims
  imports Persistent_Safety Persistent_Run
begin

text \<open>
  What the invariant of persistent channels gives: the accounting of messages, the safety of received
  messages, delivery, and the two places where the tear-down of a channel falls short of it.
\<close>

section \<open>Reachable states\<close>

lemma init_ok: "psys_ok env psys_init"
  by (simp add: psys_ok_def chan_ok_def silent_def labelled_def psys_init_def CmiPersistentInit_def msgs_of_def puts_of_def)

lemma step_ok:
  assumes "pstep env s s'" and "psys_ok env s"
  shows "psys_ok env s'"
  using assms
proof (induction rule: pstep.induct)
  case (create s p a mb q outs h st)
  then show ?case
    by (intro create_ok)
next
  case (send s p a slot n m outs st)
  then show ?case
    by (intro send_ok)
next
  case (request q p mb a s r bases outs mem st)
  then show ?case
    by (intro request_ok)
next
  case (granted p a dh descs s outs st)
  then show ?case
    by (intro granted_ok)
next
  case (data q dh a p i n payload s x mem st b m)
  then show ?case
    by (intro data_ok)
next
  case (credit p a i s outs st)
  then show ?case
    by (intro credit_ok)
next
  case (put_done k base d ctx s b)
  then show ?case
    by (intro put_ok)
next
  case (release s q x b a outs mem)
  then show ?case
    by (intro release_ok)
qed

lemma reach_ok: "preach env s \<Longrightarrow> psys_ok env s"
  by (induction rule: preach.induct) (auto simp: init_ok step_ok)

section \<open>Accounting\<close>

fun is_data :: "int \<times> 'm pmsg \<Rightarrow> bool" where
  "is_data (d, DataMsg dh h p i n payload) \<longleftrightarrow> True"
| "is_data (d, _) \<longleftrightarrow> False"

lemma filter_sum: "filter_mset P (\<Sum>i \<in> A. f i) = (\<Sum>i \<in> A. filter_mset P (f i))"
  by (induction A rule: infinite_finite_induct) auto

lemma size_sum: "size (\<Sum>i \<in> A. f i :: 'b multiset) = (\<Sum>i \<in> A. size (f i))"
  by (induction A rule: infinite_finite_induct) auto

lemma live_count:
  assumes "live env s (p, a) slot r ts"
  shows "size (all_content ts) = size (puts_of s (p, a)) + size {#x \<in># msgs_of s (p, a). is_data x#}"
proof -
  have "size (content (ts i)) = size (conc_put (destNodeGlobal slot) (destPE slot) (bufs slot) p a r i (ts i))
      + size {#x \<in># conc_msg (destPE slot) p a r i (ts i). is_data x#}" for i
    by (cases "ts i") auto
  then show ?thesis
    using assms by (simp add: live_def all_content_def all_puts_def all_msgs_def size_sum filter_sum sum.distrib)
qed

text \<open>C33. As long as no channel is torn down, on a channel between processes, in any interleaving of sends, deliveries in any order, completions of
  puts and releases, no message is lost, duplicated or reordered on its way out: the messages sent are those written to
  a buffer, in the order of the sends, followed by those still queued; and those written are, counted one by one, the ones a
  handler has been given and the ones that are being put or announced.\<close>

theorem persistent_messages_accounted:
  assumes "preach env s" and "sendHeap (tab s p) a = Some slot" and "\<not> isLocal slot"
  shows "sent s (p, a) = issued s (p, a) @ map fst (pending slot)
    \<and> mset (handled s (p, a)) \<subseteq># mset (issued s (p, a))
    \<and> length (issued s (p, a)) = length (handled s (p, a)) + size (puts_of s (p, a)) + size {#x \<in># msgs_of s (p, a). is_data x#}"
  using chan_okD(3) [OF reach_ok [OF assms(1)] assms(2,3)]
proof
  assume "waiting env s (p, a) slot"
  then show ?thesis
    by (auto simp: waiting_def)
next
  assume "\<exists>r ts. live env s (p, a) slot r ts"
  then obtain r ts where l: "live env s (p, a) slot r ts"
    by blast
  have "mset (issued s (p, a)) = mset (handled s (p, a)) + all_content ts" "sent s (p, a) = issued s (p, a) @ map fst (pending slot)"
    using l by (simp_all add: live_def)
  moreover from this(1) have "length (issued s (p, a)) = length (handled s (p, a)) + size (all_content ts)"
    by (metis size_mset size_union)
  ultimately show ?thesis
    using live_count [OF l] by simp
qed

theorem persistent_messages_accounted_witness:
  "sent demo5 (0, 1) = issued demo5 (0, 1) @ map fst (pending demo_used) \<and> length (issued demo5 (0, 1)) = 1
    \<and> length (handled demo5 (0, 1)) = 1 \<and> puts_of demo5 (0, 1) = {#} \<and> msgs_of demo5 (0, 1) = {#}"
  using persistent_messages_accounted [OF demo5_reach, of 0 1 demo_used]
  by (simp add: demo5_facts demo4_facts demo_tab_def demo_used_def demo_live_def demo_slot_def puts_of_def msgs_of_def)

section \<open>Received messages\<close>

lemma fresh_unused:
  assumes "psys_ok env s" and "fresh_recv env s q r bases" and "b \<in> set bases"
  shows "pm s (rk env q) (b + kMsgOffset) = None"
proof -
  have "owner s (rk env q) (b + kMsgOffset) = None"
    using assms(2,3) by (simp add: fresh_recv_def)
  then show ?thesis
    using assms(1) by (metis labelled_def psys_ok_def)
qed

lemma recv_loop_outside:
  "recv_loop rdma slot k i bases mrs mem = Inr (bs, ms, mem') \<Longrightarrow> \<forall>b. Some b \<in> set bases \<longrightarrow> x \<noteq> b + kMsgOffset
     \<Longrightarrow> mem' x = mem x"
  by (induction rdma slot k i bases mrs mem arbitrary: bs ms rule: recv_loop.induct)
    (auto simp: Let_def split: option.splits if_splits sum.splits prod.splits)

lemma request_outside:
  assumes "persistentRequestHandler env r (map Some bases) mrs p mb h (mem0, st0) = Inr (outs, mem, st)"
    and "x \<notin> (\<lambda>b. b + kMsgOffset) ` set bases"
  shows "mem x = mem0 x"
proof -
  obtain slot where "newRecvSlot env r (map Some bases) mrs mb mem0 st0 = Inr (slot, mem, st)"
    using assms(1) by (auto simp: persistentRequestHandler_def split: sum.splits prod.splits)
  then obtain bs ms where "recv_loop (pv_rdma env) r (align_int mb) 0 (take NB (map Some bases)) (take NB mrs) mem0 = Inr (bs, ms, mem)"
    by (auto simp: newRecvSlot_def Let_def split: sum.splits prod.splits if_splits)
  then show ?thesis
    by (rule recv_loop_outside) (use assms(2) set_take_subset [of NB "map Some bases"] in auto)
qed

lemma data_target:
  assumes "psys_ok env s" and "(q, DataMsg dh (Some a) p k n payload) \<in># net s"
    and "persistentDataHandler dh (Some a) p k n payload (pm s (rk env q), tab s q) = Inr ([HandleMessage y], mem, st)"
  shows "\<exists>b0 b1. pm s (rk env q) y = Some b0 \<and> b_srcHandle b0 = None \<and> mem = (pm s (rk env q))(y \<mapsto> b1)"
proof -
  obtain slot r ts i where c: "live env s (p, a) slot r ts" "i < NB"
    "(q, DataMsg dh (Some a) p k n payload) \<in># conc_msg (destPE slot) p a r i (ts i)"
    using data_chan [OF assms(1,2)] by auto
  obtain m inl where t: "ts i = InData m n inl" "q = destPE slot" "dh = Some r" "k = int i" "payload = (if inl then Some m else None)"
    using c(3) by (cases "ts i") auto
  obtain b where b: "pm s (rk env q) (bd_addr (bufs slot ! i)) = Some b" "buf_ok p a (ts i) b"
    using live_buffer [OF c(1,2)] t(2) by auto
  show ?thesis
    using data_handler [OF c(1,2) t(1)] b assms(3) by (auto simp: t)
qed

lemma put_chan_live:
  assumes ok: "psys_ok env s" and x: "(k, rmr, d, ctx) \<in># puts s"
  shows "\<exists>p a slot r ts i m n b base. sendHeap (tab s p) a = Some slot \<and> \<not> isLocal slot \<and> live env s (p, a) slot r ts \<and> i < NB
    \<and> ts i = InPut m n \<and> rmr = Some base \<and> k = rk env (destPE slot) \<and> base + d = bd_addr (bufs slot ! i)
    \<and> pm s k (base + d) = Some b \<and> b_srcHandle b = None"
proof -
  let ?x = "(k, rmr, d, ctx)"
  obtain p a where pa: "put_chan ?x = (p, Some a)"
    using ok x by (force simp: psys_ok_def labelled_def)
  have mem: "?x \<in># puts_of s (p, a)"
    using x pa by (simp add: puts_of_def)
  have cok: "chan_ok env s (p, a)"
    using ok by (simp add: psys_ok_def)
  obtain slot r ts where c: "sendHeap (tab s p) a = Some slot" "\<not> isLocal slot" "live env s (p, a) slot r ts"
    using cok mem by (auto simp: chan_ok_def silent_def waiting_def split: option.splits if_splits)
  have "?x \<in># all_puts p slot a r ts"
    using mem c(3) by (simp add: live_def)
  then obtain i where i: "i < NB" "?x \<in># conc_put (destNodeGlobal slot) (destPE slot) (bufs slot) p a r i (ts i)"
    by (auto simp: all_puts_def set_mset_sum)
  obtain m n where t: "ts i = InPut m n" "k = destNodeGlobal slot" "rmr = bd_rmr (bufs slot ! i)" "d = bd_disp (bufs slot ! i)"
    using i(2) by (cases "ts i") auto
  have so: "slot_ok env slot"
    by (rule chan_okD(2) [OF ok c(1,2)])
  have "useRdma slot"
    using c(3) i(1) t(1) by (auto simp: live_def busy_ok_def)
  then have "pv_rdma env"
    using so by (simp add: slot_ok_def)
  have recv: "recv_ok env s (p, a) (destPE slot) r (s_sizeMax slot) (bufs slot)"
    using c(3) by (simp add: live_def)
  then have "bufs slot ! i \<in> set (bufs slot)"
    using i(1) by (simp add: recv_ok_def)
  then obtain base where base: "rmr = Some base" "base + d = bd_addr (bufs slot ! i)"
    using recv \<open>pv_rdma env\<close> t(3,4) by (auto simp: recv_ok_def)
  moreover have "k = rk env (destPE slot)"
    using so t(2) by (simp add: slot_ok_def)
  moreover obtain b where "pm s (rk env (destPE slot)) (bd_addr (bufs slot ! i)) = Some b" "b_srcHandle b = None"
    using live_buffer [OF c(3) i(1)] t(1) by auto
  ultimately show ?thesis
    using c i(1) t(1) by metis
qed

lemma release_result:
  assumes ok: "psys_ok env s" and b: "pm s k x = Some b" "b_srcHandle b = Some a"
  shows "free_received x (pm s k) = Inr ([SendTo (b_srcPE b) (CreditMsg (Some a) (int (b_index b)))],
    (pm s k)(x \<mapsto> b\<lparr>c_ref := CMK_PERSISTENT_REFBASE, b_srcPE := - 1, b_srcHandle := None\<rparr>))"
proof -
  obtain p a' slot r ts i m where c: "live env s (p, a') slot r ts" "i < NB" "k = rk env (destPE slot)"
    "x = bd_addr (bufs slot ! i)" "ts i = Held m"
    using held_chan [OF ok b(1)] b(2) by blast
  then have "magic b = kBufMagic" "c_ref b = CMK_PERSISTENT_REFBASE + 1"
    using live_buffer [OF c(1,2)] b(1) by auto
  then show ?thesis
    using release_held [of "pm s k" x b a] b by simp
qed

text \<open>Every step leaves a held buffer alone, or is its release.\<close>

lemma held_step:
  assumes "pstep env s s'" and "psys_ok env s" and "pm s k x = Some b" and "b_srcHandle b \<noteq> None"
  shows "pm s' k x = Some b \<or> (\<exists>b'. pm s' k x = Some b' \<and> b_srcHandle b' = None \<and> c_ref b' = CMK_PERSISTENT_REFBASE)"
  using assms
proof (induction rule: pstep.induct)
  case (request q p mb a s r bases outs mem st)
  have "mem x = pm s (rk env q) x" if "k = rk env q"
  proof (rule request_outside [OF request(3)])
    show "x \<notin> (\<lambda>b. b + kMsgOffset) ` set bases"
      using fresh_unused [OF request(4,2)] request(5) that by auto
  qed
  then show ?case
    using request(5) by (auto simp: emit_def take_msg_def)
next
  case (data q dh a p i n payload s y mem st b' m)
  from data_target [OF data(5,1,2)] data(6,7) show ?case
    by (auto simp: take_msg_def)
next
  case (put_done j base d ctx s b')
  obtain b0 where "pm s j (base + d) = Some b0" "b_srcHandle b0 = None"
    using put_chan_live [OF put_done(3,1)] by auto
  with put_done(4,5) show ?case
    by (auto simp: emit_def)
next
  case (release s q y b' a outs mem)
  from release_result [OF release(4,1,2)] release(3,5) show ?case
    by (auto simp: emit_def)
qed (auto simp: emit_def note_issued_def take_msg_def)

text \<open>C34. As long as no channel is torn down, a message that a handler has received stays as it is until it is
  released: no put, no delivery and no other step of the system changes a receive buffer that is held, and its release leaves it
  without an owner and with the base reference count.\<close>

theorem held_message_untouched:
  assumes "preach env s" and "pstep env s s'" and "pm s k x = Some b" and "b_srcHandle b \<noteq> None"
  shows "pm s' k x = Some b \<or> (\<exists>b'. pm s' k x = Some b' \<and> b_srcHandle b' = None \<and> c_ref b' = CMK_PERSISTENT_REFBASE)"
  using held_step [OF assms(2) reach_ok [OF assms(1)] assms(3,4)] .

theorem held_message_untouched_witness:
  "pm demo5 1 1064 = Some demo_held \<and> b_data demo_held = Some 7
    \<and> (\<exists>b'. pm demo6 1 1064 = Some b' \<and> b_srcHandle b' = None \<and> c_ref b' = CMK_PERSISTENT_REFBASE)"
  using held_message_untouched [OF demo5_reach demo6_step, of 1 1064 demo_held]
  by (auto simp: demo5_facts demo6_facts demo_held_def)

section \<open>Progress\<close>

lemma request_returns:
  assumes "psys_ok env s" and "(q, RequestMsg p mb (Some a)) \<in># net s" and "pv_rmrBytes env \<le> CMK_PERSISTENT_RMR_BYTES"
    and "fresh_recv env s q r bases"
  shows "\<exists>z. persistentRequestHandler env r (map Some bases) (map Some bases) p mb (Some a) (pm s (rk env q), tab s q) = Inr z"
proof -
  obtain slot where "slot_ok env slot" "waiting env s (p, a) slot" "msgs_of s (p, a) = {#(q, RequestMsg p mb (Some a))#}"
    using setup_chan [OF assms(1,2) _ setup_not_conc(1)] by auto
  then have pos: "0 < mb" "align_int mb = mb"
    by (auto simp: waiting_def slot_ok_def)
  have len: "length bases = NB" "distinct bases"
    using assms(4) by (simp_all add: fresh_recv_def)
  obtain mem' where "recv_loop (pv_rdma env) r mb 0 (map Some bases) (map Some bases) (pm s (rk env q))
      = Inr (bases, map (\<lambda>b. if pv_rdma env then Some b else None) bases, mem')"
    using recv_loop_ok [OF len(2), of "pv_rdma env" r mb 0 "pm s (rk env q)"] by blast
  then show ?thesis
    using assms(3) pos len(1) by (simp add: persistentRequestHandler_def newRecvSlot_def fillBufDescs_def Let_def)
qed

lemma data_returns:
  assumes "psys_ok env s" and "(q, DataMsg dh (Some a) p k n payload) \<in># net s"
  shows "\<exists>y mem st b m. persistentDataHandler dh (Some a) p k n payload (pm s (rk env q), tab s q) = Inr ([HandleMessage y], mem, st)
    \<and> mem y = Some b \<and> b_data b = Some m"
proof -
  obtain slot r ts i where c: "live env s (p, a) slot r ts" "i < NB"
    "(q, DataMsg dh (Some a) p k n payload) \<in># conc_msg (destPE slot) p a r i (ts i)"
    using data_chan [OF assms] by auto
  obtain m inl where t: "ts i = InData m n inl" "q = destPE slot" "dh = Some r" "k = int i" "payload = (if inl then Some m else None)"
    using c(3) by (cases "ts i") auto
  obtain b where "pm s (rk env q) (bd_addr (bufs slot ! i)) = Some b"
    using live_buffer [OF c(1,2)] t(2) by auto
  then show ?thesis
    using data_handler [OF c(1,2) t(1)] by (auto simp: t)
qed

lemma credit_returns:
  assumes "psys_ok env s" and "(p, CreditMsg (Some a) k) \<in># net s"
  shows "\<exists>z. persistentCreditHandler env p (Some a) k (tab s p) = Inr z"
proof -
  obtain slot r ts i where c: "sendHeap (tab s p) a = Some slot" "a \<in> set (sendVec (tab s p))" "i < NB"
    "(p, CreditMsg (Some a) k) \<in># conc_msg (destPE slot) p a r i (ts i)" "live env s (p, a) slot r ts"
    using data_chan [OF assms] by auto
  then have "k = int i"
    by (cases "ts i") auto
  with c show ?thesis
    by (auto simp: persistentCreditHandler_def lookupSendSlot_def split: prod.splits)
qed

text \<open>C36. As long as no channel is torn down, no handler of requests, notifications and credits aborts: in every
  reachable state a request finds a positive size and gets
  its buffers wherever memory is available, a notification names a live channel, a buffer of it and a size that
  fits, and its message is in the buffer; a credit names a buffer of its channel; every put in flight goes to
  a registered buffer that nobody holds.\<close>

theorem persistent_never_aborts:
  assumes "preach env s" and "pv_rmrBytes env \<le> CMK_PERSISTENT_RMR_BYTES"
  shows "(\<forall>q p mb a r bases. (q, RequestMsg p mb (Some a)) \<in># net s \<and> fresh_recv env s q r bases \<longrightarrow>
      (\<exists>z. persistentRequestHandler env r (map Some bases) (map Some bases) p mb (Some a) (pm s (rk env q), tab s q) = Inr z))
    \<and> (\<forall>q dh a p i n payload. (q, DataMsg dh (Some a) p i n payload) \<in># net s \<longrightarrow>
      (\<exists>y mem st b m. persistentDataHandler dh (Some a) p i n payload (pm s (rk env q), tab s q) = Inr ([HandleMessage y], mem, st)
         \<and> mem y = Some b \<and> b_data b = Some m))
    \<and> (\<forall>p a i. (p, CreditMsg (Some a) i) \<in># net s \<longrightarrow> (\<exists>z. persistentCreditHandler env p (Some a) i (tab s p) = Inr z))
    \<and> (\<forall>k rmr d ctx. (k, rmr, d, ctx) \<in># puts s \<longrightarrow>
      (\<exists>base b. rmr = Some base \<and> pm s k (base + d) = Some b \<and> b_srcHandle b = None))"
proof (intro conjI allI impI)
  note ok = reach_ok [OF assms(1)]
  show "\<exists>z. persistentRequestHandler env r (map Some bases) (map Some bases) p mb (Some a) (pm s (rk env q), tab s q) = Inr z"
    if "(q, RequestMsg p mb (Some a)) \<in># net s \<and> fresh_recv env s q r bases" for q p mb a r bases
    using request_returns [OF ok _ assms(2)] that by blast
  show "\<exists>y mem st b m. persistentDataHandler dh (Some a) p i n payload (pm s (rk env q), tab s q) = Inr ([HandleMessage y], mem, st)
      \<and> mem y = Some b \<and> b_data b = Some m" if "(q, DataMsg dh (Some a) p i n payload) \<in># net s" for q dh a p i n payload
    by (rule data_returns [OF ok that])
  show "\<exists>z. persistentCreditHandler env p (Some a) i (tab s p) = Inr z" if "(p, CreditMsg (Some a) i) \<in># net s" for p a i
    by (rule credit_returns [OF ok that])
  show "\<exists>base b. rmr = Some base \<and> pm s k (base + d) = Some b \<and> b_srcHandle b = None" if "(k, rmr, d, ctx) \<in># puts s" for k rmr d ctx
    using put_chan_live [OF ok that] by blast
qed

theorem persistent_never_aborts_witness:
  "\<exists>y mem st b m. persistentDataHandler (Some 5) (Some 1) 0 0 40 (Some 7) (pm demo4 (rk demo_env 1), tab demo4 1)
     = Inr ([HandleMessage y], mem, st) \<and> mem y = Some b \<and> b_data b = Some m"
proof -
  have "pv_rmrBytes demo_env \<le> CMK_PERSISTENT_RMR_BYTES" "(1, DataMsg (Some 5) (Some 1) 0 0 40 (Some 7)) \<in># net demo4"
    by (simp_all add: demo_env_def demo4_facts)
  with persistent_never_aborts [OF demo4_reach] show ?thesis
    by blast
qed

lemma sum_empty: "(\<Sum>j < n. f j) = {#} \<Longrightarrow> i < n \<Longrightarrow> f i = {#}" for f :: "nat \<Rightarrow> 'b multiset"
  by (simp add: sum.remove [of "{..<n}" i])

lemma live_quiet:
  assumes live: "live env s (p, a) slot r ts" and quiet: "msgs_of s (p, a) = {#}" "puts_of s (p, a) = {#}"
    and free: "\<forall>k x b. pm s k x = Some b \<and> b_srcPE b = p \<longrightarrow> b_srcHandle b \<noteq> Some a"
    and i: "i < NB"
  shows "ts i = Idle"
proof -
  have "conc_msg (destPE slot) p a r i (ts i) = {#}" "conc_put (destNodeGlobal slot) (destPE slot) (bufs slot) p a r i (ts i) = {#}"
    using live quiet sum_empty [OF _ i] by (auto simp: live_def all_msgs_def all_puts_def)
  moreover have "\<not> buf_ok p a (Held m) b" if "pm s (rk env (destPE slot)) (bd_addr (bufs slot ! i)) = Some b" for b m
    using free that by auto
  ultimately show ?thesis
    using live_buffer [OF live i] by (cases "ts i") auto
qed

text \<open>C35. As long as no channel is torn down, a channel at rest has delivered everything: when nothing of it is in flight and the application has
  released what it received, the channel is set up, its queue is empty, no buffer is in use and every
  message sent has reached a handler exactly once.\<close>

theorem persistent_delivers_all:
  assumes "preach env s" and "sendHeap (tab s p) a = Some slot" and "\<not> isLocal slot"
    and "msgs_of s (p, a) = {#}" and "puts_of s (p, a) = {#}"
    and "\<forall>k x b. pm s k x = Some b \<and> b_srcPE b = p \<longrightarrow> b_srcHandle b \<noteq> Some a"
  shows "setupDone slot \<and> pending slot = [] \<and> busy slot = replicate NB False \<and> mset (handled s (p, a)) = mset (sent s (p, a))"
proof -
  have "\<not> waiting env s (p, a) slot"
    using assms(4) by (auto simp: waiting_def)
  then obtain r ts where l: "live env s (p, a) slot r ts"
    using chan_okD(3) [OF reach_ok [OF assms(1)] assms(2,3)] by blast
  have idle: "\<forall>i < NB. ts i = Idle"
    using live_quiet [OF l assms(4,5,6)] by blast
  have "busy slot = replicate NB False"
    using l idle by (intro nth_equalityI) (auto simp: live_def busy_ok_def)
  moreover have "all_content ts = {#}"
    using idle by (simp add: all_content_def)
  moreover have "pending slot = []"
    using l idle [rule_format, OF NB_pos] by (auto simp: live_def)
  ultimately show ?thesis
    using l by (simp add: live_def)
qed

theorem persistent_delivers_all_witness:
  "setupDone demo_done \<and> pending demo_done = [] \<and> busy demo_done = replicate NB False
    \<and> mset (handled demo7 (0, 1)) = mset (sent demo7 (0, 1)) \<and> sent demo7 (0, 1) = [7]"
proof -
  have "\<forall>k x b. pm demo7 k x = Some b \<and> b_srcPE b = 0 \<longrightarrow> b_srcHandle b \<noteq> Some 1"
    by (auto simp: demo7_facts demo6_facts demo_mem_def fresh_buf_def split: if_splits)
  then show ?thesis
    using persistent_delivers_all [OF demo7_reach, of 0 1 demo_done]
    by (simp add: demo7_facts demo4_facts demo_tab_def demo_done_def demo_live_def demo_slot_def puts_of_def msgs_of_def)
qed

section \<open>Tear-down\<close>

text \<open>A handle is checked by its address only.  A channel with a message in buffer 0 is destroyed, and
  a new channel gets its address; when the credit for the old message arrives, buffer 0 of the new channel is
  marked free although its message has just been sent.\<close>

theorem late_credit_hits_new_channel:
  "let st1 = snd (CmiDestroyPersistent (Some 1) (demo_tab demo_used));
       (o2, h, st2) = projr (CmiCreatePersistent demo_env 0 1 1 100 st1);
       (o3, st3) = persistentReqGrantedHandler demo_env 0 h (Some 6) demo_descs st2;
       (o4, st4) = projr (CmiSendPersistentMsg demo_env 0 h 40 9 st3);
       (o5, st5) = projr (persistentCreditHandler demo_env 0 (Some 1) 0 st4)
   in map_option busy (sendHeap st4 1) = Some [True, False, False, False]
      \<and> o4 = [SendTo 1 (DataMsg (Some 6) (Some 1) 0 0 40 (Some 9)), FreeMsg 9]
      \<and> map_option busy (sendHeap st5 1) = Some [False, False, False, False]"
  by code_simp

text \<open>A channel destroyed before its request is answered tells the receiver nothing, and the answer that
  comes later is dropped: the buffers at the destination stay.\<close>

lemma destroy_before_grant:
  assumes "lookupSendSlot (Some a) st = Some (a, slot)" and "destHandle slot = None"
    and "CmiDestroyPersistent (Some a) st = (outs, st')"
  shows "out_net outs = {#} \<and> persistentReqGrantedHandler env me (Some a) dh descs st' = ([], st')"
proof -
  have "out_net (map (\<lambda>(m, n). FreeMsg m) xs) = {#}" for xs :: "('a \<times> int) list"
    by (induction xs) auto
  moreover have "st' = st\<lparr>sendVec := remove1 a (sendVec st), sendHeap := (sendHeap st)(a := None)\<rparr>"
    "outs = map (\<lambda>(m, n). FreeMsg m) (pending slot)"
    using assms by (auto simp: CmiDestroyPersistent_def freeSendSlot_def)
  ultimately show ?thesis
    by (simp add: persistentReqGrantedHandler_def lookupSendSlot_def)
qed

end
