(* ===== verification/Task_Queue.thy ===== *)
theory Task_Queue
  imports Conditions Scheduler
begin

text \<open>
  The work-stealing task queue of \<^verbatim>\<open>include/taskqueue.h\<close> and its use in \<^verbatim>\<open>src/conv-taskq.cpp\<close>.  The operations
  are given twice: as uninterrupted calls, and one access to shared memory at a time, where the owner pushes and pops
  while thieves steal; the two agree on an uninterrupted call.  Memory is sequentially consistent, which is
  what the fences of the code are there for.  Indices are unbounded, where the code's are
  \<^verbatim>\<open>int\<close>s and the head never goes back, so a queue is followed until its head comes near \<open>2 ^ 31\<close>; a cell that was never written holds what
  \<^verbatim>\<open>malloc\<close> left in it.
\<close>

section \<open>The queue\<close>

definition TaskQueueSize :: int where
  "TaskQueueSize = 1024"

lemma TaskQueueSize_pos [simp]: "0 < TaskQueueSize"
  by (simp add: TaskQueueSize_def)

record 'a TaskQueue =
  tq_head :: int
  tq_tail :: int
  tq_data :: "int \<Rightarrow> 'a"

definition TaskQueueCreate :: "(int \<Rightarrow> 'a) \<Rightarrow> 'a TaskQueue" where
  "TaskQueueCreate garbage = \<lparr>tq_head = 0, tq_tail = 0, tq_data = garbage\<rparr>"

definition cell :: "'a TaskQueue \<Rightarrow> int \<Rightarrow> 'a" where
  "cell q i = tq_data q (i mod TaskQueueSize)"

definition TaskQueuePush :: "'a \<Rightarrow> 'a TaskQueue \<Rightarrow> 'a TaskQueue" where
  "TaskQueuePush x q =
     (let q1 = q\<lparr>tq_data := (tq_data q)(tq_tail q mod TaskQueueSize := x)\<rparr>
      in q1\<lparr>tq_tail := tq_tail q1 + 1\<rparr>)"

definition TaskQueueCAS :: "int \<Rightarrow> int \<Rightarrow> 'a TaskQueue \<Rightarrow> bool \<times> 'a TaskQueue" where
  "TaskQueueCAS old new q = (if tq_head q = old then (True, q\<lparr>tq_head := new\<rparr>) else (False, q))"

definition TaskQueuePop :: "'a TaskQueue \<Rightarrow> 'a option \<times> 'a TaskQueue" where
  "TaskQueuePop q =
     (let t = tq_tail q - 1; q1 = q\<lparr>tq_tail := t\<rparr>; h = tq_head q1 in
      if t > h then (Some (cell q1 t), q1)
      else if t < h then (None, q1\<lparr>tq_tail := h\<rparr>)
      else let q2 = q1\<lparr>tq_tail := h + 1\<rparr>; (won, q3) = TaskQueueCAS h (h + 1) q2
           in if \<not> won then (None, q3) else (Some (cell q3 t), q3))"

text \<open>Without interference the compare-and-swap of a steal cannot fail, so the loop body runs once.\<close>

definition TaskQueueSteal :: "'a TaskQueue \<Rightarrow> 'a option \<times> 'a TaskQueue" where
  "TaskQueueSteal q =
     (let h = tq_head q; t = tq_tail q in
      if h \<ge> t then (None, q)
      else let (won, q1) = TaskQueueCAS h (h + 1) q in (if won then Some (cell q1 h) else None, q1))"

section \<open>The queue as a list\<close>

definition tasks :: "'a TaskQueue \<Rightarrow> 'a list" where
  "tasks q = map (cell q) [tq_head q..tq_tail q - 1]"

definition tq_ok :: "'a TaskQueue \<Rightarrow> bool" where
  "tq_ok q \<longleftrightarrow> tq_head q \<le> tq_tail q \<and> tq_tail q - tq_head q \<le> TaskQueueSize"

lemma mod_neq_near:
  assumes "i < j" and "j - i < TaskQueueSize"
  shows "i mod TaskQueueSize \<noteq> j mod TaskQueueSize"
proof
  assume "i mod TaskQueueSize = j mod TaskQueueSize"
  then have "TaskQueueSize dvd j - i"
    by (metis mod_eq_dvd_iff)
  then show False
    using assms zdvd_imp_le [of TaskQueueSize "j - i"] by simp
qed

lemma tasks_Create: "tasks (TaskQueueCreate g) = []" "tq_ok (TaskQueueCreate g)"
  by (simp_all add: tasks_def TaskQueueCreate_def tq_ok_def TaskQueueSize_def)

lemma cell_push:
  assumes "i < tq_tail q" and "tq_tail q - i < TaskQueueSize"
  shows "tq_data (TaskQueuePush x q) (i mod TaskQueueSize) = tq_data q (i mod TaskQueueSize)"
  using mod_neq_near [OF assms] by (simp add: TaskQueuePush_def)

text \<open>The owner's end is a stack, the thieves' end takes the oldest task, and a push is safe while there
  is a free cell.\<close>

lemma push_tasks:
  assumes "tq_ok q" and "tq_tail q - tq_head q < TaskQueueSize"
  shows "tasks (TaskQueuePush x q) = tasks q @ [x]" "tq_ok (TaskQueuePush x q)"
proof -
  let ?q = "TaskQueuePush x q"
  have q: "tq_head ?q = tq_head q" "tq_tail ?q = tq_tail q + 1" "cell ?q (tq_tail q) = x"
    by (simp_all add: TaskQueuePush_def cell_def)
  have "map (cell ?q) [tq_head q..tq_tail q - 1] = map (cell q) [tq_head q..tq_tail q - 1]"
    using assms(2) by (auto simp: cell_def intro!: cell_push)
  moreover have "[tq_head q..tq_tail q] = [tq_head q..tq_tail q - 1] @ [tq_tail q]"
    using assms(1) by (simp add: upto_rec2 tq_ok_def)
  ultimately show "tasks ?q = tasks q @ [x]"
    by (simp add: tasks_def q)
  show "tq_ok ?q"
    using assms by (simp add: tq_ok_def q)
qed

lemma pop_tasks:
  assumes "tq_ok q"
  shows "TaskQueuePop q = (if tasks q = [] then (None, q) else (Some (last (tasks q)), snd (TaskQueuePop q)))"
    and "tasks (snd (TaskQueuePop q)) = butlast (tasks q)" and "tq_ok (snd (TaskQueuePop q))"
proof -
  have e: "tasks q = [] \<longleftrightarrow> tq_head q = tq_tail q"
    using assms by (auto simp: tasks_def tq_ok_def)
  have s: "tq_head q < tq_tail q \<Longrightarrow> tasks q = map (cell q) [tq_head q..tq_tail q - 2] @ [cell q (tq_tail q - 1)]"
    by (simp add: tasks_def upto_rec2 [of "tq_head q" "tq_tail q - 1"])
  have c: "cell (q\<lparr>tq_tail := a\<rparr>) = cell q" "cell (q\<lparr>tq_tail := a, tq_head := b\<rparr>) = cell q" for a b
    by (auto simp: cell_def)
  show "TaskQueuePop q = (if tasks q = [] then (None, q) else (Some (last (tasks q)), snd (TaskQueuePop q)))"
    using e s assms by (auto simp: TaskQueuePop_def TaskQueueCAS_def Let_def c tq_ok_def)
  show "tasks (snd (TaskQueuePop q)) = butlast (tasks q)"
  proof (cases "tq_head q < tq_tail q")
    case True
    then show ?thesis
      by (simp only: s butlast_snoc) (auto simp: TaskQueuePop_def TaskQueueCAS_def Let_def c tasks_def)
  next
    case False
    then show ?thesis
      using assms by (auto simp: TaskQueuePop_def TaskQueueCAS_def Let_def tasks_def tq_ok_def)
  qed
  show "tq_ok (snd (TaskQueuePop q))"
    using assms by (auto simp: TaskQueuePop_def TaskQueueCAS_def Let_def tq_ok_def)
qed

lemma steal_tasks:
  assumes "tq_ok q"
  shows "TaskQueueSteal q = (if tasks q = [] then (None, q) else (Some (hd (tasks q)), snd (TaskQueueSteal q)))"
    and "tasks (snd (TaskQueueSteal q)) = tl (tasks q)" and "tq_ok (snd (TaskQueueSteal q))"
  using assms
  by (auto simp: TaskQueueSteal_def TaskQueueCAS_def Let_def tasks_def tq_ok_def upto_rec1 [of "tq_head q"] cell_def)

section \<open>One access at a time\<close>

text \<open>Where the owner and a thief stand inside a call.  \<^verbatim>\<open>OPush\<close>: the cell is written and the tail not yet
  moved; \<^verbatim>\<open>OPop1\<close>: the tail is moved; \<^verbatim>\<open>OPop2\<close>: the head is read; \<^verbatim>\<open>OPop3\<close>: the tail is moved back before the
  compare-and-swap.  \<^verbatim>\<open>T1\<close>: the head is read; \<^verbatim>\<open>T2\<close>: the tail is read; \<^verbatim>\<open>TGot\<close>: the compare-and-swap succeeded.\<close>

datatype 'a opc = OIdle | OPush 'a | OPop1 int | OPop2 int int | OPop3 int int
datatype tpc = TIdle | T1 int | T2 int int | TGot int

definition push_write :: "'a \<Rightarrow> 'a TaskQueue \<Rightarrow> 'a opc \<times> 'a TaskQueue" where
  "push_write x q = (OPush x, q\<lparr>tq_data := (tq_data q)(tq_tail q mod TaskQueueSize := x)\<rparr>)"

definition push_publish :: "'a TaskQueue \<Rightarrow> 'a opc \<times> 'a TaskQueue" where
  "push_publish q = (OIdle, q\<lparr>tq_tail := tq_tail q + 1\<rparr>)"

definition pop_start :: "'a TaskQueue \<Rightarrow> 'a opc \<times> 'a TaskQueue" where
  "pop_start q = (let t = tq_tail q - 1 in (OPop1 t, q\<lparr>tq_tail := t\<rparr>))"

text \<open>A step of a pop under way: the next control point, the queue, and the value returned, if any.\<close>

fun pop_step :: "'a opc \<Rightarrow> 'a TaskQueue \<Rightarrow> 'a opc \<times> 'a TaskQueue \<times> 'a option" where
  "pop_step (OPop1 t) q = (OPop2 t (tq_head q), q, None)"
| "pop_step (OPop2 t h) q =
     (if t > h then (OIdle, q, Some (cell q t))
      else if t < h then (OIdle, q\<lparr>tq_tail := h\<rparr>, None)
      else (OPop3 t h, q\<lparr>tq_tail := h + 1\<rparr>, None))"
| "pop_step (OPop3 t h) q =
     (let (won, q') = TaskQueueCAS h (h + 1) q in (OIdle, q', if won then Some (cell q' t) else None))"
| "pop_step c q = (c, q, None)"

fun steal_step :: "tpc \<Rightarrow> 'a TaskQueue \<Rightarrow> tpc \<times> 'a TaskQueue \<times> 'a option" where
  "steal_step TIdle q = (T1 (tq_head q), q, None)"
| "steal_step (T1 h) q = (T2 h (tq_tail q), q, None)"
| "steal_step (T2 h t) q =
     (if h \<ge> t then (TIdle, q, None)
      else let (won, q') = TaskQueueCAS h (h + 1) q in (if won then TGot h else TIdle, q', None))"
| "steal_step (TGot h) q = (TIdle, q, Some (cell q h))"

lemma TaskQueuePush_steps: "TaskQueuePush x q = snd (push_publish (snd (push_write x q)))"
  by (simp add: TaskQueuePush_def push_write_def push_publish_def Let_def)

fun pop_run :: "nat \<Rightarrow> 'a opc \<times> 'a TaskQueue \<times> 'a option \<Rightarrow> 'a opc \<times> 'a TaskQueue \<times> 'a option" where
  "pop_run n (OIdle, q, r) = (OIdle, q, r)"
| "pop_run 0 z = z"
| "pop_run (Suc n) (c, q, r) = pop_run n (pop_step c q)"

fun steal_run :: "nat \<Rightarrow> tpc \<times> 'a TaskQueue \<times> 'a option \<Rightarrow> tpc \<times> 'a TaskQueue \<times> 'a option" where
  "steal_run n (TIdle, q, r) = (TIdle, q, r)"
| "steal_run 0 z = z"
| "steal_run (Suc n) (c, q, r) = steal_run n (steal_step c q)"

lemma TaskQueuePop_steps:
  "pop_run 3 (fst (pop_start q), snd (pop_start q), None) = (OIdle, snd (TaskQueuePop q), fst (TaskQueuePop q))"
  by (auto simp: eval_nat_numeral pop_start_def TaskQueuePop_def TaskQueueCAS_def Let_def)

lemma TaskQueueSteal_steps:
  "steal_run 3 (steal_step TIdle q) = (TIdle, snd (TaskQueueSteal q), fst (TaskQueueSteal q))"
  by (auto simp: eval_nat_numeral TaskQueueSteal_def TaskQueueCAS_def Let_def)

section \<open>The owner and the thieves\<close>

record ('i, 'a) tqs =
  queue :: "'a TaskQueue"
  owner :: "'a opc"
  thief :: "'i \<Rightarrow> tpc"
  was_pushed :: "'a multiset"
  was_taken :: "'a multiset"

fun add_got :: "'a option \<Rightarrow> 'a multiset \<Rightarrow> 'a multiset" where
  "add_got None M = M"
| "add_got (Some x) M = add_mset x M"

inductive tq_step :: "('i, 'a) tqs \<Rightarrow> ('i, 'a) tqs \<Rightarrow> bool" where
  push: "owner s = OIdle \<Longrightarrow> push_write x (queue s) = (c, q) \<Longrightarrow> tq_step s (s\<lparr>owner := c, queue := q\<rparr>)"
| publish: "owner s = OPush x \<Longrightarrow> push_publish (queue s) = (c, q)
    \<Longrightarrow> tq_step s (s\<lparr>owner := c, queue := q, was_pushed := add_mset x (was_pushed s)\<rparr>)"
| pop: "owner s = OIdle \<Longrightarrow> pop_start (queue s) = (c, q) \<Longrightarrow> tq_step s (s\<lparr>owner := c, queue := q\<rparr>)"
| popping: "pop_step (owner s) (queue s) = (c, q, r)
    \<Longrightarrow> tq_step s (s\<lparr>owner := c, queue := q, was_taken := add_got r (was_taken s)\<rparr>)"
| steal: "steal_step (thief s i) (queue s) = (c, q, r)
    \<Longrightarrow> tq_step s (s\<lparr>thief := (thief s)(i := c), queue := q, was_taken := add_got r (was_taken s)\<rparr>)"

text \<open>The array is large enough: the cell a push writes holds neither a task of the queue nor one that a
  thief has won and not read yet.  The code does not test this.\<close>

definition room :: "('i, 'a) tqs \<Rightarrow> bool" where
  "room s \<longleftrightarrow> tq_tail (queue s) - tq_head (queue s) < TaskQueueSize
     \<and> (\<forall>i h. thief s i = TGot h \<longrightarrow> tq_tail (queue s) - h < TaskQueueSize)"

inductive tq_reach :: "('i, 'a) tqs \<Rightarrow> bool" where
  start: "tq_reach \<lparr>queue = TaskQueueCreate g, owner = OIdle, thief = (\<lambda>_. TIdle), was_pushed = {#}, was_taken = {#}\<rparr>"
| step: "tq_reach s \<Longrightarrow> tq_step s s' \<Longrightarrow> (\<forall>x. owner s = OIdle \<and> owner s' = OPush x \<longrightarrow> room s)
    \<Longrightarrow> tq_reach s'"

section \<open>The invariant\<close>

text \<open>The end of the queue as the calls under way leave it, and the tasks in the hands of a caller that will
  return them.\<close>

fun end_of :: "'a opc \<Rightarrow> int \<Rightarrow> int" where
  "end_of OIdle z = z"
| "end_of (OPush x) z = z"
| "end_of (OPop1 t) z = t + 1"
| "end_of (OPop2 t h) z = (if t > h then t else t + 1)"
| "end_of (OPop3 t h) z = h + 1"

fun owner_ok :: "'a opc \<Rightarrow> 'a TaskQueue \<Rightarrow> bool" where
  "owner_ok OIdle q = True"
| "owner_ok (OPush x) q = (cell q (tq_tail q) = x)"
| "owner_ok (OPop1 t) q = (tq_tail q = t)"
| "owner_ok (OPop2 t h) q = (tq_tail q = t \<and> h \<le> tq_head q)"
| "owner_ok (OPop3 t h) q = (t = h \<and> tq_tail q = h + 1 \<and> h \<le> tq_head q)"

fun thief_ok :: "int \<Rightarrow> int \<Rightarrow> tpc \<Rightarrow> bool" where
  "thief_ok d e TIdle = True"
| "thief_ok d e (T1 h) = (h \<le> d)"
| "thief_ok d e (T2 h t) = (h \<le> d \<and> (h = d \<and> h < t \<longrightarrow> d < e))"
| "thief_ok d e (TGot h) = (h < d)"

fun owner_hand :: "'a TaskQueue \<Rightarrow> 'a opc \<Rightarrow> 'a multiset" where
  "owner_hand q (OPop2 t h) = (if t > h then {#cell q t#} else {#})"
| "owner_hand q c = {#}"

fun thief_hand :: "'a TaskQueue \<Rightarrow> tpc \<Rightarrow> 'a multiset" where
  "thief_hand q (TGot h) = {#cell q h#}"
| "thief_hand q c = {#}"

abbreviation tq_end :: "('i, 'a) tqs \<Rightarrow> int" where
  "tq_end s \<equiv> end_of (owner s) (tq_tail (queue s))"

definition waiting_tasks :: "'a TaskQueue \<Rightarrow> int \<Rightarrow> 'a multiset" where
  "waiting_tasks q e = image_mset (cell q) (mset [tq_head q..e - 1])"

definition in_hands :: "('i::finite, 'a) tqs \<Rightarrow> 'a multiset" where
  "in_hands s = owner_hand (queue s) (owner s) + (\<Sum>i\<in>UNIV. thief_hand (queue s) (thief s i))"

definition tqs_ok :: "('i::finite, 'a) tqs \<Rightarrow> bool" where
  "tqs_ok s \<longleftrightarrow> owner_ok (owner s) (queue s) \<and> tq_head (queue s) \<le> tq_end s
     \<and> (\<forall>i. thief_ok (tq_head (queue s)) (tq_end s) (thief s i))
     \<and> was_pushed s = was_taken s + waiting_tasks (queue s) (tq_end s) + in_hands s"

lemma msum_upd:
  fixes g :: "'i::finite \<Rightarrow> 'b"
  shows "(\<Sum>i\<in>UNIV. f ((g(a := v)) i)) + f (g a) = (\<Sum>i\<in>UNIV. f (g i)) + (f v :: 'a multiset)"
  by (simp add: sum.remove [of UNIV a] ac_simps)

lemma cell_upd [simp]: "cell (q\<lparr>tq_tail := a\<rparr>) = cell q" "cell (q\<lparr>tq_head := a\<rparr>) = cell q"
  by (auto simp: cell_def)

lemma thief_hand_upd [simp]: "thief_hand (q\<lparr>tq_tail := a\<rparr>) = thief_hand q" "thief_hand (q\<lparr>tq_head := a\<rparr>) = thief_hand q"
proof -
  show "thief_hand (q\<lparr>tq_tail := a\<rparr>) = thief_hand q"
    by (rule ext, rename_tac c, case_tac c) auto
  show "thief_hand (q\<lparr>tq_head := a\<rparr>) = thief_hand q"
    by (rule ext, rename_tac c, case_tac c) auto
qed

lemma waiting_snoc:
  assumes "tq_head q \<le> e"
  shows "waiting_tasks q (e + 1) = add_mset (cell q e) (waiting_tasks q e)"
  using assms by (simp add: waiting_tasks_def upto_rec2)

lemma waiting_Cons:
  assumes "tq_head q < e"
  shows "waiting_tasks q e = add_mset (cell q (tq_head q)) (waiting_tasks (q\<lparr>tq_head := tq_head q + 1\<rparr>) e)"
  using assms by (simp add: waiting_tasks_def upto_rec1 [of "tq_head q"])

lemma waiting_empty: "e \<le> tq_head q \<Longrightarrow> waiting_tasks q e = {#}"
  by (simp add: waiting_tasks_def)

lemma waiting_upd [simp]: "waiting_tasks (q\<lparr>tq_tail := a\<rparr>) e = waiting_tasks q e"
  by (simp add: waiting_tasks_def)

lemma thief_ok_mono: "thief_ok d e c \<Longrightarrow> e \<le> e' \<Longrightarrow> thief_ok d e' c"
  by (cases c) auto

lemma thief_ok_next: "thief_ok d e c \<Longrightarrow> thief_ok (d + 1) e' c"
  by (cases c) auto

lemma tail_le_end: "owner_ok c q \<Longrightarrow> tq_tail q \<le> end_of c (tq_tail q)"
  by (cases c) auto

section \<open>Every step keeps it\<close>

lemma tqs_okD:
  assumes "tqs_ok s"
  shows "owner_ok (owner s) (queue s)" "tq_head (queue s) \<le> tq_end s"
    "thief_ok (tq_head (queue s)) (tq_end s) (thief s i)"
    "was_pushed s = was_taken s + waiting_tasks (queue s) (tq_end s) + in_hands s"
  using assms by (auto simp: tqs_ok_def)

lemma push_ok:
  assumes ok: "tqs_ok s" and idle: "owner s = OIdle" and w: "push_write x (queue s) = (c, q)" and room: "room s"
  shows "tqs_ok (s\<lparr>owner := c, queue := q\<rparr>)"
proof -
  let ?q = "queue s"
  have q: "c = OPush x" "tq_head q = tq_head ?q" "tq_tail q = tq_tail ?q" "cell q (tq_tail ?q) = x"
    using w by (auto simp: push_write_def cell_def)
  have same: "cell q i = cell ?q i" if "i < tq_tail ?q" "tq_tail ?q - i < TaskQueueSize" for i
    using w mod_neq_near [OF that] by (auto simp: push_write_def cell_def)
  have "waiting_tasks q (tq_tail ?q) = waiting_tasks ?q (tq_tail ?q)"
    using room by (auto simp: waiting_tasks_def room_def q intro!: image_mset_cong same)
  moreover have "thief_hand q (thief s i) = thief_hand ?q (thief s i)" for i
    using room tqs_okD(2) [OF ok] tqs_okD(3) [OF ok, of i] idle by (cases "thief s i") (auto simp: room_def intro!: same)
  ultimately show ?thesis
    using tqs_okD [OF ok] ok by (simp add: tqs_ok_def q idle in_hands_def)
qed

lemma publish_ok:
  assumes ok: "tqs_ok s" and c: "owner s = OPush x" and w: "push_publish (queue s) = (c, q)"
  shows "tqs_ok (s\<lparr>owner := c, queue := q, was_pushed := add_mset x (was_pushed s)\<rparr>)"
proof -
  have q: "c = OIdle" "q = (queue s)\<lparr>tq_tail := tq_tail (queue s) + 1\<rparr>"
    using w by (auto simp: push_publish_def)
  have "thief_ok (tq_head (queue s)) (tq_tail (queue s) + 1) (thief s i)" for i
    using tqs_okD(3) [OF ok, of i] by (rule thief_ok_mono) (simp add: c)
  then show ?thesis
    using tqs_okD [OF ok] by (simp add: tqs_ok_def q c in_hands_def waiting_snoc)
qed

lemma pop_ok:
  assumes ok: "tqs_ok s" and c: "owner s = OIdle" and w: "pop_start (queue s) = (c, q)"
  shows "tqs_ok (s\<lparr>owner := c, queue := q\<rparr>)"
  using w tqs_okD [OF ok] by (auto simp: tqs_ok_def pop_start_def Let_def in_hands_def c)

lemma popping_ok:
  assumes ok: "tqs_ok s" and w: "pop_step (owner s) (queue s) = (c, q, r)"
  shows "tqs_ok (s\<lparr>owner := c, queue := q, was_taken := add_got r (was_taken s)\<rparr>)"
proof (cases "owner s")
  case (OPop1 t)
  have q: "c = OPop2 t (tq_head (queue s))" "q = queue s" "r = None"
    using w OPop1 by auto
  show ?thesis
  proof (cases "t > tq_head (queue s)")
    case True
    have "thief_ok (tq_head (queue s)) t (thief s i)" for i
      using tqs_okD(3) [OF ok, of i] True by (cases "thief s i") auto
    then show ?thesis
      using True tqs_okD [OF ok] OPop1 q waiting_snoc [of "queue s" t] by (simp add: tqs_ok_def in_hands_def)
  next
    case False
    then show ?thesis
      using tqs_okD [OF ok] OPop1 q by (simp add: tqs_ok_def in_hands_def)
  qed
next
  case (OPop2 t h)
  then consider "t > h" | "t < h" "h = tq_head (queue s)" "t + 1 = h" | "t = h"
    using tqs_okD(1,2) [OF ok] by fastforce
  then show ?thesis
    using w tqs_okD [OF ok] OPop2 by cases (auto simp: tqs_ok_def in_hands_def)
next
  case (OPop3 t h)
  let ?q = "queue s"
  have o: "t = h" "tq_tail ?q = h + 1" "h \<le> tq_head ?q" "tq_head ?q \<le> h + 1"
    using tqs_okD(1,2) [OF ok] OPop3 by auto
  show ?thesis
  proof (cases "tq_head ?q = h")
    case True
    have "thief_ok (h + 1) (h + 1) (thief s i)" for i
      using thief_ok_next [OF tqs_okD(3) [OF ok, of i]] True by simp
    then show ?thesis
      using w tqs_okD [OF ok] OPop3 True o waiting_Cons [of ?q "h + 1"]
      by (auto simp: tqs_ok_def in_hands_def TaskQueueCAS_def)
  next
    case False
    then show ?thesis
      using w tqs_okD [OF ok] OPop3 o by (auto simp: tqs_ok_def in_hands_def TaskQueueCAS_def)
  qed
qed (use w ok in \<open>auto simp: tqs_ok_def in_hands_def\<close>)

lemma thief_frame:
  assumes "tqs_ok s" and "thief_ok (tq_head (queue s)) (tq_end s) c"
    and "thief_hand (queue s) c + M = thief_hand (queue s) (thief s i)" and "T = was_taken s + M"
  shows "tqs_ok (s\<lparr>thief := (thief s)(i := c), was_taken := T\<rparr>)"
proof -
  have "(\<Sum>j\<in>UNIV. thief_hand (queue s) (((thief s)(i := c)) j)) + M = (\<Sum>j\<in>UNIV. thief_hand (queue s) (thief s j))"
    using msum_upd [of "thief_hand (queue s)" "thief s" i c] assms(3) [symmetric]
    by (simp add: add.assoc [symmetric])
  then show ?thesis
    using assms tqs_okD [OF assms(1)] by (simp add: tqs_ok_def in_hands_def ac_simps)
qed

lemma thief_quiet:
  assumes "tqs_ok s" and "thief_ok (tq_head (queue s)) (tq_end s) c"
    and "thief_hand (queue s) c = thief_hand (queue s) (thief s i)"
  shows "tqs_ok (s\<lparr>thief := (thief s)(i := c)\<rparr>)"
  using thief_frame [OF assms(1,2), of "{#}" i "was_taken s"] assms(3) by simp

lemma steal_won:
  assumes ok: "tqs_ok s" and t: "thief s i = T2 h t" and "h < t" and h: "tq_head (queue s) = h"
  shows "tqs_ok (s\<lparr>thief := (thief s)(i := TGot h), queue := (queue s)\<lparr>tq_head := h + 1\<rparr>\<rparr>)"
proof -
  let ?s = "s\<lparr>thief := (thief s)(i := TGot h), queue := (queue s)\<lparr>tq_head := h + 1\<rparr>\<rparr>"
  have less: "h < tq_end s"
    using tqs_okD(3) [OF ok, of i] assms by simp
  have "thief_ok (h + 1) (tq_end s) (thief s j)" for j
    using thief_ok_next [OF tqs_okD(3) [OF ok, of j]] h by simp
  moreover have "owner_ok (owner s) (queue ?s)"
    using tqs_okD(1) [OF ok] h by (cases "owner s") auto
  moreover have "owner_hand (queue ?s) (owner s) = owner_hand (queue s) (owner s)"
    by (cases "owner s") auto
  moreover have "(\<Sum>j\<in>UNIV. thief_hand (queue s) (((thief s)(i := TGot h)) j))
      = add_mset (cell (queue s) h) (\<Sum>j\<in>UNIV. thief_hand (queue s) (thief s j))"
    using msum_upd [of "thief_hand (queue s)" "thief s" i "TGot h"] t by simp
  ultimately show ?thesis
    using less tqs_okD(4) [OF ok] waiting_Cons [of "queue s" "tq_end s"] h by (simp add: tqs_ok_def in_hands_def)
qed

lemma steal_ok:
  assumes ok: "tqs_ok s" and w: "steal_step (thief s i) (queue s) = (c, q, r)"
  shows "tqs_ok (s\<lparr>thief := (thief s)(i := c), queue := q, was_taken := add_got r (was_taken s)\<rparr>)"
proof (cases "thief s i")
  case TIdle
  then show ?thesis
    using w thief_quiet [OF ok, of "T1 (tq_head (queue s))" i] by auto
next
  case (T1 h)
  then show ?thesis
    using w tqs_okD(3) [OF ok, of i] tail_le_end [OF tqs_okD(1) [OF ok]]
      thief_quiet [OF ok, of "T2 h (tq_tail (queue s))" i] by auto
next
  case (T2 h t)
  show ?thesis
  proof (cases "h < t \<and> tq_head (queue s) = h")
    case True
    then have "c = TGot h" "q = (queue s)\<lparr>tq_head := h + 1\<rparr>" "r = None"
      using w T2 by (auto simp: TaskQueueCAS_def)
    then show ?thesis
      using steal_won [OF ok T2] True by simp
  next
    case False
    then have "c = TIdle" "q = queue s" "r = None"
      using w T2 by (auto simp: TaskQueueCAS_def split: if_splits)
    then show ?thesis
      using T2 thief_quiet [OF ok, of TIdle i] by auto
  qed
next
  case (TGot h)
  then show ?thesis
    using w thief_frame [OF ok, of TIdle "{#cell (queue s) h#}" i] by auto
qed

lemma start_ok: "tqs_ok \<lparr>queue = TaskQueueCreate g, owner = OIdle, thief = (\<lambda>_. TIdle), was_pushed = {#}, was_taken = {#}\<rparr>"
  by (simp add: tqs_ok_def in_hands_def TaskQueueCreate_def waiting_tasks_def)

lemma reach_tqs_ok: "tq_reach s \<Longrightarrow> tqs_ok s"
proof (induction rule: tq_reach.induct)
  case (start g)
  show ?case by (rule start_ok)
next
  case (step s s')
  show ?case
    using step.hyps(2)
  proof cases
    case (push x c q)
    then show ?thesis
      using step.hyps(3) push_ok [OF step.IH] by (auto simp: push_write_def)
  next
    case (publish x c q)
    then show ?thesis
      using publish_ok [OF step.IH] by simp
  next
    case (pop c q)
    then show ?thesis
      using pop_ok [OF step.IH] by simp
  next
    case (popping c q r)
    then show ?thesis
      using popping_ok [OF step.IH] by simp
  next
    case (steal i c q r)
    then show ?thesis
      using steal_ok [OF step.IH] by simp
  qed
qed

section \<open>Tasks under stealing\<close>

text \<open>C37. While thieves steal from a queue that its owner pops from, and pushes to only when the array has room
  (which the code does not test), in every interleaving of their accesses to
  shared memory every task pushed has been returned by one call, is held by a call about to return it, or is in the
  queue, and is so exactly once; between calls the queue holds exactly the tasks that were not returned.\<close>

theorem stealing_accounts_every_task:
  fixes s :: "('i::finite, 'a) tqs"
  assumes "tq_reach s"
  shows "was_pushed s = was_taken s + waiting_tasks (queue s) (tq_end s) + in_hands s
    \<and> (owner s = OIdle \<and> (\<forall>i. thief s i = TIdle) \<longrightarrow> was_pushed s = was_taken s + mset (tasks (queue s)))"
  using tqs_okD(4) [OF reach_tqs_ok [OF assms]]
  by (auto simp: in_hands_def waiting_tasks_def tasks_def)

lemma reach_push:
  assumes "tq_reach s" and "owner s = OIdle" and "room s"
  shows "tq_reach (s\<lparr>owner := OPush x, queue := snd (push_write x (queue s))\<rparr>)"
  by (rule tq_reach.step [OF assms(1) tq_step.push]) (use assms in \<open>auto simp: push_write_def\<close>)

lemma reach_publish:
  assumes "tq_reach s" and "owner s = OPush x"
  shows "tq_reach (s\<lparr>owner := OIdle, queue := snd (push_publish (queue s)), was_pushed := add_mset x (was_pushed s)\<rparr>)"
  by (rule tq_reach.step [OF assms(1) tq_step.publish]) (use assms in \<open>auto simp: push_publish_def\<close>)

lemma reach_steal:
  assumes "tq_reach s" and "steal_step (thief s i) (queue s) = (c, q, r)"
  shows "tq_reach (s\<lparr>thief := (thief s)(i := c), queue := q, was_taken := add_got r (was_taken s)\<rparr>)"
  by (rule tq_reach.step [OF assms(1) tq_step.steal [OF assms(2)]]) auto

lemma reach_pop:
  assumes "tq_reach s" and "owner s = OIdle"
  shows "tq_reach (s\<lparr>owner := fst (pop_start (queue s)), queue := snd (pop_start (queue s))\<rparr>)"
  by (rule tq_reach.step [OF assms(1) tq_step.pop]) (use assms in \<open>auto simp: pop_start_def Let_def\<close>)

text \<open>A run with one thief: a task is pushed, the thief reads the head and the tail, the owner starts a pop, and the
  thief wins the task.\<close>

definition race :: "(unit, nat) tqs" where
  "race = \<lparr>queue = \<lparr>tq_head = 1, tq_tail = 0, tq_data = (\<lambda>_. 0)(0 := 7)\<rparr>, owner = OPop1 0, thief = (\<lambda>_. TGot 0),
     was_pushed = {#7#}, was_taken = {#}\<rparr>"

lemma race_reach: "tq_reach race"
proof -
  have z: "(\<lambda>_. c)(() := d) = (\<lambda>_. d)" for c d :: tpc
    by auto
  have "tq_reach \<lparr>queue = \<lparr>tq_head = 0, tq_tail = 0, tq_data = \<lambda>_. 0::nat\<rparr>, owner = OIdle, thief = (\<lambda>_::unit. TIdle),
      was_pushed = {#}, was_taken = {#}\<rparr>"
    using tq_reach.start [of "\<lambda>_. 0::nat"] by (simp add: TaskQueueCreate_def)
  from reach_push [OF this, of 7] have "tq_reach \<lparr>queue = \<lparr>tq_head = 0, tq_tail = 0, tq_data = (\<lambda>_. 0)(0 := 7::nat)\<rparr>, owner = OPush 7,
      thief = (\<lambda>_::unit. TIdle), was_pushed = {#}, was_taken = {#}\<rparr>"
    by (simp add: push_write_def room_def TaskQueueSize_def)
  from reach_publish [OF this, of 7] have "tq_reach \<lparr>queue = \<lparr>tq_head = 0, tq_tail = 1, tq_data = (\<lambda>_. 0)(0 := 7::nat)\<rparr>, owner = OIdle,
      thief = (\<lambda>_::unit. TIdle), was_pushed = {#7#}, was_taken = {#}\<rparr>"
    by (simp add: push_publish_def)
  from reach_steal [OF this, of "()"] have "tq_reach \<lparr>queue = \<lparr>tq_head = 0, tq_tail = 1, tq_data = (\<lambda>_. 0)(0 := 7::nat)\<rparr>, owner = OIdle,
      thief = (\<lambda>_::unit. T1 0), was_pushed = {#7#}, was_taken = {#}\<rparr>"
    by (simp add: z)
  from reach_steal [OF this, of "()"] have "tq_reach \<lparr>queue = \<lparr>tq_head = 0, tq_tail = 1, tq_data = (\<lambda>_. 0)(0 := 7::nat)\<rparr>, owner = OIdle,
      thief = (\<lambda>_::unit. T2 0 1), was_pushed = {#7#}, was_taken = {#}\<rparr>"
    by (simp add: z)
  from reach_pop [OF this] have "tq_reach \<lparr>queue = \<lparr>tq_head = 0, tq_tail = 0, tq_data = (\<lambda>_. 0)(0 := 7::nat)\<rparr>, owner = OPop1 0,
      thief = (\<lambda>_::unit. T2 0 1), was_pushed = {#7#}, was_taken = {#}\<rparr>"
    by (simp add: pop_start_def)
  from reach_steal [OF this, of "()"] show ?thesis
    by (simp add: z TaskQueueCAS_def race_def)
qed

theorem stealing_accounts_every_task_witness:
  "was_pushed race = was_taken race + waiting_tasks (queue race) (tq_end race) + in_hands race
    \<and> was_taken race = {#} \<and> in_hands race = {#7#}"
  using stealing_accounts_every_task [OF race_reach]
  by (simp add: race_def in_hands_def cell_def UNIV_unit)

text \<open>The queue does not count its free cells: with \<^verbatim>\<open>TaskQueueSize\<close> tasks waiting, the next push takes the cell
  of the oldest task, which is then never run.\<close>

lemma push_on_full_queue_loses_a_task:
  assumes "tq_tail q - tq_head q = TaskQueueSize"
  shows "fst (TaskQueueSteal (TaskQueuePush x q)) = Some x"
proof -
  have "tq_head q mod TaskQueueSize = tq_tail q mod TaskQueueSize"
    using assms by (metis mod_eq_dvd_iff dvd_refl)
  moreover have "tq_head q < tq_tail q + 1"
    using assms TaskQueueSize_pos by linarith
  ultimately show ?thesis
    by (simp add: TaskQueueSteal_def TaskQueuePush_def TaskQueueCAS_def cell_def Let_def)
qed

section \<open>The queues of a node\<close>

type_synonym 'a tqueues = "int \<Rightarrow> 'a TaskQueue"

definition TaskQueueHasWork :: "int \<Rightarrow> 'a tqueues \<Rightarrow> bool" where
  "TaskQueueHasWork me qs \<longleftrightarrow> tq_tail (qs me) > tq_head (qs me)"

definition TaskQueuePopLocal :: "int \<Rightarrow> 'a tqueues \<Rightarrow> 'a option \<times> 'a tqueues" where
  "TaskQueuePopLocal me qs = (let (r, q) = TaskQueuePop (qs me) in (r, qs(me := q)))"

definition TaskQueuePushLocal :: "int \<Rightarrow> 'a \<Rightarrow> 'a tqueues \<Rightarrow> 'a tqueues" where
  "TaskQueuePushLocal me x qs = qs(me := TaskQueuePush x (qs me))"

definition steal_victim :: "int \<Rightarrow> int \<Rightarrow> int \<Rightarrow> int" where
  "steal_victim n me r = (let k = r mod (n - 1) in if k \<ge> me then k + 1 else k)"

definition StealTask :: "int \<Rightarrow> int \<Rightarrow> int \<Rightarrow> 'a tqueues \<Rightarrow> 'a tqueues" where
  "StealTask n me r qs =
     (if n \<le> 1 then qs
      else let v = steal_victim n me r; (stolen, q) = TaskQueueSteal (qs v); qs1 = qs(v := q)
           in case stolen of None \<Rightarrow> qs1 | Some x \<Rightarrow> qs1(me := TaskQueuePush x (qs1 me)))"

definition TaskStealBeginIdle :: "int \<Rightarrow> int \<Rightarrow> int \<Rightarrow> 'a tqueues \<Rightarrow> 'a tqueues" where
  "TaskStealBeginIdle n me r qs = (if n > 1 then StealTask n me r qs else qs)"

definition CmiTaskQueueInit :: "int \<Rightarrow> 'f \<Rightarrow> 'a \<Rightarrow> ('f, 'a) ccd \<Rightarrow> ('f, 'a) ccd" where
  "CmiTaskQueueInit n f nul s =
     (if n > 1
      then snd (CcdCallOnConditionKeep (nat CcdPROCESSOR_STILL_IDLE) f nul
             (snd (CcdCallOnConditionKeep (nat CcdPROCESSOR_BEGIN_IDLE) f nul s)))
      else s)"

text \<open>The loop of \<^verbatim>\<open>ProcessLocalTasks\<close>: running a task may push further tasks, so it need not end.\<close>

partial_function (option) process_loop ::
  "('a \<Rightarrow> 'a tqueues \<Rightarrow> 'a tqueues) \<Rightarrow> int \<Rightarrow> 'a list \<Rightarrow> 'a tqueues \<Rightarrow> ('a list \<times> 'a tqueues) option" where
  "process_loop run me done_ts qs =
     (if \<not> TaskQueueHasWork me qs then Some (done_ts, qs)
      else case TaskQueuePopLocal me qs of
             (None, qs1) \<Rightarrow> Some (done_ts, qs1)
           | (Some x, qs1) \<Rightarrow> process_loop run me (done_ts @ [x]) (run x qs1))"

definition ProcessLocalTasks ::
  "('a \<Rightarrow> 'a tqueues \<Rightarrow> 'a tqueues) \<Rightarrow> int \<Rightarrow> int \<Rightarrow> int \<Rightarrow> 'a tqueues \<Rightarrow> ('a list \<times> 'a tqueues) option" where
  "ProcessLocalTasks run n me r qs =
     (case process_loop run me [] qs of
        None \<Rightarrow> None
      | Some (done_ts, qs1) \<Rightarrow> Some (done_ts, if done_ts = [] \<and> n > 1 then StealTask n me r qs1 else qs1))"

lemma steal_victim_range:
  assumes "1 < n" and "0 \<le> me" and "me < n"
  shows "0 \<le> steal_victim n me r \<and> steal_victim n me r < n \<and> steal_victim n me r \<noteq> me"
proof -
  define k where "k = r mod (n - 1)"
  have "0 \<le> k" "k < n - 1"
    using assms by (simp_all add: k_def pos_mod_bound)
  then show ?thesis
    using assms by (auto simp: steal_victim_def Let_def k_def [symmetric])
qed

lemma steal_victim_onto:
  assumes "0 \<le> v" and "v < n" and "v \<noteq> me" and "0 \<le> me" and "me < n"
  shows "\<exists>r\<ge>0. steal_victim n me r = v"
  using assms by (intro exI [of _ "if v > me then v - 1 else v"]) (auto simp: steal_victim_def Let_def)

text \<open>A steal moves the oldest task of the victim to the thief's queue.\<close>

lemma StealTask_moves:
  assumes ok: "\<forall>i. tq_ok (qs i)" and room: "tq_tail (qs me) - tq_head (qs me) < TaskQueueSize"
    and n: "1 < n" "0 \<le> me" "me < n" and v: "v = steal_victim n me r"
  shows "tasks (StealTask n me r qs v) = tl (tasks (qs v))"
    and "tasks (StealTask n me r qs me) = tasks (qs me) @ take 1 (tasks (qs v))"
    and "i \<noteq> v \<Longrightarrow> i \<noteq> me \<Longrightarrow> StealTask n me r qs i = qs i" and "tq_ok (StealTask n me r qs i)"
proof -
  have vm: "v \<noteq> me"
    using steal_victim_range [OF n] v by simp
  have v_ok: "tq_ok (qs v)" and me_ok: "tq_ok (qs me)"
    using ok by auto
  have e: "StealTask n me r qs = (if tasks (qs v) = [] then qs
     else qs(v := snd (TaskQueueSteal (qs v)), me := TaskQueuePush (hd (tasks (qs v))) (qs me)))"
    using n vm steal_tasks(1) [OF v_ok] by (auto simp: StealTask_def v [symmetric] Let_def split: prod.split if_splits)
  show "tasks (StealTask n me r qs v) = tl (tasks (qs v))"
    using e vm steal_tasks(2) [OF v_ok] by simp
  show "tasks (StealTask n me r qs me) = tasks (qs me) @ take 1 (tasks (qs v))"
    using e push_tasks(1) [OF me_ok room] by (cases "tasks (qs v)") auto
  show "i \<noteq> v \<Longrightarrow> i \<noteq> me \<Longrightarrow> StealTask n me r qs i = qs i"
    using e by simp
  show "tq_ok (StealTask n me r qs i)"
    using e ok steal_tasks(3) [OF v_ok] push_tasks(2) [OF me_ok room] by simp
qed

text \<open>Tasks that push nothing are run newest first, and the loop ends.\<close>

lemma process_loop_drains:
  assumes "tq_ok (qs me)" and "\<And>x qs. run x qs me = qs me"
  shows "\<exists>qs'. process_loop run me done_ts qs = Some (done_ts @ rev (tasks (qs me)), qs') \<and> tasks (qs' me) = []"
  using assms(1)
proof (induction "length (tasks (qs me))" arbitrary: done_ts qs)
  case 0
  then show ?case
    by (subst process_loop.simps) (simp add: TaskQueueHasWork_def tasks_def)
next
  case (Suc k)
  let ?q = "snd (TaskQueuePop (qs me))"
  have ne: "tasks (qs me) \<noteq> []" and work: "TaskQueueHasWork me qs"
    using Suc.hyps(2) by (auto simp: TaskQueueHasWork_def tasks_def)
  define x where "x = last (tasks (qs me))"
  have pop: "TaskQueuePopLocal me qs = (Some x, qs(me := ?q))"
    using pop_tasks(1) [OF Suc.prems] ne by (auto simp: TaskQueuePopLocal_def x_def split: prod.split)
  define qs1 where "qs1 = run x (qs(me := ?q))"
  have qs1: "tasks (qs1 me) = butlast (tasks (qs me))" "tq_ok (qs1 me)"
    using pop_tasks(2,3) [OF Suc.prems] assms(2) by (simp_all add: qs1_def)
  have r: "rev (tasks (qs me)) = x # rev (butlast (tasks (qs me)))"
    using ne by (metis append_butlast_last_id rev_eq_Cons_iff rev_rev_ident x_def)
  have "k = length (tasks (qs1 me))"
    using Suc.hyps(2) qs1 by simp
  from Suc.hyps(1) [of qs1 "done_ts @ [x]", OF this qs1(2)] show ?case
    by (subst process_loop.simps) (simp add: pop work qs1(1) r qs1_def [symmetric])
qed

end
