(* ===== verification/Msg_Manager.thy ===== *)
theory Msg_Manager
  imports Prelude
begin

text \<open>
  The table of tagged messages, \<^verbatim>\<open>src/msgmgr.cpp\<close>.  A table is a singly linked list with a pointer to its
  last link: the entries live in a heap, a link is the head of the table or the \<^verbatim>\<open>next\<close> field of an entry, and
  \<^verbatim>\<open>lasth\<close> names a link.  The operations follow the pointers; an access through a pointer to no entry is an
  error value.  The address of a new entry is an argument.  The table is shown to be a list of
  (tags, message) pairs, of which \<^verbatim>\<open>CmmFind\<close> takes the first that matches.
\<close>

section \<open>The table\<close>

definition CmmWildCard :: int where
  "CmmWildCard = - 1"

record 'm CmmEntryStruct =
  e_next :: "nat option"
  e_msg :: 'm
  e_tags :: "int list"

text \<open>A link: the field \<^verbatim>\<open>first\<close> of the table, or the field \<^verbatim>\<open>next\<close> of the entry at an address.\<close>

datatype link = First | Next nat

record 'm CmmTableStruct =
  t_first :: "nat option"
  t_lasth :: link
  t_heap :: "nat \<rightharpoonup> 'm CmmEntryStruct"

datatype cmm_err = NonEmptyTable | BadPointer | TagBound

fun get_link :: "link \<Rightarrow> 'm CmmTableStruct \<Rightarrow> cmm_err + nat option" where
  "get_link First t = Inr (t_first t)"
| "get_link (Next a) t = (case t_heap t a of None \<Rightarrow> Inl BadPointer | Some e \<Rightarrow> Inr (e_next e))"

fun set_link :: "link \<Rightarrow> nat option \<Rightarrow> 'm CmmTableStruct \<Rightarrow> cmm_err + 'm CmmTableStruct" where
  "set_link First p t = Inr (t\<lparr>t_first := p\<rparr>)"
| "set_link (Next a) p t =
     (case t_heap t a of None \<Rightarrow> Inl BadPointer | Some e \<Rightarrow> Inr (t\<lparr>t_heap := (t_heap t)(a \<mapsto> e\<lparr>e_next := p\<rparr>)\<rparr>))"

definition CmmNew :: "'m CmmTableStruct" where
  "CmmNew = \<lparr>t_first = None, t_lasth = First, t_heap = Map.empty\<rparr>"

definition CmmFree :: "'m CmmTableStruct option \<Rightarrow> cmm_err + unit" where
  "CmmFree t = (case t of None \<Rightarrow> Inr () | Some t \<Rightarrow> if t_first t \<noteq> None then Inl NonEmptyTable else Inr ())"

text \<open>The loop over the entries, bounded by the number of steps; \<^verbatim>\<open>CmmFreeAll\<close> frees each and leaves the table
  itself as it is.\<close>

fun free_all_loop :: "nat \<Rightarrow> nat option \<Rightarrow> (nat \<rightharpoonup> 'm CmmEntryStruct) \<Rightarrow> (cmm_err + (nat \<rightharpoonup> 'm CmmEntryStruct)) option" where
  "free_all_loop n None h = Some (Inr h)"
| "free_all_loop 0 (Some a) h = None"
| "free_all_loop (Suc n) (Some a) h =
     (case h a of None \<Rightarrow> Some (Inl BadPointer) | Some e \<Rightarrow> free_all_loop n (e_next e) (h(a := None)))"

definition CmmFreeAll :: "nat \<Rightarrow> 'm CmmTableStruct option \<Rightarrow> (cmm_err + 'm CmmTableStruct option) option" where
  "CmmFreeAll n t =
     (case t of
        None \<Rightarrow> Some (Inr None)
      | Some t \<Rightarrow> map_option (map_sum id (\<lambda>h. Some (t\<lparr>t_heap := h\<rparr>))) (free_all_loop n (t_first t) (t_heap t)))"

definition CmmPut :: "nat \<Rightarrow> int list \<Rightarrow> 'm \<Rightarrow> 'm CmmTableStruct \<Rightarrow> cmm_err + 'm CmmTableStruct" where
  "CmmPut a tags msg t =
     (let e = \<lparr>e_next = None, e_msg = msg, e_tags = tags\<rparr> in
      case set_link (t_lasth t) (Some a) (t\<lparr>t_heap := (t_heap t)(a \<mapsto> e)\<rparr>) of
        Inl x \<Rightarrow> Inl x
      | Inr t' \<Rightarrow> Inr (t'\<lparr>t_lasth := Next a\<rparr>))"

section \<open>Searching\<close>

text \<open>The loop of \<^verbatim>\<open>CmmTagsMatch\<close> reads \<^verbatim>\<open>ntags\<close> tags of both arrays; a read past the end of one is
  \<^verbatim>\<open>TagBound\<close>.\<close>

fun tags_loop :: "nat \<Rightarrow> int list \<Rightarrow> int list \<Rightarrow> cmm_err + bool" where
  "tags_loop 0 ts us = Inr True"
| "tags_loop (Suc n) (t # ts) (u # us) =
     (if t = u then tags_loop n ts us
      else if t = CmmWildCard then tags_loop n ts us
      else if u = CmmWildCard then tags_loop n ts us
      else Inr False)"
| "tags_loop (Suc n) ts us = Inl TagBound"

definition CmmTagsMatch :: "nat \<Rightarrow> int list \<Rightarrow> nat \<Rightarrow> int list \<Rightarrow> cmm_err + bool" where
  "CmmTagsMatch ntags1 tags1 ntags2 tags2 = (if ntags1 \<noteq> ntags2 then Inr False else tags_loop ntags1 tags1 tags2)"

text \<open>The result of a search that finds an entry: its message and its tags (what is copied to \<^verbatim>\<open>rtags\<close>).\<close>

fun find_loop :: "nat \<Rightarrow> int list \<Rightarrow> bool \<Rightarrow> link \<Rightarrow> 'm CmmTableStruct
    \<Rightarrow> (cmm_err + (int list \<times> 'm) option \<times> 'm CmmTableStruct) option" where
  "find_loop 0 tags del enth t = None"
| "find_loop (Suc n) tags del enth t =
     (case get_link enth t of
        Inl x \<Rightarrow> Some (Inl x)
      | Inr None \<Rightarrow> Some (Inr (None, t))
      | Inr (Some a) \<Rightarrow>
          (case t_heap t a of
             None \<Rightarrow> Some (Inl BadPointer)
           | Some ent \<Rightarrow>
               (case CmmTagsMatch (length tags) tags (length (e_tags ent)) (e_tags ent) of
                  Inl x \<Rightarrow> Some (Inl x)
                | Inr False \<Rightarrow> find_loop n tags del (Next a) t
                | Inr True \<Rightarrow>
                    let found = Some (e_tags ent, e_msg ent) in
                    if \<not> del then Some (Inr (found, t))
                    else (case set_link enth (e_next ent) t of
                            Inl x \<Rightarrow> Some (Inl x)
                          | Inr t1 \<Rightarrow>
                              let t2 = (if e_next ent = None then t1\<lparr>t_lasth := enth\<rparr> else t1)
                              in Some (Inr (found, t2\<lparr>t_heap := (t_heap t2)(a := None)\<rparr>))))))"

definition CmmFind :: "nat \<Rightarrow> int list \<Rightarrow> bool \<Rightarrow> 'm CmmTableStruct option
    \<Rightarrow> (cmm_err + (int list \<times> 'm) option \<times> 'm CmmTableStruct option) option" where
  "CmmFind n tags del t =
     (case t of
        None \<Rightarrow> Some (Inr (None, None))
      | Some t \<Rightarrow> map_option (map_sum id (\<lambda>(r, t'). (r, Some t'))) (find_loop n tags del First t))"

fun last_tag_loop :: "nat \<Rightarrow> int list \<Rightarrow> link \<Rightarrow> 'm CmmTableStruct \<Rightarrow> (cmm_err + int) option" where
  "last_tag_loop 0 tags enth t = None"
| "last_tag_loop (Suc n) tags enth t =
     (case get_link enth t of
        Inl x \<Rightarrow> Some (Inl x)
      | Inr None \<Rightarrow> Some (Inr (- 1))
      | Inr (Some a) \<Rightarrow>
          (case t_heap t a of
             None \<Rightarrow> Some (Inl BadPointer)
           | Some ent \<Rightarrow>
               (case CmmTagsMatch (length tags) tags (length tags) (e_tags ent) of
                  Inl x \<Rightarrow> Some (Inl x)
                | Inr False \<Rightarrow> last_tag_loop n tags (Next a) t
                | Inr True \<Rightarrow> Some (if e_tags ent = [] then Inl TagBound else Inr (last (e_tags ent))))))"

definition CmmGetLastTag :: "nat \<Rightarrow> int list \<Rightarrow> 'm CmmTableStruct \<Rightarrow> (cmm_err + int) option" where
  "CmmGetLastTag n tags t = last_tag_loop n tags First t"

fun entries_loop :: "nat \<Rightarrow> nat option \<Rightarrow> nat \<Rightarrow> 'm CmmTableStruct \<Rightarrow> (cmm_err + nat) option" where
  "entries_loop fuel None n t = Some (Inr n)"
| "entries_loop 0 (Some a) n t = None"
| "entries_loop (Suc fuel) (Some a) n t =
     (case t_heap t a of None \<Rightarrow> Some (Inl BadPointer) | Some e \<Rightarrow> entries_loop fuel (e_next e) (n + 1) t)"

definition CmmEntries :: "nat \<Rightarrow> 'm CmmTableStruct \<Rightarrow> (cmm_err + nat) option" where
  "CmmEntries fuel t = entries_loop fuel (t_first t) 0 t"

section \<open>The linked list\<close>

fun seg :: "(nat \<rightharpoonup> 'm CmmEntryStruct) \<Rightarrow> nat option \<Rightarrow> nat list \<Rightarrow> nat option \<Rightarrow> bool" where
  "seg h p [] q = (p = q)"
| "seg h p (a # as) q = (p = Some a \<and> (\<exists>e. h a = Some e \<and> seg h (e_next e) as q))"

definition link_after :: "nat list \<Rightarrow> link" where
  "link_after as = (if as = [] then First else Next (last as))"

lemma link_after_simps [simp]: "link_after [] = First" "link_after (as @ [a]) = Next a"
  by (simp_all add: link_after_def)

definition entry_of :: "'m CmmTableStruct \<Rightarrow> nat \<Rightarrow> int list \<times> 'm" where
  "entry_of t a = (e_tags (the (t_heap t a)), e_msg (the (t_heap t a)))"

definition table_ok :: "'m CmmTableStruct \<Rightarrow> nat list \<Rightarrow> bool" where
  "table_ok t as \<longleftrightarrow> seg (t_heap t) (t_first t) as None \<and> distinct as \<and> t_lasth t = link_after as \<and> dom (t_heap t) = set as"

text \<open>The table represents a list of tags and messages.\<close>

definition represents :: "'m CmmTableStruct \<Rightarrow> (int list \<times> 'm) list \<Rightarrow> bool" where
  "represents t xs \<longleftrightarrow> (\<exists>as. table_ok t as \<and> xs = map (entry_of t) as)"

lemma seg_append: "seg h p (as @ bs) r \<longleftrightarrow> (\<exists>q. seg h p as q \<and> seg h q bs r)"
  by (induction as arbitrary: p) auto

lemma seg_frame: "seg h p as q \<Longrightarrow> (\<And>a. a \<in> set as \<Longrightarrow> h' a = h a) \<Longrightarrow> seg h' p as q"
  by (induction as arbitrary: p) auto

lemma get_link_after: "seg (t_heap t) (t_first t) as q \<Longrightarrow> get_link (link_after as) t = Inr q"
  by (cases as rule: rev_cases) (auto simp: seg_append)

lemma set_link_after:
  assumes "seg (t_heap t) (t_first t) as q" and "distinct as"
  obtains t' where "set_link (link_after as) p t = Inr t'" and "seg (t_heap t') (t_first t') as p"
    and "\<And>a. a \<notin> set as \<Longrightarrow> t_heap t' a = t_heap t a" and "dom (t_heap t') = dom (t_heap t)" and "entry_of t' = entry_of t"
    and "t_lasth t' = t_lasth t"
proof (cases as rule: rev_cases)
  case Nil
  then show ?thesis
    by (intro that [of "t\<lparr>t_first := p\<rparr>"]) (auto simp: entry_of_def)
next
  case (snoc bs b)
  then obtain e where e: "seg (t_heap t) (t_first t) bs (Some b)" "t_heap t b = Some e"
    using assms(1) by (auto simp: seg_append)
  let ?t = "t\<lparr>t_heap := (t_heap t)(b \<mapsto> e\<lparr>e_next := p\<rparr>)\<rparr>"
  have "seg (t_heap ?t) (t_first ?t) bs (Some b)"
    using e(1) assms(2) snoc by (auto elim!: seg_frame)
  then show ?thesis
    using e snoc by (intro that [of ?t]) (auto simp: seg_append entry_of_def fun_eq_iff)
qed

lemma seg_None_iff: "seg h p as None \<Longrightarrow> p = None \<longleftrightarrow> as = []"
  by (cases as) auto

section \<open>The operations on the list\<close>

definition tag_fits :: "int \<Rightarrow> int \<Rightarrow> bool" where
  "tag_fits t u \<longleftrightarrow> t = u \<or> t = CmmWildCard \<or> u = CmmWildCard"

fun prefix_fits :: "int list \<Rightarrow> int list \<Rightarrow> bool" where
  "prefix_fits [] us = True"
| "prefix_fits (t # ts) (u # us) = (tag_fits t u \<and> prefix_fits ts us)"
| "prefix_fits (t # ts) [] = False"

fun first_match :: "int list \<Rightarrow> (int list \<times> 'm) list \<Rightarrow> (int list \<times> 'm) option" where
  "first_match ts [] = None"
| "first_match ts (x # xs) = (if list_all2 tag_fits ts (fst x) then Some x else first_match ts xs)"

fun drop_match :: "int list \<Rightarrow> (int list \<times> 'm) list \<Rightarrow> (int list \<times> 'm) list" where
  "drop_match ts [] = []"
| "drop_match ts (x # xs) = (if list_all2 tag_fits ts (fst x) then xs else x # drop_match ts xs)"

fun first_last_tag :: "int list \<Rightarrow> (int list \<times> 'm) list \<Rightarrow> int" where
  "first_last_tag ts [] = - 1"
| "first_last_tag ts (x # xs) = (if prefix_fits ts (fst x) then last (fst x) else first_last_tag ts xs)"

lemma tags_loop_prefix: "length ts \<le> length us \<Longrightarrow> tags_loop (length ts) ts us = Inr (prefix_fits ts us)"
  by (induction ts us rule: prefix_fits.induct) (auto simp: tag_fits_def)

lemma prefix_fits_all2: "length ts = length us \<Longrightarrow> prefix_fits ts us = list_all2 tag_fits ts us"
  by (induction ts us rule: prefix_fits.induct) auto

lemma CmmTagsMatch_eq: "CmmTagsMatch (length ts) ts (length us) us = Inr (list_all2 tag_fits ts us)"
  using tags_loop_prefix [of ts us] prefix_fits_all2 [of ts us]
  by (auto simp: CmmTagsMatch_def dest: list_all2_lengthD)

lemma new_represents: "represents CmmNew []"
  by (auto simp: represents_def table_ok_def CmmNew_def)

lemma put_represents:
  assumes "represents t xs" and "t_heap t a = None"
  obtains t' where "CmmPut a tags msg t = Inr t'" and "represents t' (xs @ [(tags, msg)])"
proof -
  obtain as where as: "table_ok t as" "xs = map (entry_of t) as"
    using assms(1) by (auto simp: represents_def)
  have a: "a \<notin> set as"
    using as(1) assms(2) by (auto simp: table_ok_def)
  let ?t = "t\<lparr>t_heap := (t_heap t)(a \<mapsto> \<lparr>e_next = None, e_msg = msg, e_tags = tags\<rparr>)\<rparr>"
  have "seg (t_heap ?t) (t_first ?t) as None" "distinct as"
    using as(1) a by (auto simp: table_ok_def elim!: seg_frame)
  then obtain t' where t': "set_link (link_after as) (Some a) ?t = Inr t'" "seg (t_heap t') (t_first t') as (Some a)"
      "\<And>b. b \<notin> set as \<Longrightarrow> t_heap t' b = t_heap ?t b" "dom (t_heap t') = dom (t_heap ?t)" "entry_of t' = entry_of ?t"
    by (rule set_link_after) blast
  have ok: "table_ok (t'\<lparr>t_lasth := Next a\<rparr>) (as @ [a])"
    using t'(2-4) as(1) a by (auto simp: table_ok_def seg_append)
  have xs: "map (entry_of (t'\<lparr>t_lasth := Next a\<rparr>)) (as @ [a]) = xs @ [(tags, msg)]"
    using t'(5) as(2) a by (auto simp: fun_eq_iff entry_of_def)
  have "CmmPut a tags msg t = Inr (t'\<lparr>t_lasth := Next a\<rparr>)"
    using t'(1) as(1) by (simp add: CmmPut_def table_ok_def)
  then show ?thesis
    by (rule that) (unfold represents_def, intro exI conjI, rule ok, rule xs [symmetric])
qed

lemma delete_ok:
  assumes "table_ok t (bs @ a # cs)" and "t_heap t a = Some ent"
    and "set_link (link_after bs) (e_next ent) t = Inr t1"
  shows "table_ok ((if e_next ent = None then t1\<lparr>t_lasth := link_after bs\<rparr> else t1)\<lparr>t_heap := (t_heap t1)(a := None)\<rparr>) (bs @ cs)"
    and "b \<in> set (bs @ cs) \<Longrightarrow> entry_of (t2\<lparr>t_heap := (t_heap t1)(a := None)\<rparr>) b = entry_of t b"
proof -
  obtain q where q: "seg (t_heap t) (t_first t) bs q" "seg (t_heap t) (e_next ent) cs None" "distinct bs"
    using assms(1,2) by (auto simp: table_ok_def seg_append)
  obtain t1' where t1: "set_link (link_after bs) (e_next ent) t = Inr t1'" "seg (t_heap t1') (t_first t1') bs (e_next ent)"
      "\<And>b. b \<notin> set bs \<Longrightarrow> t_heap t1' b = t_heap t b" "dom (t_heap t1') = dom (t_heap t)" "entry_of t1' = entry_of t"
      "t_lasth t1' = t_lasth t"
    by (rule set_link_after [OF q(1,3), of "e_next ent"]) blast
  have e: "t1' = t1"
    using t1(1) assms(3) by simp
  note t1 = t1 [unfolded e]
  let ?h = "(t_heap t1)(a := None)"
  have d: "a \<notin> set bs" "a \<notin> set cs" "set bs \<inter> set cs = {}" "distinct (bs @ cs)"
    using assms(1) by (auto simp: table_ok_def)
  have "seg ?h (t_first t1) bs (e_next ent)"
    using t1(2) d by (auto elim!: seg_frame)
  moreover have "seg ?h (e_next ent) cs None"
    using q(2)
  proof (rule seg_frame)
    fix b
    assume "b \<in> set cs"
    then show "?h b = t_heap t b"
      using d t1(3) [of b] by auto
  qed
  moreover have "dom ?h = set (bs @ cs)"
    using t1(4) assms(1) d by (auto simp: table_ok_def)
  moreover have "e_next ent = None \<longleftrightarrow> cs = []"
    using q(2) by (rule seg_None_iff)
  ultimately show "table_ok ((if e_next ent = None then t1\<lparr>t_lasth := link_after bs\<rparr> else t1)\<lparr>t_heap := ?h\<rparr>) (bs @ cs)"
    using assms(1) d t1(6) by (auto simp: table_ok_def seg_append link_after_def)
  show "b \<in> set (bs @ cs) \<Longrightarrow> entry_of (t2\<lparr>t_heap := ?h\<rparr>) b = entry_of t b"
    using t1(5) d by (auto simp: entry_of_def fun_eq_iff)
qed

lemma find_loop_finds:
  assumes "table_ok t (bs @ cs)" and "length cs < n"
  shows "\<exists>t'. find_loop n tags del (link_after bs) t = Some (Inr (first_match tags (map (entry_of t) cs), t'))
    \<and> represents t' (map (entry_of t) bs @ (if del then drop_match tags (map (entry_of t) cs) else map (entry_of t) cs))"
  using assms
proof (induction cs arbitrary: n bs)
  case Nil
  then obtain k where "n = Suc k"
    by (cases n) auto
  moreover have "get_link (link_after bs) t = Inr None"
    using Nil.prems(1) by (intro get_link_after) (simp add: table_ok_def)
  ultimately show ?case
    using Nil.prems(1) by (auto simp: represents_def)
next
  case (Cons a cs)
  obtain k where n: "n = Suc k" "length cs < k"
    using Cons.prems(2) by (cases n) auto
  obtain ent where a: "seg (t_heap t) (t_first t) bs (Some a)" "t_heap t a = Some ent" "distinct bs"
    using Cons.prems(1) by (auto simp: table_ok_def seg_append)
  have link: "get_link (link_after bs) t = Inr (Some a)"
    by (rule get_link_after [OF a(1)])
  have ent: "entry_of t a = (e_tags ent, e_msg ent)"
    by (simp add: entry_of_def a(2))
  show ?case
  proof (cases "list_all2 tag_fits tags (e_tags ent)")
    case False
    have "table_ok t ((bs @ [a]) @ cs)"
      using Cons.prems(1) by simp
    from Cons.IH [OF this n(2)] show ?thesis
      using False by (cases del) (simp_all add: n link a(2) CmmTagsMatch_eq ent)
  next
    case True
    obtain t1 where t1: "set_link (link_after bs) (e_next ent) t = Inr t1"
      by (rule set_link_after [OF a(1,3), of "e_next ent"])
    have d: "table_ok ((if e_next ent = None then t1\<lparr>t_lasth := link_after bs\<rparr> else t1)\<lparr>t_heap := (t_heap t1)(a := None)\<rparr>) (bs @ cs)"
      by (rule delete_ok(1) [OF Cons.prems(1) a(2) t1])
    have "represents ((if e_next ent = None then t1\<lparr>t_lasth := link_after bs\<rparr> else t1)\<lparr>t_heap := (t_heap t1)(a := None)\<rparr>)
        (map (entry_of t) (bs @ cs))"
      unfolding represents_def
      by (intro exI conjI, rule d) (auto intro!: delete_ok(2) [OF Cons.prems(1) a(2) t1, symmetric])
    moreover have "represents t (map (entry_of t) (bs @ a # cs))"
      using Cons.prems(1) unfolding represents_def by blast
    ultimately show ?thesis
      using True t1 by (cases "e_next ent") (simp_all add: n link a(2) CmmTagsMatch_eq ent)
  qed
qed

lemma entries_loop_length:
  assumes "seg (t_heap t) p as None" and "length as \<le> fuel"
  shows "entries_loop fuel p n t = Some (Inr (n + length as))"
  using assms
proof (induction as arbitrary: p n fuel)
  case Nil
  then show ?case by simp
next
  case (Cons a as)
  then obtain k where "fuel = Suc k"
    by (cases fuel) auto
  then show ?case
    using Cons by auto
qed

lemma free_all_loop_empties:
  assumes "seg h p as None" and "distinct as" and "length as \<le> fuel"
  shows "free_all_loop fuel p h = Some (Inr (h |` (- set as)))"
  using assms
proof (induction as arbitrary: p h fuel)
  case Nil
  then show ?case by simp
next
  case (Cons a as)
  then obtain k e where k: "fuel = Suc k" "h a = Some e" "p = Some a" "seg h (e_next e) as None"
    by (cases fuel) auto
  have "seg (h(a := None)) (e_next e) as None"
    using k(4) Cons.prems(2) by (auto elim!: seg_frame)
  then have "free_all_loop k (e_next e) (h(a := None)) = Some (Inr (h(a := None) |` (- set as)))"
    by (rule Cons.IH) (use Cons.prems k in simp_all)
  moreover have "h(a := None) |` (- set as) = h |` (- set (a # as))"
    by (auto simp: restrict_map_def)
  ultimately show ?case
    by (simp only: k free_all_loop.simps option.case)
qed

lemma last_tag_loop_first:
  assumes "table_ok t (bs @ cs)" and "length cs < n" and "\<forall>a\<in>set cs. length tags \<le> length (fst (entry_of t a)) \<and> fst (entry_of t a) \<noteq> []"
  shows "last_tag_loop n tags (link_after bs) t = Some (Inr (first_last_tag tags (map (entry_of t) cs)))"
  using assms
proof (induction cs arbitrary: n bs)
  case Nil
  moreover from Nil have "get_link (link_after bs) t = Inr None"
    by (intro get_link_after) (simp add: table_ok_def)
  ultimately show ?case
    by (cases n) auto
next
  case (Cons a cs)
  obtain k where n: "n = Suc k" "length cs < k"
    using Cons.prems(2) by (cases n) auto
  obtain ent where a: "seg (t_heap t) (t_first t) bs (Some a)" "t_heap t a = Some ent"
    using Cons.prems(1) by (auto simp: table_ok_def seg_append)
  have ent: "entry_of t a = (e_tags ent, e_msg ent)" "length tags \<le> length (e_tags ent)" "e_tags ent \<noteq> []"
    using Cons.prems(3) by (auto simp: entry_of_def a(2))
  have "table_ok t ((bs @ [a]) @ cs)"
    using Cons.prems(1) by simp
  from Cons.IH [OF this n(2)] show ?case
    using Cons.prems(3) ent
    by (simp add: n get_link_after [OF a(1)] a(2) CmmTagsMatch_def tags_loop_prefix split: bool.split)
qed

section \<open>The table is a list\<close>

text \<open>C38. The linked table behaves as a list of tagged messages: a put appends; a search returns the first entry
  whose tags match, a wildcard on either side matching anything, and removes that entry and no other if asked to; the number of
  entries is the length; only an empty table can be freed; freeing all entries frees each once.  Every loop
  ends within one step more than there are entries, and no operation follows a bad pointer.\<close>

theorem tagged_table_refines_list:
  assumes "represents t xs"
  shows "(\<forall>a tags msg. t_heap t a = None \<longrightarrow> (\<exists>t'. CmmPut a tags msg t = Inr t' \<and> represents t' (xs @ [(tags, msg)])))
    \<and> (\<forall>tags del n. length xs < n \<longrightarrow>
         (\<exists>t'. CmmFind n tags del (Some t) = Some (Inr (first_match tags xs, Some t'))
            \<and> represents t' (if del then drop_match tags xs else xs)))
    \<and> (\<forall>n. length xs \<le> n \<longrightarrow> CmmEntries n t = Some (Inr (length xs)))
    \<and> CmmFree (Some t) = (if xs = [] then Inr () else Inl NonEmptyTable)
    \<and> (\<forall>n. length xs \<le> n \<longrightarrow> CmmFreeAll n (Some t) = Some (Inr (Some (t\<lparr>t_heap := Map.empty\<rparr>))))"
proof (intro conjI allI impI)
  obtain as where as: "table_ok t as" "xs = map (entry_of t) as"
    using assms by (auto simp: represents_def)
  show "\<exists>t'. CmmPut a tags msg t = Inr t' \<and> represents t' (xs @ [(tags, msg)])" if "t_heap t a = None" for a tags msg
    using put_represents [OF assms that] by metis
  show "\<exists>t'. CmmFind n tags del (Some t) = Some (Inr (first_match tags xs, Some t'))
      \<and> represents t' (if del then drop_match tags xs else xs)" if "length xs < n" for n tags del
    using find_loop_finds [of t "[]" as n tags del] as that by (auto simp: CmmFind_def)
  show "CmmEntries n t = Some (Inr (length xs))" if "length xs \<le> n" for n
    using entries_loop_length [of t "t_first t" as n 0] as that by (simp add: CmmEntries_def table_ok_def)
  show "CmmFree (Some t) = (if xs = [] then Inr () else Inl NonEmptyTable)"
    using as seg_None_iff [of "t_heap t" "t_first t" as] by (auto simp: CmmFree_def table_ok_def)
  have "t_heap t |` (- set as) = Map.empty"
    using as(1) by (auto simp: table_ok_def restrict_map_def fun_eq_iff)
  then show "CmmFreeAll n (Some t) = Some (Inr (Some (t\<lparr>t_heap := Map.empty\<rparr>)))" if "length xs \<le> n" for n
    using free_all_loop_empties [of "t_heap t" "t_first t" as n] as that by (simp add: CmmFreeAll_def table_ok_def)
qed

definition sample_table :: "nat CmmTableStruct" where
  "sample_table = \<lparr>t_first = Some 8, t_lasth = Next 3,
     t_heap = [8 \<mapsto> \<lparr>e_next = Some 3, e_msg = 50, e_tags = [1, 2]\<rparr>, 3 \<mapsto> \<lparr>e_next = None, e_msg = 60, e_tags = [1, 4]\<rparr>]\<rparr>"

theorem tagged_table_refines_list_witness:
  "represents sample_table [([1, 2], 50), ([1, 4], 60)]
    \<and> (\<exists>t'. CmmFind 3 [CmmWildCard, 4] True (Some sample_table) = Some (Inr (Some ([1, 4], 60), Some t'))
         \<and> represents t' [([1, 2], 50)])"
proof -
  have r: "represents sample_table [([1, 2], 50), ([1, 4], 60)]"
    unfolding represents_def
    by (intro exI [of _ "[8, 3]"]) (auto simp: table_ok_def sample_table_def entry_of_def link_after_def)
  from tagged_table_refines_list [OF this, THEN conjunct2, THEN conjunct1, rule_format, of 3 "[CmmWildCard, 4]" True]
  show ?thesis
    using r by (simp add: tag_fits_def CmmWildCard_def)
qed

text \<open>\<^verbatim>\<open>CmmGetLastTag\<close> is the last tag of the first entry whose leading tags match, provided that every entry has
  as many tags as are asked for; it does not look at their number, and reads past the tags of a shorter
  entry.\<close>

lemma CmmGetLastTag_first:
  assumes "represents t xs" and "length xs < n" and "\<forall>x\<in>set xs. length tags \<le> length (fst x) \<and> fst x \<noteq> []"
  shows "CmmGetLastTag n tags t = Some (Inr (first_last_tag tags xs))"
proof -
  obtain as where "table_ok t as" "xs = map (entry_of t) as"
    using assms(1) by (auto simp: represents_def)
  then show ?thesis
    using last_tag_loop_first [of t "[]" as n tags] assms(2,3) by (simp add: CmmGetLastTag_def)
qed

lemma CmmGetLastTag_reads_past:
  "CmmPut 8 [1] m CmmNew = Inr t \<Longrightarrow> CmmGetLastTag 2 [1, 2, 3] t = Some (Inl TagBound)"
  by (auto simp: CmmPut_def CmmNew_def CmmGetLastTag_def numeral_2_eq_2 numeral_3_eq_3 CmmTagsMatch_def)

text \<open>\<^verbatim>\<open>CmmFreeAll\<close> leaves the head of the table pointing to a freed entry, so that a table that was not empty
  can afterwards neither be searched nor freed.\<close>

lemma CmmFreeAll_dangles:
  assumes "represents t xs" and "xs \<noteq> []"
  shows "CmmFree (Some (t\<lparr>t_heap := Map.empty\<rparr>)) = Inl NonEmptyTable"
    "CmmFind (Suc n) tags del (Some (t\<lparr>t_heap := Map.empty\<rparr>)) = Some (Inl BadPointer)"
proof -
  obtain a where "t_first t = Some a"
    using assms by (auto simp: represents_def table_ok_def neq_Nil_conv)
  then show "CmmFree (Some (t\<lparr>t_heap := Map.empty\<rparr>)) = Inl NonEmptyTable"
    "CmmFind (Suc n) tags del (Some (t\<lparr>t_heap := Map.empty\<rparr>)) = Some (Inl BadPointer)"
    by (auto simp: CmmFree_def CmmFind_def)
qed

end
