(* ===== verification/Messaging.thy ===== *)
theory Messaging
  imports Machine
begin

text \<open>
  Messages, handlers and point-to-point sends of \<^verbatim>\<open>src/convcore.cpp\<close>: the header fields and their
  accessors, the handler table of a PE, the sends to PEs and to nodes, within and across partitions, the two receive
  paths, and messages that are sent when a counter runs out.  A send returns the queue or the
  transport the message is put on.  Whether a persistent channel or the shared-memory pool takes a message
  are parameters; the pool itself is in \<^verbatim>\<open>src/cmishmem.cpp\<close>.
\<close>

section \<open>Message headers\<close>

text \<open>Handler indices are 16-bit signed fields, the destination is a 32-bit unsigned one.  The two fields that only the
  collectives use are in the message of \<^verbatim>\<open>Broadcast\<close>.\<close>

record 'p cmsg =
  m_handler :: "16 word"
  m_info :: "16 word"
  m_destPE :: u32
  m_size :: int
  m_xhandler :: "16 word"
  m_nokeep :: bool
  m_zcType :: nat
  m_body :: 'p

datatype cmi_error =
    DestOutOfRange int
  | PartitionOutOfRange int
  | RankOutOfRange int
  | NoSuchHandler int
  | NotCallable int
  | InfoOutOfRange int
  | NoMemory
  | Translation init_error
  | NullCounter
  | ZeroCount

definition CmiMessageDestPENode :: u32 where
  "CmiMessageDestPENode = - 1"

definition nodeDatagram :: u32 where
  "nodeDatagram = 65535"

definition CmiSetHandler :: "'p cmsg \<Rightarrow> int \<Rightarrow> 'p cmsg" where
  "CmiSetHandler m h = m\<lparr>m_handler := word_of_int h\<rparr>"

definition CmiGetHandler :: "'p cmsg \<Rightarrow> int" where
  "CmiGetHandler m = sint (m_handler m)"

definition CmiSetXHandler :: "'p cmsg \<Rightarrow> int \<Rightarrow> 'p cmsg" where
  "CmiSetXHandler m h = m\<lparr>m_xhandler := word_of_int h\<rparr>"

definition CmiGetXHandler :: "'p cmsg \<Rightarrow> int" where
  "CmiGetXHandler m = sint (m_xhandler m)"

definition CmiSetInfo :: "'p cmsg \<Rightarrow> int \<Rightarrow> cmi_error + 'p cmsg" where
  "CmiSetInfo m f = (if 0 \<le> f \<and> f \<le> 32767 then Inr (m\<lparr>m_info := word_of_int f\<rparr>) else Inl (InfoOutOfRange f))"

definition CmiGetInfo :: "'p cmsg \<Rightarrow> int" where
  "CmiGetInfo m = sint (m_info m)"

definition CmiSetMsgNokeep :: "'p cmsg \<Rightarrow> int \<Rightarrow> 'p cmsg" where
  "CmiSetMsgNokeep m k = m\<lparr>m_nokeep := (k \<noteq> 0)\<rparr>"

definition CmiMsgIsNokeep :: "'p cmsg \<Rightarrow> int" where
  "CmiMsgIsNokeep m = (if m_nokeep m then 1 else 0)"

definition CmiInitMsgHeader :: "'p cmsg \<Rightarrow> int \<Rightarrow> 'p cmsg" where
  "CmiInitMsgHeader m sz =
     (if sz < CmiMsgHeaderSizeBytes then m else CmiSetMsgNokeep (m\<lparr>m_size := sz, m_zcType := 0\<rparr>) 0)"

lemma sint_of_int_16: "- 32768 \<le> h \<Longrightarrow> h \<le> 32767 \<Longrightarrow> sint (word_of_int h :: 16 word) = h"
  by (simp add: sint_sbintrunc' signed_take_bit_int_eq_self)

lemma header_round_trips [simp]:
  "- 32768 \<le> h \<Longrightarrow> h \<le> 32767 \<Longrightarrow> CmiGetHandler (CmiSetHandler m h) = h"
  "- 32768 \<le> h \<Longrightarrow> h \<le> 32767 \<Longrightarrow> CmiGetXHandler (CmiSetXHandler m h) = h"
  "CmiSetInfo m f = Inr m' \<Longrightarrow> CmiGetInfo m' = f"
  by (auto simp: CmiGetHandler_def CmiSetHandler_def CmiGetXHandler_def CmiSetXHandler_def CmiSetInfo_def CmiGetInfo_def
      sint_of_int_16 split: if_splits)

section \<open>The handler table\<close>

text \<open>An entry has one function, read as a plain or an extended handler according to the user pointer.  A
  table grows with null entries when a handler is given a number past its end.\<close>

record ('f, 'u) CmiHandlerInfo =
  hdlr :: "'f option"
  userPtr :: "'u option"

definition null_entry :: "('f, 'u) CmiHandlerInfo" where
  "null_entry = \<lparr>hdlr = None, userPtr = None\<rparr>"

definition CmiRegisterHandler :: "'f \<Rightarrow> ('f, 'u) CmiHandlerInfo list \<Rightarrow> int \<times> ('f, 'u) CmiHandlerInfo list" where
  "CmiRegisterHandler h t = (let t' = t @ [\<lparr>hdlr = Some h, userPtr = None\<rparr>] in (int (length t') - 1, t'))"

definition CmiRegisterHandlerEx ::
  "'f \<Rightarrow> 'u option \<Rightarrow> ('f, 'u) CmiHandlerInfo list \<Rightarrow> int \<times> ('f, 'u) CmiHandlerInfo list" where
  "CmiRegisterHandlerEx h u t = (let t' = t @ [\<lparr>hdlr = Some h, userPtr = u\<rparr>] in (int (length t') - 1, t'))"

definition handler_at :: "('f, 'u) CmiHandlerInfo list \<Rightarrow> int \<Rightarrow> cmi_error + ('f, 'u) CmiHandlerInfo" where
  "handler_at t n = (if 0 \<le> n \<and> n < int (length t) then Inr (t ! nat n) else Inl (NoSuchHandler n))"

definition put_entry ::
  "int \<Rightarrow> ('f, 'u) CmiHandlerInfo \<Rightarrow> ('f, 'u) CmiHandlerInfo list \<Rightarrow> cmi_error + ('f, 'u) CmiHandlerInfo list" where
  "put_entry n e t =
     (if n < 0 then Inl NoMemory
      else let t' = (if n \<ge> int (length t) then t @ replicate (nat n + 1 - length t) null_entry else t)
           in Inr (t'[nat n := e]))"

definition CmiNumberHandler :: "int \<Rightarrow> 'f \<Rightarrow> ('f, 'u) CmiHandlerInfo list \<Rightarrow> cmi_error + ('f, 'u) CmiHandlerInfo list" where
  "CmiNumberHandler n h t = put_entry n \<lparr>hdlr = Some h, userPtr = None\<rparr> t"

definition CmiNumberHandlerEx ::
  "int \<Rightarrow> 'f \<Rightarrow> 'u option \<Rightarrow> ('f, 'u) CmiHandlerInfo list \<Rightarrow> cmi_error + ('f, 'u) CmiHandlerInfo list" where
  "CmiNumberHandlerEx n h u t = put_entry n \<lparr>hdlr = Some h, userPtr = u\<rparr> t"

definition CmiHandlerToFunction :: "('f, 'u) CmiHandlerInfo list \<Rightarrow> int \<Rightarrow> cmi_error + 'f option" where
  "CmiHandlerToFunction t n = bindE (handler_at t n) (\<lambda>e. Inr (hdlr e))"

text \<open>A call: the function, and the user pointer an extended handler is given.\<close>

definition CmiCallHandler :: "('f, 'u) CmiHandlerInfo list \<Rightarrow> int \<Rightarrow> cmi_error + 'f option \<times> 'u option" where
  "CmiCallHandler t n =
     bindE (handler_at t n) (\<lambda>e. case userPtr e of Some u \<Rightarrow> Inr (hdlr e, Some u) | None \<Rightarrow> Inr (hdlr e, None))"

definition CmiHandleMessage :: "('f, 'u) CmiHandlerInfo list \<Rightarrow> 'p cmsg \<Rightarrow> cmi_error + 'f option \<times> 'u option" where
  "CmiHandleMessage t m = CmiCallHandler t (CmiGetHandler m)"

definition CmiGetHandlerFunction :: "('f, 'u) CmiHandlerInfo list \<Rightarrow> 'p cmsg \<Rightarrow> cmi_error + 'f option" where
  "CmiGetHandlerFunction t m = CmiHandlerToFunction t (CmiGetHandler m)"

section \<open>Queues and transports\<close>

text \<open>Where a send puts a message: the caller's own priority queue (at the back of priority 0), the thread queue of a
  rank of this process, the node queue, a persistent channel, the pool of a process on this host, or the network
  to a process by its global number.\<close>

datatype 'm route =
    SchedQueue int 'm
  | PeQueue int 'm
  | NodeQueue 'm
  | Channel int 'm
  | Pool int 'm
  | Network int 'm

text \<open>What a send depends on: the numbering, the caller's rank (-1 for a thread that is not a PE), and which messages the
  pool and the installed persistent handles take.\<close>

record send_env =
  se_machine :: machine
  se_myrank :: int
  se_ipc :: "int \<Rightarrow> int \<Rightarrow> bool"
  se_persistent :: "int \<Rightarrow> int \<Rightarrow> bool"

definition CmiPushPE :: "machine \<Rightarrow> int \<Rightarrow> 'm \<Rightarrow> cmi_error + 'm route" where
  "CmiPushPE m rank msg = (if 0 \<le> rank \<and> rank < Cmi_mynodesize m then Inr (PeQueue rank msg) else Inl (RankOutOfRange rank))"

definition CmiPushNode :: "'m \<Rightarrow> 'm route" where
  "CmiPushNode msg = NodeQueue msg"

definition to_global :: "machine \<Rightarrow> int \<Rightarrow> cmi_error + int" where
  "to_global m node = (case CmiNodeToGlobal m node of Inl e \<Rightarrow> Inl (Translation e) | Inr g \<Rightarrow> Inr g)"

definition CmiSyncSendAndFreeNoPersistent :: "send_env \<Rightarrow> int \<Rightarrow> int \<Rightarrow> 'p cmsg \<Rightarrow> cmi_error + 'p cmsg route" where
  "CmiSyncSendAndFreeNoPersistent env destPE sz msg =
     (let m = se_machine env; msg = msg\<lparr>m_destPE := word_of_int destPE\<rparr>; destNode = CmiNodeOf m destPE in
      if destNode \<ge> Cmi_numnodes m \<or> destNode < 0 then Inl (DestOutOfRange destPE)
      else if Cmi_mynode m = destNode then
        if CmiRankOf m destPE = se_myrank env then Inr (SchedQueue (se_myrank env) msg)
        else CmiPushPE m (CmiRankOf m destPE) msg
      else if se_ipc env destNode sz then Inr (Pool destNode (msg\<lparr>m_destPE := word_of_int (CmiRankOf m destPE)\<rparr>))
      else bindE (to_global m destNode) (\<lambda>g. Inr (Network g msg)))"

definition CmiSyncSendAndFree :: "send_env \<Rightarrow> int \<Rightarrow> int \<Rightarrow> 'p cmsg \<Rightarrow> cmi_error + 'p cmsg route" where
  "CmiSyncSendAndFree env destPE sz msg =
     (if se_persistent env destPE sz then Inr (Channel destPE msg) else CmiSyncSendAndFreeNoPersistent env destPE sz msg)"

text \<open>The copying sends allocate a block of the given size first, which fails for a size that is not positive.\<close>

definition CmiSyncSend :: "send_env \<Rightarrow> int \<Rightarrow> int \<Rightarrow> 'p cmsg \<Rightarrow> cmi_error + 'p cmsg route" where
  "CmiSyncSend env destPE sz msg = (if sz \<le> 0 then Inl NoMemory else CmiSyncSendAndFree env destPE sz msg)"

definition CmiInterSyncSendAndFree :: "send_env \<Rightarrow> int \<Rightarrow> int \<Rightarrow> int \<Rightarrow> 'p cmsg \<Rightarrow> cmi_error + 'p cmsg route" where
  "CmiInterSyncSendAndFree env destPE part sz msg =
     (let m = se_machine env; i = partitionInfo m; msg = msg\<lparr>m_destPE := word_of_int destPE\<rparr> in
      if part < 0 \<or> part \<ge> numPartitions i then Inl (PartitionOutOfRange part)
      else if myPartition i = part then CmiSyncSendAndFree env destPE sz msg
      else case pe_lToGTranslate m destPE part of
             Inl e \<Rightarrow> Inl (Translation e)
           | Inr g \<Rightarrow> Inr (Network (CmiNodeOf m g) (msg\<lparr>m_destPE := word_of_int g\<rparr>)))"

definition CmiInterSyncSend :: "send_env \<Rightarrow> int \<Rightarrow> int \<Rightarrow> int \<Rightarrow> 'p cmsg \<Rightarrow> cmi_error + 'p cmsg route" where
  "CmiInterSyncSend env destPE part sz msg =
     (if sz \<le> 0 then Inl NoMemory else CmiInterSyncSendAndFree env destPE part sz msg)"

text \<open>The node sends take the destination as an unsigned number.\<close>

definition CmiSyncNodeSendAndFree :: "send_env \<Rightarrow> u32 \<Rightarrow> int \<Rightarrow> 'p cmsg \<Rightarrow> cmi_error + 'p cmsg route" where
  "CmiSyncNodeSendAndFree env destNode sz msg =
     (let m = se_machine env; msg = msg\<lparr>m_destPE := CmiMessageDestPENode\<rparr>; node = sint destNode in
      if destNode \<ge> word_of_int (Cmi_numnodes m) then Inl (DestOutOfRange node)
      else if word_of_int (Cmi_mynode m) = destNode then Inr (NodeQueue msg)
      else if se_ipc env node sz then Inr (Pool node (msg\<lparr>m_destPE := nodeDatagram\<rparr>))
      else bindE (to_global m node) (\<lambda>g. Inr (Network g msg)))"

definition CmiSyncNodeSend :: "send_env \<Rightarrow> u32 \<Rightarrow> int \<Rightarrow> 'p cmsg \<Rightarrow> cmi_error + 'p cmsg route" where
  "CmiSyncNodeSend env destNode sz msg = (if sz \<le> 0 then Inl NoMemory else CmiSyncNodeSendAndFree env destNode sz msg)"

definition CmiInterSyncNodeSendAndFree :: "send_env \<Rightarrow> int \<Rightarrow> int \<Rightarrow> int \<Rightarrow> 'p cmsg \<Rightarrow> cmi_error + 'p cmsg route" where
  "CmiInterSyncNodeSendAndFree env destNode part sz msg =
     (let m = se_machine env; i = partitionInfo m in
      if part < 0 \<or> part \<ge> numPartitions i then Inl (PartitionOutOfRange part)
      else if myPartition i = part then CmiSyncNodeSendAndFree env (word_of_int destNode) sz msg
      else case node_lToGTranslate m destNode part of
             Inl e \<Rightarrow> Inl (Translation e)
           | Inr g \<Rightarrow> Inr (Network g (msg\<lparr>m_destPE := CmiMessageDestPENode\<rparr>)))"

definition CmiInterSyncNodeSend :: "send_env \<Rightarrow> int \<Rightarrow> int \<Rightarrow> int \<Rightarrow> 'p cmsg \<Rightarrow> cmi_error + 'p cmsg route" where
  "CmiInterSyncNodeSend env destNode part sz msg =
     (if sz \<le> 0 then Inl NoMemory else CmiInterSyncNodeSendAndFree env destNode part sz msg)"

section \<open>The receive paths\<close>

definition CommRemoteHandler :: "machine \<Rightarrow> 'p cmsg \<Rightarrow> cmi_error + 'p cmsg route" where
  "CommRemoteHandler m msg =
     (if m_destPE msg = CmiMessageDestPENode then Inr (NodeQueue msg)
      else CmiPushPE m (CmiRankOf m (sint (m_destPE msg))) msg)"

definition CmiDeliverIpcBlockMsg :: "machine \<Rightarrow> 'p cmsg \<Rightarrow> cmi_error + 'p cmsg route" where
  "CmiDeliverIpcBlockMsg m msg =
     (if m_destPE msg = nodeDatagram then Inr (CmiPushNode (msg\<lparr>m_destPE := CmiMessageDestPENode\<rparr>))
      else let rank = sint (m_destPE msg)
           in CmiPushPE m rank (msg\<lparr>m_destPE := word_of_int (CmiNodeFirst m (Cmi_mynode m) + rank)\<rparr>))"

section \<open>Where a message arrives\<close>

text \<open>The processes of a run by their global numbers; each has numbered itself as in \<^verbatim>\<open>Machine\<close>.\<close>

definition numbered :: "machine \<Rightarrow> (int \<Rightarrow> machine) \<Rightarrow> bool" where
  "numbered m proc \<longleftrightarrow> (\<forall>part node g. local_node m (part, node) \<and> node_lToGTranslate m node part = Inr g \<longrightarrow>
     Cmi_mynode (proc g) = node \<and> Cmi_mynodesize (proc g) = Cmi_mynodesize m)"

text \<open>The sender is one of them, in its own partition.\<close>

definition sender_ok :: "send_env \<Rightarrow> bool" where
  "sender_ok env \<longleftrightarrow> (let m = se_machine env; i = partitionInfo m in
     partitioned m \<and> local_node m (myPartition i, Cmi_mynode m)
     \<and> Cmi_numnodes m = partitionSize i ! nat (myPartition i)
     \<and> numnodes_global m * Cmi_mynodesize m < 2 ^ 31
     \<and> (Cmi_mynodesize m \<le> 512 \<or> (\<forall>n k. \<not> se_ipc env n k)))"

fun arrival :: "machine \<Rightarrow> (int \<Rightarrow> machine) \<Rightarrow> 'p cmsg route \<Rightarrow> cmi_error + int \<times> 'p cmsg route" where
  "arrival m proc (Network g x) = bindE (CommRemoteHandler (proc g) x) (\<lambda>r. Inr (g, r))"
| "arrival m proc (Pool n x) =
     bindE (to_global m n) (\<lambda>g. bindE (CmiDeliverIpcBlockMsg (proc g) x) (\<lambda>r. Inr (g, r)))"
| "arrival m proc r = bindE (to_global m (Cmi_mynode m)) (\<lambda>g. Inr (g, r))"

lemma global_number:
  assumes "partitioned m" and "local_node m (part, node)"
  shows "\<exists>g. node_lToGTranslate m node part = Inr g \<and> 0 \<le> g \<and> g < numnodes_global m"
proof -
  define sz where "sz = partitionSize (partitionInfo m)"
  have ok: "layout_ok (mynode_global m) (numnodes_global m) (partitionInfo m)"
    using assms(1) by (simp add: partitioned_def)
  have n: "0 \<le> node" "node < sz ! nat part" "nat part < length sz" "\<forall>x \<in> set sz. 0 \<le> x" "sum_list sz = numnodes_global m"
    using ok assms(2) by (auto simp: layout_ok_def local_node_def Let_def sz_def less_imp_le)
  have "sum_list (take (Suc (nat part)) sz) + sum_list (drop (Suc (nat part)) sz) = sum_list sz"
    by (simp flip: sum_list_append)
  moreover have "sum_list (take (Suc (nat part)) sz) = sum_list (take (nat part) sz) + sz ! nat part"
    using n(3) by (simp add: take_Suc_conv_app_nth)
  moreover have "0 \<le> sum_list (drop (Suc (nat part)) sz)" "0 \<le> sum_list (take (nat part) sz)"
    using n(4) by (auto intro!: sum_list_nonneg dest: in_set_dropD in_set_takeD)
  moreover have "node_lToGTranslate m node part = Inr (sum_list (take (nat part) sz) + node)"
    using node_translate [OF ok, of part node] assms by (simp add: partitioned_def local_node_def sz_def)
  ultimately show ?thesis
    using n by simp
qed

lemma to_global_own:
  assumes "partitioned m" and "local_node m (myPartition (partitionInfo m), node)"
    and "node_lToGTranslate m node (myPartition (partitionInfo m)) = Inr g"
  shows "to_global m node = Inr g"
proof (cases "numPartitions (partitionInfo m) = 1")
  case True
  then have "myPartition (partitionInfo m) = 0"
    using assms(2) by (simp add: local_node_def)
  then have "g = node"
    using node_translate [of _ _ m 0 node] assms by (auto simp: partitioned_def local_node_def)
  then show ?thesis
    using True by (simp add: to_global_def CmiNodeToGlobal_def)
next
  case False
  then show ?thesis
    using assms(3) by (simp add: to_global_def CmiNodeToGlobal_def)
qed

lemma sint_word_32: "0 \<le> k \<Longrightarrow> k < 2 ^ 31 \<Longrightarrow> sint (word_of_int k :: u32) = k"
  by (simp add: sint_sbintrunc' signed_take_bit_int_eq_self)

lemma dest_is_pe:
  assumes "0 \<le> k" and "k < 2 ^ 31"
  shows "(word_of_int k :: u32) \<noteq> CmiMessageDestPENode"
proof
  assume "(word_of_int k :: u32) = CmiMessageDestPENode"
  then have "sint (word_of_int k :: u32) = - 1"
    by (simp add: CmiMessageDestPENode_def)
  then show False
    using sint_word_32 [OF assms] assms by simp
qed

lemma rank_not_datagram:
  assumes "0 \<le> k" and "k < 512"
  shows "(word_of_int k :: u32) \<noteq> nodeDatagram"
proof
  assume "(word_of_int k :: u32) = nodeDatagram"
  then have "sint (word_of_int k :: u32) = sint (word_of_int 65535 :: u32)"
    by (simp add: nodeDatagram_def)
  then show False
    using sint_word_32 [of k] sint_word_32 [of 65535] assms by simp
qed

text \<open>A message on the network arrives in the thread queue of the rank its global destination has, one in the
  pool in that of the rank it carries.\<close>

lemma network_arrives:
  assumes "Cmi_mynodesize (proc g) = n" and "0 \<le> pe" and "pe < 2 ^ 31" and "0 < n"
  shows "arrival m proc (Network g (x\<lparr>m_destPE := word_of_int pe\<rparr>)) = Inr (g, PeQueue (pe mod n) (x\<lparr>m_destPE := word_of_int pe\<rparr>))"
  using assms dest_is_pe [OF assms(2,3)] sint_word_32 [OF assms(2,3)]
  by (simp add: CommRemoteHandler_def CmiRankOf_def CmiPushPE_def sdiv_smod_nonneg)

lemma pool_arrives:
  assumes "Cmi_mynodesize (proc g) = n" and "0 \<le> rank" and "rank < n" and "n \<le> 512" and "to_global m node = Inr g"
    and "Cmi_mynode (proc g) = node"
  shows "arrival m proc (Pool node (x\<lparr>m_destPE := word_of_int rank\<rparr>))
    = Inr (g, PeQueue rank (x\<lparr>m_destPE := word_of_int (node * n + rank)\<rparr>))"
  using assms rank_not_datagram [of rank] sint_word_32 [of rank]
  by (simp add: CmiDeliverIpcBlockMsg_def CmiPushPE_def CmiNodeFirst_def)

lemma local_pe_facts:
  assumes "partitioned m" and "local_pe m (part, pe)"
  shows "CmiNodeOf m pe = pe div Cmi_mynodesize m" "CmiRankOf m pe = pe mod Cmi_mynodesize m"
    "0 \<le> CmiRankOf m pe" "CmiRankOf m pe < Cmi_mynodesize m" "local_node m (part, CmiNodeOf m pe)"
proof -
  have n: "0 < Cmi_mynodesize m" "0 \<le> pe"
    using assms by (auto simp: partitioned_def local_pe_def)
  then show d: "CmiNodeOf m pe = pe div Cmi_mynodesize m" "CmiRankOf m pe = pe mod Cmi_mynodesize m"
    by (simp_all add: CmiNodeOf_def CmiRankOf_def sdiv_smod_nonneg)
  show "0 \<le> CmiRankOf m pe" "CmiRankOf m pe < Cmi_mynodesize m"
    using n d by simp_all
  show "local_node m (part, CmiNodeOf m pe)"
    using pe_translate [OF assms] d by simp
qed

lemma node_rank_of:
  assumes "0 \<le> g" and "0 \<le> r" and "r < Cmi_mynodesize m"
  shows "CmiNodeOf m (g * Cmi_mynodesize m + r) = g" "CmiRankOf m (g * Cmi_mynodesize m + r) = r"
  using assms by (simp_all add: CmiNodeOf_def CmiRankOf_def sdiv_smod_nonneg)

lemma own_send_arrives:
  assumes ok: "sender_ok env" and num: "numbered (se_machine env) proc" and m: "m = se_machine env"
    and pe: "local_pe m (myPartition (partitionInfo m), pe)"
    and g: "node_lToGTranslate m (CmiNodeOf m pe) (myPartition (partitionInfo m)) = Inr g"
    and bound: "pe < 2 ^ 31"
  shows "\<exists>r q x. CmiSyncSendAndFreeNoPersistent env pe k msg = Inr r \<and> arrival m proc r = Inr (g, q)
    \<and> (q = PeQueue (CmiRankOf m pe) x \<or> q = SchedQueue (CmiRankOf m pe) x) \<and> x = msg\<lparr>m_destPE := word_of_int pe\<rparr>"
proof -
  define my where "my = myPartition (partitionInfo m)"
  define n where "n = Cmi_mynodesize m"
  have part: "partitioned m" and own: "Cmi_numnodes m = partitionSize (partitionInfo m) ! nat my"
      "local_node m (my, Cmi_mynode m)" and pool: "n \<le> 512 \<or> (\<forall>a b. \<not> se_ipc env a b)"
    using ok by (auto simp: sender_ok_def Let_def m my_def n_def)
  note f = local_pe_facts [OF part pe]
  have n: "0 < n" "0 \<le> pe" "pe div n * n + pe mod n = pe"
    using part pe by (auto simp: partitioned_def local_pe_def n_def)
  have dest: "0 \<le> CmiNodeOf m pe" "CmiNodeOf m pe < Cmi_numnodes m"
    using f(5) own(1) by (simp_all add: local_node_def my_def)
  have there: "to_global m (CmiNodeOf m pe) = Inr g"
    using to_global_own [OF part f(5) g] .
  have proc: "Cmi_mynode (proc g) = CmiNodeOf m pe" "Cmi_mynodesize (proc g) = n"
    using num f(5) g by (auto simp: numbered_def m n_def)
  let ?x = "msg\<lparr>m_destPE := word_of_int pe\<rparr>"
  consider (self) "Cmi_mynode m = CmiNodeOf m pe" "CmiRankOf m pe = se_myrank env"
    | (peer) "Cmi_mynode m = CmiNodeOf m pe" "CmiRankOf m pe \<noteq> se_myrank env"
    | (pool) "Cmi_mynode m \<noteq> CmiNodeOf m pe" "se_ipc env (CmiNodeOf m pe) k"
    | (net) "Cmi_mynode m \<noteq> CmiNodeOf m pe" "\<not> se_ipc env (CmiNodeOf m pe) k"
    by blast
  then show ?thesis
  proof cases
    case self
    then show ?thesis
      using dest there by (simp add: CmiSyncSendAndFreeNoPersistent_def m [symmetric] Let_def)
  next
    case peer
    then show ?thesis
      using dest there f(3,4) by (simp add: CmiSyncSendAndFreeNoPersistent_def m [symmetric] Let_def CmiPushPE_def)
  next
    case pool
    then have "CmiSyncSendAndFreeNoPersistent env pe k msg = Inr (Pool (CmiNodeOf m pe) (?x\<lparr>m_destPE := word_of_int (CmiRankOf m pe)\<rparr>))"
      using dest by (simp add: CmiSyncSendAndFreeNoPersistent_def m [symmetric] Let_def)
    moreover have "n \<le> 512"
      using pool(2) \<open>n \<le> 512 \<or> _\<close> by blast
    ultimately show ?thesis
      using pool_arrives [of proc g n "CmiRankOf m pe" m "CmiNodeOf m pe" ?x] proc there f(1-4) n
      by (simp add: n_def [symmetric])
  next
    case net
    then have "CmiSyncSendAndFreeNoPersistent env pe k msg = Inr (Network g ?x)"
      using dest there by (simp add: CmiSyncSendAndFreeNoPersistent_def m [symmetric] Let_def)
    then show ?thesis
      using network_arrives [of proc g n pe m msg] proc n bound f(2) by (simp add: n_def [symmetric])
  qed
qed

lemma pe_bound:
  assumes "partitioned m" and "numnodes_global m * Cmi_mynodesize m < 2 ^ 31" and "0 \<le> g" and "g < numnodes_global m"
    and "0 \<le> r" and "r < Cmi_mynodesize m"
  shows "0 \<le> g * Cmi_mynodesize m + r" "g * Cmi_mynodesize m + r < 2 ^ 31"
proof -
  have "(g + 1) * Cmi_mynodesize m \<le> numnodes_global m * Cmi_mynodesize m"
    using assms by (intro mult_right_mono) auto
  then show "g * Cmi_mynodesize m + r < 2 ^ 31" "0 \<le> g * Cmi_mynodesize m + r"
    using assms by (simp_all add: algebra_simps)
qed

lemma local_pe_bound:
  assumes "partitioned m" and "local_pe m (part, pe)" and "numnodes_global m * Cmi_mynodesize m < 2 ^ 31"
  shows "pe < 2 ^ 31"
proof -
  note f = local_pe_facts [OF assms(1,2)]
  obtain g where g: "node_lToGTranslate m (CmiNodeOf m pe) part = Inr g" "0 \<le> g" "g < numnodes_global m"
    using global_number [OF assms(1) f(5)] by blast
  have "CmiNodeOf m pe \<le> g"
  proof -
    have "g = sum_list (take (nat part) (partitionSize (partitionInfo m))) + CmiNodeOf m pe"
      using node_translate [of _ _ m part "CmiNodeOf m pe"] assms(1) f(5) g(1) by (auto simp: partitioned_def local_node_def)
    moreover have "0 \<le> sum_list (take (nat part) (partitionSize (partitionInfo m)))"
      using assms(1) by (auto simp: partitioned_def layout_ok_def Let_def less_imp_le intro!: sum_list_nonneg dest!: in_set_takeD)
    ultimately show ?thesis by simp
  qed
  then have "CmiNodeOf m pe < numnodes_global m" "0 \<le> CmiNodeOf m pe"
    using g(3) f(5) by (simp_all add: local_node_def)
  from pe_bound(2) [OF assms(1,3) this(2,1) f(3,4)] show ?thesis
    using f(1,2) by simp
qed

text \<open>C39. Where the partition sizes cover the run and no persistent channel takes the message over, a message sent to a
  PE of any partition of the run ends in a queue of exactly that PE: on the process whose
  global number belongs to the destination, in the thread queue of the destination's rank, or in the caller's
  own priority queue when it sends to itself; on every path, within the process, through the pool of the
  host and over the network, with its contents unchanged and the destination field restored.  Global PE numbers fit
  an \<open>int\<close>, and the pool is used with at most 512 ranks per process.\<close>

theorem send_reaches_pe:
  assumes ok: "sender_ok env" and num: "numbered (se_machine env) proc" and m: "m = se_machine env"
    and pe: "local_pe m (part, pe)" and "\<not> se_persistent env pe k"
  shows "\<exists>r g q x. CmiInterSyncSendAndFree env pe part k msg = Inr r
    \<and> node_lToGTranslate m (CmiNodeOf m pe) part = Inr g \<and> arrival m proc r = Inr (g, q)
    \<and> (q = PeQueue (CmiRankOf m pe) x \<or> q = SchedQueue (CmiRankOf m pe) x)
    \<and> CmiRankOf m (sint (m_destPE x)) = CmiRankOf m pe \<and> x\<lparr>m_destPE := m_destPE msg\<rparr> = msg"
proof -
  define n where "n = Cmi_mynodesize m"
  have part: "partitioned m" and small: "numnodes_global m * n < 2 ^ 31"
    using ok by (auto simp: sender_ok_def Let_def m n_def)
  note f = local_pe_facts [OF part pe]
  have range: "0 \<le> part" "part < numPartitions (partitionInfo m)" "0 < n" "0 \<le> pe"
    using part pe by (auto simp: partitioned_def local_pe_def n_def)
  obtain g where g: "node_lToGTranslate m (CmiNodeOf m pe) part = Inr g" "0 \<le> g" "g < numnodes_global m"
    using global_number [OF part f(5)] by blast
  show ?thesis
  proof (cases "part = myPartition (partitionInfo m)")
    case True
    have bound: "pe < 2 ^ 31"
      using local_pe_bound [OF part pe] small by (simp add: n_def)
    obtain r q where r: "CmiSyncSendAndFreeNoPersistent env pe k (msg\<lparr>m_destPE := word_of_int pe\<rparr>) = Inr r"
        "arrival m proc r = Inr (g, q)"
        "q = PeQueue (CmiRankOf m pe) (msg\<lparr>m_destPE := word_of_int pe\<rparr>)
          \<or> q = SchedQueue (CmiRankOf m pe) (msg\<lparr>m_destPE := word_of_int pe\<rparr>)"
      using own_send_arrives [OF ok num m _ _ bound, of g k "msg\<lparr>m_destPE := word_of_int pe\<rparr>"] pe g(1) True by auto
    have "CmiInterSyncSendAndFree env pe part k msg = Inr r"
      using r(1) assms(5) range True by (simp add: CmiInterSyncSendAndFree_def CmiSyncSendAndFree_def m [symmetric] Let_def)
    with r(2,3) g(1) sint_word_32 [OF range(4) bound] show ?thesis
      by (intro exI [of _ r] exI [of _ g] exI [of _ q] exI [of _ "msg\<lparr>m_destPE := word_of_int pe\<rparr>"]) simp
  next
    case False
    define G where "G = g * n + CmiRankOf m pe"
    have G: "0 \<le> G" "G < 2 ^ 31"
      using pe_bound [OF part _ g(2,3) f(3,4)] small by (simp_all add: G_def n_def)
    have gdiv: "CmiNodeOf m G = g" "CmiRankOf m G = CmiRankOf m pe" "G mod n = CmiRankOf m pe"
      using node_rank_of [OF g(2) f(3,4)] f(3,4) by (simp_all add: n_def G_def)
    have tr: "pe_lToGTranslate m pe part = Inr G"
      using pe_translate [OF part pe] g(1) f(1,2) by (simp add: G_def n_def)
    have "Cmi_mynodesize (proc g) = n"
      using num f(5) g(1) by (auto simp: numbered_def m n_def)
    note arr = network_arrives [of proc g n G m "msg\<lparr>m_destPE := word_of_int pe\<rparr>", OF this G range(3)]
    have "CmiInterSyncSendAndFree env pe part k msg = Inr (Network g (msg\<lparr>m_destPE := word_of_int G\<rparr>))"
      using False range tr gdiv(1) by (simp add: CmiInterSyncSendAndFree_def m [symmetric] Let_def)
    with arr g(1) gdiv(2,3) sint_word_32 [OF G] show ?thesis
      by (intro exI [of _ "Network g (msg\<lparr>m_destPE := word_of_int G\<rparr>)"] exI [of _ g] exI) auto
  qed
qed

text \<open>Two processes of two PEs in one partition: PE 0 sends to PE 3.\<close>

definition smp_part :: PartitionInfo where
  "smp_part = \<lparr>ptype = PARTITION_DEFAULT, isTopoaware = False, scheme = 0, numPartitions = 1, partitionSize = [2],
     partitionPrefix = [0], nodeMap = [], myPartition = 0, partsizes = None\<rparr>"

definition smp_proc :: "int \<Rightarrow> machine" where
  "smp_proc g = \<lparr>Cmi_mynode = g, Cmi_numnodes = 2, Cmi_npes = 4, Cmi_mynodesize = 2, Cmi_nodestart = 2 * g, mynode_global = g,
     numnodes_global = 2, numpes_global = 4, Cmi_nodestartGlobal = 2 * g, partitionInfo = smp_part\<rparr>"

definition smp_send :: send_env where
  "smp_send = \<lparr>se_machine = smp_proc 0, se_myrank = 0, se_ipc = (\<lambda>_ _. False), se_persistent = (\<lambda>_ _. False)\<rparr>"

definition smp_cmsg :: "nat cmsg" where
  "smp_cmsg = \<lparr>m_handler = 5, m_info = 0, m_destPE = 0, m_size = 40, m_xhandler = 0, m_nokeep = False, m_zcType = 0, m_body = 9\<rparr>"

lemma smp_partitioned: "partitioned (smp_proc 0)"
  by (auto simp: partitioned_def smp_proc_def smp_part_def layout_ok_def prefix_ok_def part_holds_def same_size_from_def Let_def)

lemma smp_numbered: "numbered (smp_proc 0) smp_proc"
  by (auto simp: numbered_def local_node_def smp_proc_def smp_part_def node_lToGTranslate_def Let_def int_nth_def)

theorem send_reaches_pe_witness:
  "\<exists>r q x. CmiInterSyncSendAndFree smp_send 3 0 40 smp_cmsg = Inr r \<and> arrival (smp_proc 0) smp_proc r = Inr (1, q)
    \<and> (q = PeQueue 1 x \<or> q = SchedQueue 1 x) \<and> m_body x = 9"
proof -
  have 1: "sender_ok smp_send"
    using smp_partitioned by (simp add: sender_ok_def smp_send_def local_node_def Let_def) (simp add: smp_proc_def smp_part_def)
  have 2: "numbered (se_machine smp_send) smp_proc"
    using smp_numbered by (simp add: smp_send_def)
  have 3: "smp_proc 0 = se_machine smp_send" "local_pe (smp_proc 0) (0, 3)" "\<not> se_persistent smp_send 3 40"
    by (simp_all add: smp_send_def local_pe_def smp_proc_def smp_part_def)
  have 4: "CmiRankOf (smp_proc 0) 3 = 1" "CmiNodeOf (smp_proc 0) 3 = 1" "node_lToGTranslate (smp_proc 0) 1 0 = Inr 1"
    by (simp_all add: CmiRankOf_def CmiNodeOf_def sdiv_smod_nonneg smp_proc_def smp_part_def node_lToGTranslate_def int_nth_def)
  obtain r q x where "CmiInterSyncSendAndFree smp_send 3 0 40 smp_cmsg = Inr r" "arrival (smp_proc 0) smp_proc r = Inr (1, q)"
      "q = PeQueue 1 x \<or> q = SchedQueue 1 x" "x\<lparr>m_destPE := m_destPE smp_cmsg\<rparr> = smp_cmsg"
    using send_reaches_pe [OF 1 2 3, of smp_cmsg] 4 by auto
  moreover have "m_body (x\<lparr>m_destPE := m_destPE smp_cmsg\<rparr>) = m_body smp_cmsg"
    by (simp only: calculation(4))
  then have "m_body x = 9"
    by (simp add: smp_cmsg_def)
  ultimately show ?thesis
    by blast
qed

text \<open>The range test on the destination divides first, and C division rounds towards zero: on a run with several
  PEs per process a send to PE -1 passes it and, with its destination field now reading as the mark of a node-level
  message, is delivered to the node queue of process 0.\<close>

lemma send_to_negative_pe:
  assumes "1 < Cmi_mynodesize (se_machine env)" and "Cmi_mynode (se_machine env) \<noteq> 0" and "0 < Cmi_numnodes (se_machine env)"
    and "\<not> se_ipc env 0 k" and "to_global (se_machine env) 0 = Inr g"
  shows "\<exists>x. CmiSyncSendAndFreeNoPersistent env (- 1) k msg = Inr (Network g x) \<and> CommRemoteHandler (proc g) x = Inr (NodeQueue x)"
proof -
  have "CmiNodeOf (se_machine env) (- 1) = 0"
    using assms(1) by (simp add: CmiNodeOf_def signed_divide_int_def)
  then show ?thesis
    using assms by (simp add: CmiSyncSendAndFreeNoPersistent_def CommRemoteHandler_def CmiMessageDestPENode_def Let_def)
qed

section \<open>Node-level sends\<close>

lemma node_send_arrives:
  assumes ok: "sender_ok env" and num: "numbered (se_machine env) proc" and m: "m = se_machine env"
    and node: "local_node m (part, node)" and g: "node_lToGTranslate m node part = Inr g"
    and "Cmi_numnodes m < 2 ^ 31"
  shows "\<exists>r. CmiInterSyncNodeSendAndFree env node part k msg = Inr r
    \<and> arrival m proc r = Inr (g, NodeQueue (msg\<lparr>m_destPE := CmiMessageDestPENode\<rparr>))"
proof (cases "part = myPartition (partitionInfo m)")
  case True
  have part: "partitioned m" and own: "Cmi_numnodes m = partitionSize (partitionInfo m) ! nat part" "local_node m (part, Cmi_mynode m)"
    using ok True by (auto simp: sender_ok_def Let_def m)
  have range: "0 \<le> part" "part < numPartitions (partitionInfo m)" "0 \<le> node" "node < Cmi_numnodes m"
      "0 \<le> Cmi_mynode m" "Cmi_mynode m < Cmi_numnodes m"
    using node own by (auto simp: local_node_def)
  have w: "sint (word_of_int node :: u32) = node" "sint (word_of_int (Cmi_mynode m) :: u32) = Cmi_mynode m"
    using range assms(6) by (auto intro!: sint_word_32)
  have in_range: "\<not> (word_of_int node :: u32) \<ge> word_of_int (Cmi_numnodes m)"
    using range assms(6) by (simp add: word_le_def uint_word_of_int take_bit_int_eq_self)
  have there: "to_global m node = Inr g"
    using to_global_own [of m node g] part node g True by simp
  have same: "(word_of_int (Cmi_mynode m) :: u32) = word_of_int node \<longleftrightarrow> Cmi_mynode m = node"
    using w by metis
  have "CmiInterSyncNodeSendAndFree env node part k msg = CmiSyncNodeSendAndFree env (word_of_int node) k msg"
    using range True by (simp add: CmiInterSyncNodeSendAndFree_def m [symmetric] Let_def)
  then show ?thesis
    using there in_range same w(1)
    by (auto simp: CmiSyncNodeSendAndFree_def m [symmetric] Let_def CommRemoteHandler_def CmiDeliverIpcBlockMsg_def CmiPushNode_def)
next
  case False
  then show ?thesis
    using node g by (auto simp: CmiInterSyncNodeSendAndFree_def m [symmetric] Let_def local_node_def CommRemoteHandler_def)
qed

section \<open>Dispatch\<close>

lemma handler_at_put:
  assumes "put_entry n e t = Inr t'"
  shows "handler_at t' n = Inr e" and "k \<noteq> n \<Longrightarrow> handler_at t k = Inr e' \<Longrightarrow> handler_at t' k = Inr e'"
  using assms by (auto simp: put_entry_def handler_at_def Let_def nth_append split: if_splits)

text \<open>The index a registration returns, or the number a handler is put at, calls that handler for every message
  carrying it, with its user pointer if it has one, and no registration changes what the other indices call.
  This holds up to the 32768 indices the header field can carry; the next one reads back negative and is
  refused by the table.\<close>

lemma register_dispatches:
  assumes "CmiRegisterHandlerEx h u t = (n, t')" and "n \<le> 32767"
  shows "CmiHandleMessage t' (CmiSetHandler m n) = Inr (Some h, u)"
    and "CmiHandleMessage t x = Inr c \<Longrightarrow> CmiHandleMessage t' x = Inr c"
  using assms
  by (auto simp: CmiRegisterHandlerEx_def CmiHandleMessage_def CmiCallHandler_def handler_at_def Let_def nth_append
      split: option.split if_splits)

lemma register_plain: "CmiRegisterHandler h t = CmiRegisterHandlerEx h None t" "CmiNumberHandler n h t = CmiNumberHandlerEx n h None t"
  by (simp_all add: CmiRegisterHandler_def CmiRegisterHandlerEx_def CmiNumberHandler_def CmiNumberHandlerEx_def)

lemma number_dispatches:
  assumes "CmiNumberHandlerEx n h u t = Inr t'" and "n \<le> 32767"
  shows "CmiHandleMessage t' (CmiSetHandler m n) = Inr (Some h, u)"
    and "CmiGetHandler x \<noteq> n \<Longrightarrow> CmiHandleMessage t x = Inr c \<Longrightarrow> CmiHandleMessage t' x = Inr c"
proof -
  have n: "0 \<le> n"
    using assms(1) by (auto simp: CmiNumberHandlerEx_def put_entry_def split: if_splits)
  show "CmiHandleMessage t' (CmiSetHandler m n) = Inr (Some h, u)"
    using handler_at_put(1) [of n _ t t'] assms n
    by (simp add: CmiNumberHandlerEx_def CmiHandleMessage_def CmiCallHandler_def split: option.split)
  show "CmiHandleMessage t' x = Inr c" if "CmiGetHandler x \<noteq> n" "CmiHandleMessage t x = Inr c"
    using that assms(1) handler_at_put(2) [of n _ t t' "CmiGetHandler x"]
    by (auto simp: CmiNumberHandlerEx_def CmiHandleMessage_def CmiCallHandler_def bindE_Inr)
qed

lemma handler_index_wraps: "CmiHandleMessage t (CmiSetHandler m 32768) = Inl (NoSuchHandler (- 32768))"
  by (simp add: CmiHandleMessage_def CmiCallHandler_def CmiGetHandler_def CmiSetHandler_def handler_at_def
      sint_sbintrunc' signed_take_bit_eq_if_negative)

section \<open>Counted sends\<close>

text \<open>A message that is sent when its counter runs out.  The decrement is atomic, and a caller acts on the value it
  took down only, so concurrent calls are a sequence of these.\<close>

record 'p DecrementToEnqueueMsg =
  counter :: "u32 option"
  dte_msg :: "'p cmsg"

definition CmiCreateDecrementToEnqueue :: "'p cmsg \<Rightarrow> u32 \<Rightarrow> cmi_error + 'p DecrementToEnqueueMsg" where
  "CmiCreateDecrementToEnqueue msg n = (if n = 0 then Inl ZeroCount else Inr \<lparr>counter = Some n, dte_msg = msg\<rparr>)"

definition CmiDecrementCounter ::
  "send_env \<Rightarrow> 'p DecrementToEnqueueMsg option \<Rightarrow> cmi_error + 'p cmsg route option \<times> 'p DecrementToEnqueueMsg" where
  "CmiDecrementCounter env d =
     (case d of
        None \<Rightarrow> Inl NullCounter
      | Some d \<Rightarrow>
          (case counter d of
             None \<Rightarrow> Inr (None, d)
           | Some old \<Rightarrow>
               let d' = d\<lparr>counter := Some (old - 1)\<rparr> in
               if old = 0 then Inl ZeroCount
               else if old = 1 then
                 let destPE = sint (m_destPE (dte_msg d)) in
                 if 0 \<le> destPE \<and> destPE < Cmi_npes (se_machine env)
                 then bindE (CmiSyncSend env destPE (m_size (dte_msg d)) (dte_msg d)) (\<lambda>r. Inr (Some r, d'))
                 else Inl (DestOutOfRange destPE)
               else Inr (None, d')))"

definition CmiResetCounter :: "'p DecrementToEnqueueMsg option \<Rightarrow> u32 \<Rightarrow> cmi_error + 'p DecrementToEnqueueMsg" where
  "CmiResetCounter d n =
     (case d of
        None \<Rightarrow> Inl NullCounter
      | Some d \<Rightarrow> if counter d = None then Inl NullCounter else if n = 0 then Inl ZeroCount else Inr (d\<lparr>counter := Some n\<rparr>))"

definition CmiFreeDecrementToEnqueue :: "'p DecrementToEnqueueMsg option \<Rightarrow> cmi_error + unit" where
  "CmiFreeDecrementToEnqueue d =
     (case d of None \<Rightarrow> Inl NullCounter | Some d \<Rightarrow> if counter d = None then Inl NullCounter else Inr ())"

fun decrements :: "send_env \<Rightarrow> nat \<Rightarrow> 'p DecrementToEnqueueMsg \<Rightarrow> cmi_error + 'p cmsg route list \<times> 'p DecrementToEnqueueMsg" where
  "decrements env 0 d = Inr ([], d)"
| "decrements env (Suc n) d =
     bindE (CmiDecrementCounter env (Some d)) (\<lambda>(r, d1).
     bindE (decrements env n d1) (\<lambda>(rs, d2). Inr ((case r of None \<Rightarrow> rs | Some x \<Rightarrow> x # rs), d2)))"

lemma decrements_quiet:
  assumes "counter d = Some c" and "k < unat c"
  shows "decrements env k d = Inr ([], d\<lparr>counter := Some (c - of_nat k)\<rparr>)"
  using assms
proof (induction k arbitrary: d c)
  case 0
  then show ?case by simp
next
  case (Suc k)
  have c: "c \<noteq> 0" "c \<noteq> 1"
    using Suc.prems(2) by auto
  have u: "unat (c - 1) = unat c - 1"
    using c(1) by (simp add: unat_minus_one)
  have "CmiDecrementCounter env (Some d) = Inr (None, d\<lparr>counter := Some (c - 1)\<rparr>)"
    using c Suc.prems(1) by (simp add: CmiDecrementCounter_def)
  moreover have "decrements env k (d\<lparr>counter := Some (c - 1)\<rparr>) = Inr ([], d\<lparr>counter := Some (c - 1 - of_nat k)\<rparr>)"
    using Suc.IH [of "d\<lparr>counter := Some (c - 1)\<rparr>" "c - 1"] Suc.prems(2) u by simp
  ultimately show ?case
    by (simp add: diff_diff_eq add.commute)
qed

text \<open>The message is sent by the last of the counted decrements and by no other, and one decrement more aborts.\<close>

lemma decrement_sends_at_zero:
  assumes "CmiCreateDecrementToEnqueue msg n = Inr d" and "k < unat n"
  shows "decrements env k d = Inr ([], d\<lparr>counter := Some (n - of_nat k)\<rparr>)"
    and "k = unat n - 1 \<Longrightarrow> 0 \<le> sint (m_destPE msg) \<Longrightarrow> sint (m_destPE msg) < Cmi_npes (se_machine env) \<Longrightarrow>
      CmiSyncSend env (sint (m_destPE msg)) (m_size msg) msg = Inr r \<Longrightarrow>
      CmiDecrementCounter env (Some (d\<lparr>counter := Some (n - of_nat k)\<rparr>)) = Inr (Some r, d\<lparr>counter := Some 0\<rparr>)
        \<and> CmiDecrementCounter env (Some (d\<lparr>counter := Some 0\<rparr>)) = Inl ZeroCount"
proof -
  have d: "counter d = Some n" "dte_msg d = msg" "n \<noteq> 0"
    using assms(1) by (auto simp: CmiCreateDecrementToEnqueue_def split: if_splits)
  show "decrements env k d = Inr ([], d\<lparr>counter := Some (n - of_nat k)\<rparr>)"
    by (rule decrements_quiet [OF d(1) assms(2)])
  assume a: "k = unat n - 1" "0 \<le> sint (m_destPE msg)" "sint (m_destPE msg) < Cmi_npes (se_machine env)"
    "CmiSyncSend env (sint (m_destPE msg)) (m_size msg) msg = Inr r"
  have "(of_nat k :: u32) = n - 1"
    unfolding a(1) unat_minus_one [OF d(3), symmetric] by simp
  then show "CmiDecrementCounter env (Some (d\<lparr>counter := Some (n - of_nat k)\<rparr>)) = Inr (Some r, d\<lparr>counter := Some 0\<rparr>)
      \<and> CmiDecrementCounter env (Some (d\<lparr>counter := Some 0\<rparr>)) = Inl ZeroCount"
    using a d(2) by (simp add: CmiDecrementCounter_def)
qed

end
