(* ===== verification/Seed_Balancer.thy ===== *)
theory Seed_Balancer
  imports Messaging
begin

text \<open>
  The seed balancers \<^verbatim>\<open>src/cldb.rand.cpp\<close> and \<^verbatim>\<open>src/cldb.none.cpp\<close> with their common part \<^verbatim>\<open>src/cldb.cpp\<close>.  A message
  comes with an info function, which tells its length, strategy and priority and how to pack it; a message that leaves
  the PE carries the balancer's handler, its own handler parked in the swap field, and the index of its info
  function.  The operations return what they ask of the rest of the runtime.  Info functions live in the handler
  table next to the handlers.  Random numbers are a parameter.
\<close>

section \<open>Requests to the runtime\<close>

record 'p cld_info =
  i_pack :: "('p cmsg \<Rightarrow> 'p cmsg) option"
  i_len :: int
  i_queueing :: int
  i_priobits :: int
  i_prio :: "u32 list"

datatype 'm cld_act =
    ToSched 'm int int "u32 list"
  | ToNodePrio 'm int int "u32 list"
  | ToNodeFifo 'm
  | ToOwnQueue 'm
  | SendPe int int 'm
  | SendNode int int 'm
  | SendBroadcast int 'm
  | SendBroadcastAll int 'm
  | SendNodeBroadcast int 'm
  | SendNodeBroadcastAll int 'm
  | SendMulticast nat int 'm
  | SendWithinNode int 'm
  | SendList "int list" int 'm

definition CLD_ANYWHERE :: int where "CLD_ANYWHERE = - 1"
definition CLD_BROADCAST :: int where "CLD_BROADCAST = - 2"
definition CLD_BROADCAST_ALL :: int where "CLD_BROADCAST_ALL = - 3"

text \<open>What the table of a PE holds, seen from here; calling an entry as an info function that is not one is
  undefined in the code.\<close>

datatype 'p cld_fun =
    InfoFn "'p cmsg \<Rightarrow> 'p cld_info"
  | PackFn "'p cmsg \<Rightarrow> 'p cmsg"
  | Balancer
  | NodeBalancer
  | UserHandler nat

type_synonym 'p cld_table = "('p cld_fun, unit) CmiHandlerInfo list"

definition info_function :: "'p cld_table \<Rightarrow> int \<Rightarrow> cmi_error + ('p cmsg \<Rightarrow> 'p cld_info)" where
  "info_function t n =
     bindE (CmiHandlerToFunction t n) (\<lambda>f. case f of Some (InfoFn ifn) \<Rightarrow> Inr ifn | _ \<Rightarrow> Inl (NotCallable n))"

definition CldRegisterInfoFn :: "('p cmsg \<Rightarrow> 'p cld_info) \<Rightarrow> 'p cld_table \<Rightarrow> int \<times> 'p cld_table" where
  "CldRegisterInfoFn f t = CmiRegisterHandler (InfoFn f) t"

definition CldRegisterPackFn :: "('p cmsg \<Rightarrow> 'p cmsg) \<Rightarrow> 'p cld_table \<Rightarrow> int \<times> 'p cld_table" where
  "CldRegisterPackFn f t = CmiRegisterHandler (PackFn f) t"

record 'p cld_env =
  cl_machine :: machine
  cl_mype :: int
  cl_handlers :: "'p cld_table"
  cl_handlerIdx :: int
  cl_nodeHandlerIdx :: int

type_synonym 'p cld_result = "cmi_error + 'p cmsg cld_act \<times> int"

definition CldSwitchHandler :: "'p cmsg \<Rightarrow> int \<Rightarrow> 'p cmsg" where
  "CldSwitchHandler m h = CmiSetHandler (CmiSetXHandler m (CmiGetHandler m)) h"

definition CldRestoreHandler :: "'p cmsg \<Rightarrow> 'p cmsg" where
  "CldRestoreHandler m = CmiSetHandler m (CmiGetXHandler m)"

text \<open>The info function is asked once, and again after packing.\<close>

definition pack_msg :: "('p cmsg \<Rightarrow> 'p cld_info) \<Rightarrow> bool \<Rightarrow> 'p cmsg \<Rightarrow> 'p cmsg \<times> 'p cld_info" where
  "pack_msg ifn wanted m =
     (case i_pack (ifn m) of
        Some pfn \<Rightarrow> if wanted then (pfn m, ifn (pfn m)) else (m, ifn m)
      | None \<Rightarrow> (m, ifn m))"

definition mark_msg :: "int \<Rightarrow> int \<Rightarrow> 'p cmsg \<Rightarrow> cmi_error + 'p cmsg" where
  "mark_msg handler infofn m = CmiSetInfo (CldSwitchHandler m handler) infofn"

section \<open>The random balancer\<close>

definition CldHandler :: "'p cld_env \<Rightarrow> 'p cmsg \<Rightarrow> cmi_error + 'p cmsg cld_act" where
  "CldHandler env msg =
     (let m = CldRestoreHandler msg in
      bindE (info_function (cl_handlers env) (CmiGetInfo m)) (\<lambda>ifn.
        let i = ifn m in Inr (ToSched m (i_queueing i) (i_priobits i) (i_prio i))))"

definition CldNodeHandler :: "'p cld_env \<Rightarrow> 'p cmsg \<Rightarrow> cmi_error + 'p cmsg cld_act" where
  "CldNodeHandler env msg =
     (let m = CldRestoreHandler msg in bindE (info_function (cl_handlers env) (CmiGetInfo m)) (\<lambda>ifn. Inr (ToNodeFifo m)))"

definition CldEnqueueGroup :: "'p cld_env \<Rightarrow> nat \<Rightarrow> 'p cmsg \<Rightarrow> int \<Rightarrow> cmi_error + 'p cmsg cld_act" where
  "CldEnqueueGroup env grp msg infofn =
     bindE (info_function (cl_handlers env) infofn) (\<lambda>ifn. let (m, i) = pack_msg ifn True msg in
     bindE (mark_msg (cl_handlerIdx env) infofn m) (\<lambda>m'. Inr (SendMulticast grp (i_len i) m')))"

definition CldEnqueueWithinNode :: "'p cld_env \<Rightarrow> 'p cmsg \<Rightarrow> int \<Rightarrow> cmi_error + 'p cmsg cld_act" where
  "CldEnqueueWithinNode env msg infofn =
     bindE (info_function (cl_handlers env) infofn) (\<lambda>ifn. let (m, i) = pack_msg ifn (CmiMsgIsNokeep msg = 0) msg in
     bindE (mark_msg (cl_handlerIdx env) infofn m) (\<lambda>m'. Inr (SendWithinNode (i_len i) m')))"

definition CldEnqueueMulti :: "'p cld_env \<Rightarrow> int list \<Rightarrow> 'p cmsg \<Rightarrow> int \<Rightarrow> cmi_error + 'p cmsg cld_act" where
  "CldEnqueueMulti env pes msg infofn =
     bindE (info_function (cl_handlers env) infofn) (\<lambda>ifn. let (m, i) = pack_msg ifn True msg in
     bindE (mark_msg (cl_handlerIdx env) infofn m) (\<lambda>m'. Inr (SendList pes (i_len i) m')))"

text \<open>The masked sum of a random number and the own number, modulo the number of choices.\<close>

definition random_choice :: "int \<Rightarrow> int \<Rightarrow> int \<Rightarrow> int" where
  "random_choice r my n = ((r + my) mod 2 ^ 31) mod n"

definition CldNodeEnqueue :: "'p cld_env \<Rightarrow> int \<Rightarrow> int \<Rightarrow> 'p cmsg \<Rightarrow> int \<Rightarrow> int \<Rightarrow> 'p cld_result" where
  "CldNodeEnqueue env r node msg infofn relocated =
     bindE (info_function (cl_handlers env) infofn) (\<lambda>ifn.
     let mach = cl_machine env; mynode = Cmi_mynode mach;
         dest = (if node = CLD_ANYWHERE then random_choice r mynode (Cmi_numnodes mach) else node);
         count = (if node = CLD_ANYWHERE \<and> dest \<noteq> mynode then relocated + 1 else relocated) in
     if dest = mynode then
       let i = ifn msg in Inr (ToNodePrio msg (i_queueing i) (i_priobits i) (i_prio i), count)
     else
       let (m, i) = pack_msg ifn True msg in
       bindE (mark_msg (cl_nodeHandlerIdx env) infofn m) (\<lambda>m'.
         Inr (if dest = CLD_BROADCAST then SendNodeBroadcast (i_len i) m'
              else if dest = CLD_BROADCAST_ALL then SendNodeBroadcastAll (i_len i) m'
              else SendNode dest (i_len i) m', count)))"

definition CldEnqueue :: "'p cld_env \<Rightarrow> int \<Rightarrow> int \<Rightarrow> 'p cmsg \<Rightarrow> int \<Rightarrow> int \<Rightarrow> 'p cld_result" where
  "CldEnqueue env r pe msg infofn relocated =
     (let mach = cl_machine env; mype = cl_mype env;
          dest = (if pe = CLD_ANYWHERE then random_choice r mype (Cmi_npes mach) else pe);
          count = (if pe = CLD_ANYWHERE \<and> dest \<noteq> mype then relocated + 1 else relocated) in
      if pe = CLD_ANYWHERE \<and> CmiNodeOf mach dest = Cmi_mynode mach
      then CldNodeEnqueue env r (Cmi_mynode mach) msg infofn relocated
      else bindE (info_function (cl_handlers env) infofn) (\<lambda>ifn.
        if dest = mype then
          let i = ifn msg in Inr (ToSched msg (i_queueing i) (i_priobits i) (i_prio i), count)
        else
          let (m, i) = pack_msg ifn (CmiNodeOf mach dest \<noteq> Cmi_mynode mach) msg in
          bindE (mark_msg (cl_handlerIdx env) infofn m) (\<lambda>m'.
            Inr (if dest = CLD_BROADCAST then SendBroadcast (i_len i) m'
                 else if dest = CLD_BROADCAST_ALL then SendBroadcastAll (i_len i) m'
                 else SendPe dest (i_len i) m', count))))"

text \<open>The counters CldLoadBalanceMessages and CldMessageChunks are only ever set to zero; the result has the relocation
  counter.\<close>

definition CldModuleInit :: "'p cld_env \<Rightarrow> 'p cld_env \<times> int" where
  "CldModuleInit env =
     (let (i, t1) = CmiRegisterHandler Balancer (cl_handlers env); (j, t2) = CmiRegisterHandler NodeBalancer t1
      in (env\<lparr>cl_handlers := t2, cl_handlerIdx := i, cl_nodeHandlerIdx := j\<rparr>, 0))"

section \<open>The balancer that does nothing\<close>

definition none_CldHandler :: "'p cld_env \<Rightarrow> 'p cmsg \<Rightarrow> cmi_error + 'p cmsg cld_act" where
  "none_CldHandler env msg =
     (let m = CldRestoreHandler msg in bindE (info_function (cl_handlers env) (CmiGetInfo m)) (\<lambda>ifn. Inr (ToOwnQueue m)))"

definition none_CldEnqueue :: "'p cld_env \<Rightarrow> int \<Rightarrow> 'p cmsg \<Rightarrow> int \<Rightarrow> cmi_error + 'p cmsg cld_act" where
  "none_CldEnqueue env pe msg infofn =
     bindE (info_function (cl_handlers env) infofn) (\<lambda>ifn.
     let dest = (if pe = CLD_ANYWHERE then cl_mype env else pe) in
     if dest = cl_mype env then Inr (ToOwnQueue msg)
     else
       let (m, i) = pack_msg ifn True msg in
       bindE (mark_msg (cl_handlerIdx env) infofn m) (\<lambda>m'.
         Inr (if dest = CLD_BROADCAST then SendBroadcast (i_len i) m'
              else if dest = CLD_BROADCAST_ALL then SendBroadcastAll (i_len i) m'
              else SendPe dest (i_len i) m')))"

definition none_CldNodeEnqueue :: "'p cld_env \<Rightarrow> int \<Rightarrow> 'p cmsg \<Rightarrow> int \<Rightarrow> cmi_error + 'p cmsg cld_act" where
  "none_CldNodeEnqueue env node msg infofn =
     bindE (info_function (cl_handlers env) infofn) (\<lambda>ifn.
     let mynode = Cmi_mynode (cl_machine env); dest = (if node = CLD_ANYWHERE then mynode else node) in
     if dest = mynode then Inr (ToNodeFifo msg)
     else
       let (m, i) = pack_msg ifn True msg in
       bindE (mark_msg (cl_handlerIdx env) infofn m) (\<lambda>m'.
         Inr (if dest = CLD_BROADCAST then SendNodeBroadcast (i_len i) m'
              else if dest = CLD_BROADCAST_ALL then SendNodeBroadcastAll (i_len i) m'
              else SendNode dest (i_len i) m')))"

definition none_CldModuleInit :: "'p cld_env \<Rightarrow> 'p cld_env \<times> int" where
  "none_CldModuleInit env =
     (let (i, t1) = CmiRegisterHandler Balancer (cl_handlers env) in (env\<lparr>cl_handlers := t1, cl_handlerIdx := i\<rparr>, 0))"

section \<open>From a send to the queue of the destination\<close>

lemma restore_switched [simp]:
  "CldRestoreHandler (CldSwitchHandler m h) = m\<lparr>m_xhandler := m_handler m\<rparr>"
  by (simp add: CldRestoreHandler_def CldSwitchHandler_def CmiGetXHandler_def CmiSetXHandler_def CmiGetHandler_def
      CmiSetHandler_def)

lemma mark_msg_fields:
  assumes "mark_msg h f m = Inr m'"
  shows "m' = m\<lparr>m_handler := word_of_int h, m_xhandler := m_handler m, m_info := word_of_int f\<rparr>"
    and "0 \<le> f" and "f \<le> 32767"
  using assms by (auto simp: mark_msg_def CldSwitchHandler_def CmiGetHandler_def CmiSetHandler_def CmiSetXHandler_def
      CmiSetInfo_def split: if_splits)

text \<open>What the receiver sees of a marked message, whatever destination field the transport wrote.\<close>

lemma marked_restored:
  assumes "mark_msg h f m = Inr m'"
  shows "CldRestoreHandler (m'\<lparr>m_destPE := d\<rparr>)
           = m\<lparr>m_xhandler := m_handler m, m_info := word_of_int f, m_destPE := d\<rparr>"
    and "CmiGetInfo (CldRestoreHandler (m'\<lparr>m_destPE := d\<rparr>)) = f"
    and "- 32768 \<le> h \<Longrightarrow> h \<le> 32767 \<Longrightarrow> CmiGetHandler (m'\<lparr>m_destPE := d\<rparr>) = h"
  using mark_msg_fields [OF assms]
  by (simp_all add: CldRestoreHandler_def CmiGetXHandler_def CmiSetHandler_def CmiGetInfo_def CmiGetHandler_def
      sint_of_int_16)

text \<open>The message a receiver queues for the packed message of the sender.\<close>

definition arrived :: "'p cmsg \<Rightarrow> int \<Rightarrow> u32 \<Rightarrow> 'p cmsg" where
  "arrived m f d = m\<lparr>m_xhandler := m_handler m, m_info := word_of_int f, m_destPE := d\<rparr>"

lemma arrived_same [simp]:
  "CmiGetHandler (arrived m f d) = CmiGetHandler m" "m_body (arrived m f d) = m_body m" "m_size (arrived m f d) = m_size m"
  by (simp_all add: arrived_def CmiGetHandler_def)

lemma CldHandler_arrived:
  assumes "mark_msg h f m = Inr m'" and "info_function (cl_handlers env) f = Inr ifn"
  shows "CldHandler env (m'\<lparr>m_destPE := d\<rparr>) =
           (let x = arrived m f d; i = ifn x in Inr (ToSched x (i_queueing i) (i_priobits i) (i_prio i)))"
  using marked_restored [OF assms(1), of d] assms(2) by (simp add: CldHandler_def arrived_def Let_def)

lemma CldEnqueue_sends:
  assumes "CldEnqueue env r pe msg f n = Inr (SendPe dest k m', c)"
  obtains ifn where "info_function (cl_handlers env) f = Inr ifn" and "dest \<noteq> cl_mype env"
    and "mark_msg (cl_handlerIdx env) f
           (fst (pack_msg ifn (CmiNodeOf (cl_machine env) dest \<noteq> Cmi_mynode (cl_machine env)) msg)) = Inr m'"
    and "k = i_len (snd (pack_msg ifn (CmiNodeOf (cl_machine env) dest \<noteq> Cmi_mynode (cl_machine env)) msg))"
  using assms
  by (auto simp: CldEnqueue_def CldNodeEnqueue_def bindE_def Let_def case_prod_unfold split: if_splits sum.splits)

text \<open>The table that start-up leaves has the two handlers at the recorded indices.\<close>

lemma CldModuleInit_registers:
  assumes "CldModuleInit env = (env', c)"
  shows "handler_at (cl_handlers env') (cl_handlerIdx env') = Inr \<lparr>hdlr = Some Balancer, userPtr = None\<rparr>"
    and "handler_at (cl_handlers env') (cl_nodeHandlerIdx env') = Inr \<lparr>hdlr = Some NodeBalancer, userPtr = None\<rparr>"
    and "cl_handlerIdx env' = int (length (cl_handlers env))" and "c = 0"
  using assms by (auto simp: CldModuleInit_def CmiRegisterHandler_def handler_at_def nth_append nat_add_distrib)

text \<open>Later registrations leave the entries of a table where they are.\<close>

lemma handler_at_append: "handler_at t n = Inr e \<Longrightarrow> handler_at (t @ u) n = Inr e"
  by (auto simp: handler_at_def nth_append split: if_splits)

lemma info_function_registered:
  assumes "CldRegisterInfoFn ifn t = (f, t')"
  shows "info_function (t' @ u) f = Inr ifn"
proof -
  have "handler_at t' f = Inr \<lparr>hdlr = Some (InfoFn ifn), userPtr = None\<rparr>"
    using assms by (auto simp: CldRegisterInfoFn_def CmiRegisterHandler_def handler_at_def)
  from handler_at_append [OF this, of u] show ?thesis by (simp add: info_function_def CmiHandlerToFunction_def)
qed

text \<open>
  C40. A seed reaches the scheduler of its destination: when the random balancer sends a message to another PE, the header
  names the balancer's handler, so the receiver, whose table is registered in the same order, runs it; it queues
  the packed message with the sender's handler and contents restored, under the strategy and priority its info
  function gives, whatever destination field the transport wrote.
\<close>

theorem seed_reaches_scheduler:
  assumes send: "CldEnqueue env r pe msg f n = Inr (SendPe dest k m', c)"
    and same: "cl_handlers env' = cl_handlers env"
    and idx: "handler_at (cl_handlers env) (cl_handlerIdx env) = Inr \<lparr>hdlr = Some Balancer, userPtr = None\<rparr>"
      "cl_handlerIdx env \<le> 32767"
  shows "CmiHandleMessage (cl_handlers env') (m'\<lparr>m_destPE := d\<rparr>) = Inr (Some Balancer, None)
    \<and> (\<exists>ifn x. info_function (cl_handlers env) f = Inr ifn
           \<and> CldHandler env' (m'\<lparr>m_destPE := d\<rparr>)
               = Inr (ToSched x (i_queueing (ifn x)) (i_priobits (ifn x)) (i_prio (ifn x)))
           \<and> (let sent = fst (pack_msg ifn (CmiNodeOf (cl_machine env) dest \<noteq> Cmi_mynode (cl_machine env)) msg)
              in CmiGetHandler x = CmiGetHandler sent \<and> m_body x = m_body sent))"
proof -
  obtain ifn where i: "info_function (cl_handlers env) f = Inr ifn"
    and m: "mark_msg (cl_handlerIdx env) f
           (fst (pack_msg ifn (CmiNodeOf (cl_machine env) dest \<noteq> Cmi_mynode (cl_machine env)) msg)) = Inr m'"
    using CldEnqueue_sends [OF send] by metis
  have nn: "0 \<le> cl_handlerIdx env" using idx(1) by (simp add: handler_at_def split: if_splits)
  have call: "CmiHandleMessage (cl_handlers env') (m'\<lparr>m_destPE := d\<rparr>) = Inr (Some Balancer, None)"
    using marked_restored(3) [OF m, of d] nn idx same by (simp add: CmiHandleMessage_def CmiCallHandler_def)
  from i CldHandler_arrived [OF m, of env' ifn d] same call show ?thesis by (auto simp: Let_def)
qed

text \<open>Process 0 of the two-process run sends a seed to PE 3; the info function packs by adding one.\<close>

definition add_one :: "nat cmsg \<Rightarrow> nat cmsg" where
  "add_one m = m\<lparr>m_body := m_body m + 1\<rparr>"

definition add_info :: "nat cmsg \<Rightarrow> nat cld_info" where
  "add_info m = \<lparr>i_pack = Some add_one, i_len = 40, i_queueing = 0, i_priobits = 32, i_prio = [7]\<rparr>"

definition add_env :: "int \<Rightarrow> nat cld_env" where
  "add_env pe = fst (CldModuleInit \<lparr>cl_machine = smp_proc (pe div 2), cl_mype = pe,
     cl_handlers = snd (CldRegisterInfoFn add_info []), cl_handlerIdx = 0, cl_nodeHandlerIdx = 0\<rparr>)"

lemmas add_defs = add_env_def CldModuleInit_def CldRegisterInfoFn_def CmiRegisterHandler_def info_function_def
  CmiHandlerToFunction_def handler_at_def

lemma add_env_facts:
  "cl_handlers (add_env a) = cl_handlers (add_env b)" "cl_handlerIdx (add_env a) = 1" "cl_mype (add_env a) = a"
  "cl_machine (add_env a) = smp_proc (a div 2)"
  "info_function (cl_handlers (add_env a)) 0 = Inr add_info"
  "handler_at (cl_handlers (add_env a)) 1 = Inr \<lparr>hdlr = Some Balancer, userPtr = None\<rparr>"
  by (simp_all add: add_defs)

theorem seed_reaches_scheduler_witness:
  "\<exists>m' x. CldEnqueue (add_env 0) 5 3 smp_cmsg 0 0 = Inr (SendPe 3 40 m', 0)
     \<and> CldHandler (add_env 3) (m'\<lparr>m_destPE := 3\<rparr>) = Inr (ToSched x 0 32 [7]) \<and> CmiGetHandler x = 5 \<and> m_body x = 10"
proof -
  have n: "CmiNodeOf (smp_proc 0) 3 \<noteq> Cmi_mynode (smp_proc 0)" by (simp add: CmiNodeOf_def smp_proc_def sdiv_smod_nonneg)
  obtain m' where s: "CldEnqueue (add_env 0) 5 3 smp_cmsg 0 0 = Inr (SendPe 3 40 m', 0)"
    by (simp add: CldEnqueue_def add_env_facts CLD_ANYWHERE_def CLD_BROADCAST_def CLD_BROADCAST_ALL_def pack_msg_def add_info_def
        mark_msg_def CmiSetInfo_def Let_def n)
  have i: "handler_at (cl_handlers (add_env 0)) (cl_handlerIdx (add_env 0)) = Inr \<lparr>hdlr = Some Balancer, userPtr = None\<rparr>"
    "cl_handlerIdx (add_env 0) \<le> 32767" by (simp_all add: add_env_facts)
  from seed_reaches_scheduler [OF s add_env_facts(1) [of 3 0] i, of 3] s n show ?thesis
    by (auto simp: add_env_facts pack_msg_def add_info_def add_one_def Let_def CmiGetHandler_def smp_cmsg_def)
qed

section \<open>Random placement\<close>

lemma random_choice_range: "0 < n \<Longrightarrow> 0 \<le> random_choice r my n \<and> random_choice r my n < n"
  by (simp add: random_choice_def)

text \<open>A seed with no destination stays on this process, in the node's priority queue, when the drawn PE is one of its
  own, and otherwise goes to a PE of another process, where the relocation is counted; it is never broadcast.\<close>

theorem anywhere_placement:
  assumes "0 < Cmi_npes (cl_machine env)" and "Cmi_mynode (cl_machine env) \<noteq> CLD_ANYWHERE"
    and "CmiNodeOf (cl_machine env) (cl_mype env) = Cmi_mynode (cl_machine env)"
    and "CldEnqueue env r CLD_ANYWHERE msg f n = Inr (act, c)"
  shows "(\<exists>q b p. act = ToNodePrio msg q b p \<and> c = n)
    \<or> (\<exists>dest k m'. act = SendPe dest k m' \<and> c = n + 1 \<and> 0 \<le> dest \<and> dest < Cmi_npes (cl_machine env)
          \<and> CmiNodeOf (cl_machine env) dest \<noteq> Cmi_mynode (cl_machine env))"
proof -
  let ?d = "random_choice r (cl_mype env) (Cmi_npes (cl_machine env))"
  have r: "0 \<le> ?d" "?d < Cmi_npes (cl_machine env)" using random_choice_range [OF assms(1)] by blast+
  then have nb: "?d \<noteq> CLD_BROADCAST" "?d \<noteq> CLD_BROADCAST_ALL" by (simp_all add: CLD_BROADCAST_def CLD_BROADCAST_ALL_def)
  show ?thesis
  proof (cases "CmiNodeOf (cl_machine env) ?d = Cmi_mynode (cl_machine env)")
    case True
    with assms(2,4) show ?thesis
      by (auto simp: CldEnqueue_def CldNodeEnqueue_def Let_def bindE_def split: sum.splits)
  next
    case False
    then have "?d \<noteq> cl_mype env" using assms(3) by auto
    with False r nb assms(4) show ?thesis
      by (auto simp: CldEnqueue_def Let_def bindE_def case_prod_unfold split: sum.splits)
  qed
qed

text \<open>The test that decides whether to pack divides the destination by the process size also when it stands for a
  broadcast.  Division truncates, so on process 0, with three or more PEs per process, a broadcast counts as local and the message
  goes to every process unpacked.\<close>

theorem broadcast_unpacked:
  assumes "Cmi_mynode (cl_machine env) = 0" and "2 < Cmi_mynodesize (cl_machine env)" and "0 \<le> cl_mype env"
    and "CldEnqueue env r CLD_BROADCAST msg f n = Inr (act, c)"
  shows "\<exists>k m'. act = SendBroadcast k m' \<and> m_body m' = m_body msg"
proof -
  have "CmiNodeOf (cl_machine env) (- 2) = 0"
    using assms(2) by (simp add: CmiNodeOf_def signed_divide_int_def div_pos_pos_trivial)
  moreover have "m_body m' = m_body m" if "mark_msg h g m = Inr m'" for h g and m m' :: "'a cmsg"
    using mark_msg_fields(1) [OF that] by simp
  ultimately show ?thesis using assms(1,3,4)
    by (auto simp: CldEnqueue_def CLD_ANYWHERE_def CLD_BROADCAST_def CLD_BROADCAST_ALL_def Let_def bindE_def pack_msg_def
        split: sum.splits if_splits option.splits)
qed

end
