(* ===== verification/Spec2Isabelle.thy ===== *)
theory Spec2Isabelle
  imports Prelude Prio_Queue Conv_Queues Sched_Registry Scheduler Sched_Order Sched_Random Sched_Old Args Machine Broadcast Span_Tree Reduction Reduce_Variants List_Send Conditions Msg_Memory Persistent Persistent_Protocol Persistent_Safety Persistent_Run Persistent_Claims Task_Queue Msg_Manager Messaging Seed_Balancer
begin

text \<open>
  Verification of Reconverse, the Converse layer of Charm++: message-driven scheduling, messaging and
  collectives for processing elements (PEs), which are the threads of the processes (nodes) of a run.

  \<^bold>\<open>How the parts fit together.\<close>  \<^verbatim>\<open>ConverseInit\<close> reads the command line, numbers processes and PEs
  and divides them into partitions.  Every PE then runs a scheduler loop, which polls queues and the
  network and calls the handler a message names.  Messages are reference-counted blocks; they reach a
  PE through an inter-thread queue, the node queue, the PE's priority queue or its task queue.  Broadcasts,
  reductions, groups and multicasts relay messages along spanning trees; conditions and timers call
  back into the program; persistent channels reuse receive buffers under credits.

  \<^bold>\<open>Theories, the code they model and what they show.\<close>  Line ranges are in the manifest; file names are
  relative to \<^verbatim>\<open>src/\<close>.
  \<^item> \<^verbatim>\<open>Prelude\<close>: word types, \<^verbatim>\<open>std::map\<close> as a sorted association list, counting lemmas, collections of rules.
  \<^item> \<^verbatim>\<open>Prio_Queue\<close> (\<^verbatim>\<open>src/queueing.cpp\<close>, \<^verbatim>\<open>CqsEnqueueGeneral\<close> of \<^verbatim>\<open>src/scheduler.cpp\<close>): the levels of the scheduler queue
    refine a list of (priority, message) pairs, messages come out in the order of the contract, and
    the eight strategies place a message where its priority words say.  The locale \<^verbatim>\<open>prio_queue\<close> is the
    interface the schedulers use.
  \<^item> \<^verbatim>\<open>Conv_Queues\<close> (\<^verbatim>\<open>src/queue.h\<close>): both access policies; the counting one as an interleaving of producers
    and consumers over a concurrent queue given by the locale \<^verbatim>\<open>concurrent_queue\<close>.
  \<^item> \<^verbatim>\<open>Sched_Registry\<close>, \<^verbatim>\<open>Scheduler\<close>, \<^verbatim>\<open>Sched_Order\<close>, \<^verbatim>\<open>Sched_Random\<close>, \<^verbatim>\<open>Sched_Old\<close> (\<^verbatim>\<open>src/scheduler*.cpp\<close>,
    \<^verbatim>\<open>src/scheduler_take.h\<close>): the slot table of poll handlers and the three loops.  Polling ends and runs exactly
    the queued messages; the order between sources, the limits on node messages and where they fail.
  \<^item> \<^verbatim>\<open>Args\<close> and \<^verbatim>\<open>Machine\<close> (\<^verbatim>\<open>src/convcore.cpp\<close>): the getters on a NULL-terminated \<^verbatim>\<open>argv\<close> refine list functions and
    never leave the array; the run size is validated; partitions number processes and PEs bijectively.
  \<^item> \<^verbatim>\<open>Broadcast\<close>, \<^verbatim>\<open>Span_Tree\<close>, \<^verbatim>\<open>Reduction\<close>, \<^verbatim>\<open>Reduce_Variants\<close>, \<^verbatim>\<open>List_Send\<close> (\<^verbatim>\<open>src/collectives.cpp\<close>,
    \<^verbatim>\<open>include/converse.h\<close>): messages in flight are a multiset and delivery takes any of them, so the
    results hold for every order of delivery: each PE is reached once, each contribution is merged once.
  \<^item> \<^verbatim>\<open>Conditions\<close> (\<^verbatim>\<open>src/conv-conds.cpp\<close>): callback lists, the timer heap and the periodic conditions.
  \<^item> \<^verbatim>\<open>Msg_Memory\<close> (\<^verbatim>\<open>CmiAlloc\<close> to \<^verbatim>\<open>CmiSize\<close> of \<^verbatim>\<open>src/convcore.cpp\<close>): a block is released by the free that gives
    back its last reference, also through messages embedded in it.
  \<^item> \<^verbatim>\<open>Persistent\<close>, \<^verbatim>\<open>Persistent_Protocol\<close>, \<^verbatim>\<open>Persistent_Safety\<close>, \<^verbatim>\<open>Persistent_Run\<close>, \<^verbatim>\<open>Persistent_Claims\<close>
    (\<^verbatim>\<open>src/persist-comm.cpp\<close>, \<^verbatim>\<open>include/persistent.h\<close>): every operation and handler, the protocol between PEs as a step relation
    with an invariant that gives each buffer one of five states, a complete run, and the results.
  \<^item> \<^verbatim>\<open>Task_Queue\<close> (\<^verbatim>\<open>include/taskqueue.h\<close>, \<^verbatim>\<open>src/conv-taskq.cpp\<close>): the work-stealing queue, one access to
    shared memory at a time; no task is lost or run twice while the array has room.
  \<^item> \<^verbatim>\<open>Msg_Manager\<close> (\<^verbatim>\<open>src/msgmgr.cpp\<close>): the linked table of tagged messages refines a list.
  \<^item> \<^verbatim>\<open>Messaging\<close> (\<^verbatim>\<open>src/convcore.cpp\<close>): header fields, the handler table and its dispatch, sends to PEs and nodes within and
    across partitions, the receive paths and counted sends.  A send is traced to the queue of the PE it names.
  \<^item> \<^verbatim>\<open>Seed_Balancer\<close> (\<^verbatim>\<open>src/cldb*.cpp\<close>): the random and the idle seed balancer; a seed is traced from the enqueue to the
    scheduler of the receiving PE.
  \<^bold>\<open>Modelling conventions.\<close>  State is a record and is passed explicitly; an abort, an assertion, an access
  outside an array or through a bad pointer is an error value.  Code outside \<^verbatim>\<open>src/\<close> (the concurrent queue's
  linearizability, the network, \<^verbatim>\<open>malloc\<close>, the clock, random numbers, application handlers) is a
  parameter.  Interleavings are step relations over accesses to shared memory that is sequentially
  consistent.  C \<^verbatim>\<open>int\<close> counters that the code never checks are unbounded integers where noted; fields whose
  width matters (priorities, 16-bit handler indices, slot masks, reduction ids, hash values) are words.

  \<^bold>\<open>Termination and fuel.\<close>  Loops are structural, carry a measure, or are \<^verbatim>\<open>partial_function (option)\<close>; fuel is used
  for the scheduler loops and for walks over linked lists, and the theorems give an amount that suffices: the
  number of queued messages for polling, the number of entries for the tables.

  \<^bold>\<open>Not modelled.\<close>  The vendored \<^verbatim>\<open>src/concurrentqueue.h\<close> (its contract is the locale \<^verbatim>\<open>concurrent_queue\<close>) and the
  assembly under \<^verbatim>\<open>boost-context/\<close>; the communication backends, which call LCI and LCW (\<^verbatim>\<open>src/comm_backend/\<close>);
  sockets and the client/server interface (\<^verbatim>\<open>src/ccs/\<close>); the mapping of shared segments, the host
  topology, thread affinity, backtraces and memory statistics, which are operating-system calls
  (\<^verbatim>\<open>src/cmishm.cpp\<close>, \<^verbatim>\<open>src/cmixpmem.cpp\<close>, \<^verbatim>\<open>src/conv-topology.cpp\<close>, \<^verbatim>\<open>src/cpuaffinity.cpp\<close>, \<^verbatim>\<open>src/backtrace.cpp\<close>,
  \<^verbatim>\<open>src/memory_usage.cpp\<close>); one-sided transfers, which hand buffers to the backend (\<^verbatim>\<open>src/conv-rdma.cpp\<close>,
  \<^verbatim>\<open>src/cmirdmautils.cpp\<close>); the floating-point random stream (\<^verbatim>\<open>src/random.cpp\<close>); user-level threads and
  the futures on top of them, whose stacks belong to the context library (\<^verbatim>\<open>src/threads.cpp\<close>, \<^verbatim>\<open>src/futures.cpp\<close>); the
  allocator of registered memory, whose blocks are arguments of the models (\<^verbatim>\<open>src/mempool.C\<close>); the start-up barrier
  (\<^verbatim>\<open>src/barrier.h\<close>); and the free lists of the shared-memory pool (\<^verbatim>\<open>src/cmishmem.cpp\<close>, but for the delivery of a
  block), where whether a send uses the pool is a parameter.
\<close>

end
